(* ===== verification/Aether_Prelude.thy ===== *)
theory Aether_Prelude
  imports Main "HOL-Library.Word" "HOL-Library.Monad_Syntax"
begin

text \<open>
  Shared vocabulary of the development.

  \<^item> Machine integers. The C++ sources are read on an LP64 platform (the POSIX path of the
    project): \<open>std::size_t\<close>, \<open>std::uint64_t\<close> are 64-bit words, \<open>std::uint32_t\<close> 32-bit, and
    so on. Arithmetic on them wraps, as unsigned arithmetic does in C++.
  \<^item> Memory. A \<open>std::span\<close> is the list of the bytes (or elements) it views. An access outside the
    span is undefined behaviour in C++; the model returns \<open>None\<close> there, so a theorem that an
    operation returns \<open>Some\<close> is a theorem that it stays inside the memory it owns.
  \<^item> Generic lemmas on sub-spans, copies into spans, and power-of-two words.
\<close>

unbundle bit_operations_syntax

section \<open>Machine types\<close>

type_synonym u8 = "8 word"
type_synonym u16 = "16 word"
type_synonym u32 = "32 word"
type_synonym u64 = "64 word"
type_synonym size_t = "64 word"
type_synonym byte = "8 word"
type_synonym path = string

section \<open>Fact collections\<close>

named_theorems status_simps \<open>evaluation of status values, status tests and configuration checks\<close>
named_theorems span_simps \<open>sub-spans and copies into spans\<close>
named_theorems le_simps \<open>little-endian field encoding\<close>
named_theorems counter_simps \<open>unfolding of the metric counters\<close>

section \<open>Spans\<close>

text \<open>\<open>span.subspan(off, n)\<close>: the precondition \<open>off + n \<le> size()\<close> is checked.\<close>

definition subspan :: "'a list \<Rightarrow> nat \<Rightarrow> nat \<Rightarrow> 'a list option" where
  "subspan xs off n = (if off + n \<le> length xs then Some (take n (drop off xs)) else None)"

text \<open>\<open>std::memcpy(span.data() + off, src.data(), src.size())\<close> into a span.\<close>

definition memcpy_into :: "'a list \<Rightarrow> nat \<Rightarrow> 'a list \<Rightarrow> 'a list option" where
  "memcpy_into dst off src =
     (if off + length src \<le> length dst
      then Some (take off dst @ src @ drop (off + length src) dst) else None)"

lemma subspan_Some_iff [span_simps]:
  "subspan xs off n = Some ys \<longleftrightarrow> off + n \<le> length xs \<and> ys = take n (drop off xs)"
  by (auto simp: subspan_def)

lemma subspan_in_bounds [span_simps]:
  "off + n \<le> length xs \<Longrightarrow> subspan xs off n = Some (take n (drop off xs))"
  by (simp add: subspan_def)

lemma memcpy_into_Some_iff [span_simps]:
  "memcpy_into dst off src = Some r \<longleftrightarrow>
     off + length src \<le> length dst \<and> r = take off dst @ src @ drop (off + length src) dst"
  by (auto simp: memcpy_into_def)

lemma memcpy_into_in_bounds [span_simps]:
  "off + length src \<le> length dst \<Longrightarrow>
     memcpy_into dst off src = Some (take off dst @ src @ drop (off + length src) dst)"
  by (simp add: memcpy_into_def)

lemma memcpy_into_length:
  "memcpy_into dst off src = Some r \<Longrightarrow> length r = length dst"
  by (auto simp: memcpy_into_def split: if_splits)

text \<open>Two adjacent copies are one copy of the concatenation.\<close>

lemma memcpy_into_adjacent:
  assumes "off + length a + length b \<le> length dst"
  shows "memcpy_into dst off a \<bind> (\<lambda>d. memcpy_into d (off + length a) b)
       = memcpy_into dst off (a @ b)"
proof -
  have "drop (length b) (drop (off + length a) dst) = drop (off + (length a + length b)) dst"
    by (simp add: add.commute add.left_commute)
  then show ?thesis
    using assms by (simp add: memcpy_into_def add.assoc)
qed

section \<open>Powers of two and masking\<close>

lemma unat_lt2p: "unat w < 2 ^ LENGTH('a)" for w :: "'a::len word"
  by (rule unsigned_less)

lemma nat_and_pred_eq_0_imp_power:
  fixes n :: nat
  assumes "0 < n" "n AND (n - 1) = 0"
  shows "\<exists>k. n = 2 ^ k"
  using assms
proof (induction n rule: less_induct)
  case (less n)
  show ?case
  proof (cases "even n")
    case True
    then obtain m where m: "n = 2 * m" by (elim evenE)
    with less.prems have "0 < m" "m < n" by auto
    have "n - 1 = 2 * (m - 1) + 1" using \<open>0 < m\<close> m by simp
    then have "n AND (n - 1) = 2 * (m AND (m - 1))"
      using m by (simp add: and_nat_rec [of "2 * m"])
    with less.prems have "m AND (m - 1) = 0" by simp
    with less.IH [OF \<open>m < n\<close> \<open>0 < m\<close>] obtain k where "m = 2 ^ k" by blast
    with m have "n = 2 ^ Suc k" by simp
    then show ?thesis by blast
  next
    case False
    then obtain m where m: "n = 2 * m + 1" by (elim oddE)
    then have "n AND (n - 1) = 2 * m"
      by (simp add: and_nat_rec [of "Suc (2 * m)"])
    with less.prems m have "n = 2 ^ 0" by simp
    then show ?thesis by blast
  qed
qed

lemma nat_power_and_pred_eq_0: "(2::nat) ^ k AND (2 ^ k - 1) = 0"
proof -
  have "(2::nat) ^ k AND mask k = take_bit k (2 ^ k)"
    by (simp add: take_bit_eq_mask)
  also have "\<dots> = 0" by (simp add: take_bit_eq_mod)
  finally show ?thesis by (simp add: mask_eq_exp_minus_1)
qed

lemma unat_minus_1:
  fixes w :: "'a::len word"
  assumes "w \<noteq> 0"
  shows "unat (w - 1) = unat w - 1"
  using assms by (simp add: unat_eq_0 Suc_leI unat_sub word_le_nat_alt unat_gt_0)

lemma word_and_pred_eq_0_iff:
  fixes w :: "'a::len word"
  assumes "w \<noteq> 0"
  shows "w AND (w - 1) = 0 \<longleftrightarrow> (\<exists>k < LENGTH('a). unat w = 2 ^ k)"
proof -
  have "w AND (w - 1) = 0 \<longleftrightarrow> unat w AND (unat w - 1) = 0"
    using assms by (metis unat_minus_1 unsigned_and_eq unsigned_0 unsigned_word_eqI)
  also have "\<dots> \<longleftrightarrow> (\<exists>k < LENGTH('a). unat w = 2 ^ k)"
  proof
    assume "unat w AND (unat w - 1) = 0"
    moreover have "0 < unat w" using assms by (simp add: unat_gt_0)
    ultimately obtain k where k: "unat w = 2 ^ k"
      using nat_and_pred_eq_0_imp_power by blast
    have "(2::nat) ^ k < 2 ^ LENGTH('a)"
      using unsigned_less [of w] by (simp add: k [symmetric])
    then have "k < LENGTH('a)" by (simp add: power_strict_increasing_iff)
    with k show "\<exists>k < LENGTH('a). unat w = 2 ^ k" by blast
  qed (auto simp: nat_power_and_pred_eq_0 [simplified])
  finally show ?thesis .
qed

text \<open>Masking with \<open>C - 1\<close> is reduction modulo \<open>C\<close>, for \<open>C\<close> a power of two.\<close>

lemma unat_and_mask_mod:
  fixes i C :: "'a::len word"
  assumes "unat C = 2 ^ k"
  shows "unat (i AND (C - 1)) = unat i mod unat C"
proof -
  have "C \<noteq> 0" using assms by auto
  then have "unat (i AND (C - 1)) = unat i AND (2 ^ k - 1)"
    using assms by (simp add: unsigned_and_eq unat_minus_1)
  also have "\<dots> = unat i mod 2 ^ k"
    by (metis mask_eq_exp_minus_1 take_bit_eq_mask take_bit_eq_mod)
  finally show ?thesis using assms by simp
qed

lemma unat_add_of_nat_mod:
  fixes t :: "'a::len word"
  assumes "unat C = 2 ^ k" "k \<le> LENGTH('a)"
  shows "unat (t + of_nat n) mod unat (C :: 'b::len word) = (unat t + n) mod unat C"
proof -
  have "(2::nat) ^ k dvd 2 ^ LENGTH('a)"
    using assms(2) by (simp add: le_imp_power_dvd)
  then show ?thesis
    using assms(1)
    by (simp add: unat_word_ariths unsigned_of_nat take_bit_eq_mod mod_mod_cancel mod_add_right_eq)
qed

lemma mod_add_inj_below:
  fixes a b t C :: nat
  assumes "a < C" "b < C" "(t + a) mod C = (t + b) mod C"
  shows "a = b"
proof -
  have "(t + a) mod C = (t + b) mod C \<Longrightarrow> a \<le> b \<Longrightarrow> b < C \<Longrightarrow> a = b" for a b
  proof -
    assume eq: "(t + a) mod C = (t + b) mod C" and "a \<le> b" "b < C"
    then have "C dvd (t + b) - (t + a)" by (metis mod_eq_dvd_iff_nat add_le_mono le_refl)
    then have "C dvd b - a" by simp
    with \<open>b < C\<close> \<open>a \<le> b\<close> show "a = b"
      by (metis diff_is_0_eq dvd_imp_le less_imp_diff_less not_less le_antisym zero_less_iff_neq_zero)
  qed
  then show ?thesis using assms by (metis nat_le_linear)
qed

end
