(* ===== verification/Core_Types.thy ===== *)
theory Core_Types
  imports Aether_Prelude
begin

text \<open>
  The core layer: \<open>include/aether/core/types.hpp\<close>, \<open>status.hpp\<close>, \<open>expected.hpp\<close>, \<open>config.hpp\<close>,
  \<open>include/aether/message.hpp\<close> and \<open>src/core/status.cpp\<close>. Status values, the
  expected-or-error type and its normalisation of error statuses, the configuration records with
  their validation, and message views. The enumerators keep their order; a \<open>string_view\<close> is
  compared by content.
\<close>

section \<open>types.hpp\<close>

definition invalid_sequence :: u64 where
  "invalid_sequence = - 1"

definition max_payload_size :: u32 where
  "max_payload_size = - 1"

definition default_queue_capacity :: size_t where
  "default_queue_capacity = 1024"

definition default_wal_size_bytes :: u64 where
  "default_wal_size_bytes = 64 * 1024 * 1024"

definition is_power_of_two :: "size_t \<Rightarrow> bool" where
  "is_power_of_two value \<longleftrightarrow> value \<noteq> 0 \<and> value AND (value - 1) = 0"

section \<open>status.hpp and status.cpp\<close>

datatype StatusCode =
  Ok | Unknown | Full | Empty | Invalid_argument | Io_error | Corrupted_record | Out_of_space

fun status_code_name :: "StatusCode \<Rightarrow> string" where
  "status_code_name Ok = ''ok''"
| "status_code_name Unknown = ''unknown''"
| "status_code_name Full = ''full''"
| "status_code_name Empty = ''empty''"
| "status_code_name Invalid_argument = ''invalid_argument''"
| "status_code_name Io_error = ''io_error''"
| "status_code_name Corrupted_record = ''corrupted_record''"
| "status_code_name Out_of_space = ''out_of_space''"

fun status_code_message :: "StatusCode \<Rightarrow> string" where
  "status_code_message Ok = ''operation completed successfully''"
| "status_code_message Unknown = ''unknown error''"
| "status_code_message Full = ''resource is full''"
| "status_code_message Empty = ''resource is empty''"
| "status_code_message Invalid_argument = ''invalid argument''"
| "status_code_message Io_error = ''I/O error''"
| "status_code_message Corrupted_record = ''corrupted record''"
| "status_code_message Out_of_space = ''not enough space''"

record Status =
  st_code :: StatusCode
  st_detail :: string

definition status_ok :: Status where
  "status_ok = \<lparr>st_code = Ok, st_detail = []\<rparr>"

definition mk_status :: "StatusCode \<Rightarrow> string \<Rightarrow> Status" where
  "mk_status c d = \<lparr>st_code = c, st_detail = d\<rparr>"

definition is_ok :: "Status \<Rightarrow> bool" where
  "is_ok s \<longleftrightarrow> st_code s = Ok"

definition status_message :: "Status \<Rightarrow> string" where
  "status_message s = (if st_detail s \<noteq> [] then st_detail s else status_code_message (st_code s))"

text \<open>The enumeration's underlying \<open>std::uint8_t\<close>; scoped enumerations compare by it.\<close>

fun status_code_value :: "StatusCode \<Rightarrow> u8" where
  "status_code_value Ok = 0"
| "status_code_value Unknown = 1"
| "status_code_value Full = 2"
| "status_code_value Empty = 3"
| "status_code_value Invalid_argument = 4"
| "status_code_value Io_error = 5"
| "status_code_value Corrupted_record = 6"
| "status_code_value Out_of_space = 7"

instantiation StatusCode :: linorder
begin

definition less_eq_StatusCode :: "StatusCode \<Rightarrow> StatusCode \<Rightarrow> bool" where
  "less_eq_StatusCode a b \<longleftrightarrow> status_code_value a \<le> status_code_value b"

definition less_StatusCode :: "StatusCode \<Rightarrow> StatusCode \<Rightarrow> bool" where
  "less_StatusCode a b \<longleftrightarrow> status_code_value a < status_code_value b"

instance
proof
  fix a b c :: StatusCode
  have inj: "status_code_value a = status_code_value b \<Longrightarrow> a = b"
    by (cases a; cases b) simp_all
  show "a < b \<longleftrightarrow> a \<le> b \<and> \<not> b \<le> a"
    by (auto simp: less_eq_StatusCode_def less_StatusCode_def)
  show "a \<le> a" by (simp add: less_eq_StatusCode_def)
  show "a \<le> b \<Longrightarrow> b \<le> c \<Longrightarrow> a \<le> c" by (simp add: less_eq_StatusCode_def)
  show "a \<le> b \<Longrightarrow> b \<le> a \<Longrightarrow> a = b" unfolding less_eq_StatusCode_def by (rule inj) (rule order.antisym)
  show "a \<le> b \<or> b \<le> a" by (auto simp: less_eq_StatusCode_def)
qed

end

section \<open>expected.hpp\<close>

text \<open>\<open>Expected<T>\<close> stores a \<open>std::variant<T, Status>\<close>.\<close>

datatype 'a Expected = Expected_value 'a | Expected_status Status

definition normalize_expected_error :: "Status \<Rightarrow> Status" where
  "normalize_expected_error status =
     (if is_ok status then mk_status Invalid_argument ''Expected error status must not be ok''
      else status)"

definition expected_error :: "Status \<Rightarrow> 'a Expected" where
  "expected_error status = Expected_status (normalize_expected_error status)"

fun has_value :: "'a Expected \<Rightarrow> bool" where
  "has_value (Expected_value _) = True"
| "has_value (Expected_status _) = False"

fun expected_status :: "'a Expected \<Rightarrow> Status" where
  "expected_status (Expected_value _) = status_ok"
| "expected_status (Expected_status s) = s"

text \<open>\<open>value()\<close> asserts that the value is there.\<close>

fun expected_value :: "'a Expected \<Rightarrow> 'a option" where
  "expected_value (Expected_value v) = Some v"
| "expected_value (Expected_status _) = None"

text \<open>The specialisation \<open>Expected<void>\<close> keeps a status only.\<close>

definition expected_void :: "Status \<Rightarrow> Status" where
  "expected_void status =
     (let status_field = normalize_expected_error status
      in if is_ok status then status_ok else status_field)"

section \<open>config.hpp\<close>

record QueueConfig =
  qc_capacity :: size_t
  qc_spin_pause_iterations :: u32
  qc_yield_after_spin :: bool

definition default_QueueConfig :: QueueConfig where
  "default_QueueConfig =
     \<lparr>qc_capacity = default_queue_capacity, qc_spin_pause_iterations = 64,
      qc_yield_after_spin = True\<rparr>"

definition validate_queue_config :: "QueueConfig \<Rightarrow> Status" where
  "validate_queue_config c =
     (if qc_capacity c = 0 then mk_status Invalid_argument ''queue capacity must be nonzero''
      else if \<not> is_power_of_two (qc_capacity c)
        then mk_status Invalid_argument ''queue capacity must be a power of two''
      else status_ok)"

record WalConfig =
  wc_path :: path
  wc_file_size_bytes :: u64
  wc_flush_on_commit :: bool

definition default_WalConfig :: WalConfig where
  "default_WalConfig =
     \<lparr>wc_path = ''aether.wal'', wc_file_size_bytes = default_wal_size_bytes,
      wc_flush_on_commit = False\<rparr>"

definition validate_wal_config :: "WalConfig \<Rightarrow> Status" where
  "validate_wal_config c =
     (if wc_path c = [] then mk_status Invalid_argument ''wal path must not be empty''
      else if wc_file_size_bytes c = 0
        then mk_status Invalid_argument ''wal file size must be nonzero''
      else status_ok)"

record BrokerConfig =
  bc_queue :: QueueConfig
  bc_wal :: WalConfig
  bc_enable_wal :: bool

definition default_BrokerConfig :: BrokerConfig where
  "default_BrokerConfig =
     \<lparr>bc_queue = default_QueueConfig, bc_wal = default_WalConfig, bc_enable_wal = False\<rparr>"

definition validate_broker_config :: "BrokerConfig \<Rightarrow> Status" where
  "validate_broker_config c =
     (let queue_status = validate_queue_config (bc_queue c) in
      if \<not> is_ok queue_status then queue_status
      else if bc_enable_wal c then validate_wal_config (bc_wal c)
      else status_ok)"

section \<open>message.hpp\<close>

text \<open>A payload view is the list of its bytes; its size is the exact length of that list.\<close>

record MessageHeader =
  mh_sequence :: u64
  mh_timestamp_ns :: u64
  mh_payload_size :: u32
  mh_flags :: u32

record MessageView =
  mv_header :: MessageHeader
  mv_payload :: "byte list"

definition payload_size_fits :: "nat \<Rightarrow> bool" where
  "payload_size_fits n \<longleftrightarrow> n \<le> unat max_payload_size"

definition make_message_view ::
    "u64 \<Rightarrow> u64 \<Rightarrow> byte list \<Rightarrow> u32 \<Rightarrow> MessageView Expected" where
  "make_message_view sequence timestamp_ns payload flags =
     (if \<not> payload_size_fits (length payload)
      then expected_error (mk_status Invalid_argument ''payload too large'')
      else Expected_value
        \<lparr>mv_header = \<lparr>mh_sequence = sequence, mh_timestamp_ns = timestamp_ns,
                       mh_payload_size = of_nat (length payload), mh_flags = flags\<rparr>,
         mv_payload = payload\<rparr>)"

definition validate_message_view :: "MessageView \<Rightarrow> Status" where
  "validate_message_view message =
     (if unat (mh_payload_size (mv_header message)) \<noteq> length (mv_payload message)
      then mk_status Invalid_argument ''payload size mismatch''
      else status_ok)"

section \<open>Facts\<close>

lemma is_ok_status_ok [simp, status_simps]: "is_ok status_ok"
  by (simp add: is_ok_def status_ok_def)

lemma is_ok_mk_status [simp, status_simps]: "is_ok (mk_status c d) \<longleftrightarrow> c = Ok"
  by (simp add: is_ok_def mk_status_def)

lemma st_code_mk_status [simp, status_simps]: "st_code (mk_status c d) = c"
  by (simp add: mk_status_def)

lemma st_code_status_ok [simp, status_simps]: "st_code status_ok = Ok"
  by (simp add: status_ok_def)

lemma mk_status_neq_ok [simp, status_simps]:
  "c \<noteq> Ok \<Longrightarrow> mk_status c d \<noteq> status_ok" "c \<noteq> Ok \<Longrightarrow> status_ok \<noteq> mk_status c d"
  by (auto simp: mk_status_def status_ok_def)

lemma normalize_expected_error_not_ok [simp]: "\<not> is_ok (normalize_expected_error s)"
  by (simp add: normalize_expected_error_def)

lemma normalize_expected_error_id [simp]: "\<not> is_ok s \<Longrightarrow> normalize_expected_error s = s"
  by (simp add: normalize_expected_error_def)

lemma has_value_expected_error [simp]: "\<not> has_value (expected_error s)"
  by (simp add: expected_error_def)

lemma expected_status_expected_error [simp]:
  "\<not> is_ok s \<Longrightarrow> expected_status (expected_error s) = s"
  by (simp add: expected_error_def)

lemma expected_error_neq_value [simp]:
  "expected_error s \<noteq> Expected_value v" "Expected_value v \<noteq> expected_error s"
  by (simp_all add: expected_error_def)

lemma unat_max_payload_size: "unat max_payload_size = 2 ^ 32 - 1"
  by (simp add: max_payload_size_def unsigned_minus_1_eq_mask mask_eq_exp_minus_1)

lemma ucast_max_payload_size: "ucast max_payload_size = (0xFFFFFFFF :: u64)"
  by (simp add: word_unat_eq_iff unsigned_ucast_eq unat_max_payload_size take_bit_nat_eq_self)

lemma validate_wal_config_ok_iff [status_simps]:
  "is_ok (validate_wal_config c) \<longleftrightarrow> wc_path c \<noteq> [] \<and> wc_file_size_bytes c \<noteq> 0"
  by (simp add: validate_wal_config_def)

lemma validate_queue_config_ok_iff [status_simps]:
  "is_ok (validate_queue_config c) \<longleftrightarrow> is_power_of_two (qc_capacity c)"
  by (auto simp: validate_queue_config_def is_power_of_two_def)

lemma payload_size_fits_iff: "payload_size_fits n \<longleftrightarrow> n < 2 ^ 32"
  by (auto simp: payload_size_fits_def unat_max_payload_size)

lemma validate_message_view_ok_iff [status_simps]:
  "is_ok (validate_message_view m) \<longleftrightarrow>
     unat (mh_payload_size (mv_header m)) = length (mv_payload m)"
  by (simp add: validate_message_view_def)

lemma is_power_of_two_exponent:
  "is_power_of_two v \<longleftrightarrow> (\<exists>k < 64. unat v = 2 ^ k)"
proof (cases "v = 0")
  case True
  then show ?thesis by (simp add: is_power_of_two_def)
next
  case False
  then show ?thesis using word_and_pred_eq_0_iff [of v] by (simp add: is_power_of_two_def)
qed

end
