(* ===== verification/Wal_Record.thy ===== *)
theory Wal_Record
  imports Core_Types
begin

text \<open>
  \<open>include/aether/wal/record.hpp\<close>: the version-1 record header of the write-ahead log, its 40-byte
  little-endian encoding, and the checks on a decoded header. The model encodes with the same
  byte-wise loops as the code; the lemmas relate them to the layout table of
  \<open>docs/wal-format.md\<close> (fields at offsets 0, 4, 6, 8, 16, 24, 32, 36; bytes 12 to 15 reserved)
  and give the round trips.
\<close>

section \<open>Definitions\<close>

definition wal_record_magic :: u32 where
  "wal_record_magic = 65 OR push_bit 8 87 OR push_bit 16 65 OR push_bit 24 76"

definition wal_format_version :: u16 where
  "wal_format_version = 1"

definition wal_record_header_size :: u16 where
  "wal_record_header_size = 40"

record WalRecordHeader =
  rh_magic :: u32
  rh_version :: u16
  rh_header_size :: u16
  rh_payload_size :: u32
  rh_sequence :: u64
  rh_timestamp_ns :: u64
  rh_checksum :: u32
  rh_flags :: u32

definition default_WalRecordHeader :: WalRecordHeader where
  "default_WalRecordHeader =
     \<lparr>rh_magic = wal_record_magic, rh_version = wal_format_version,
      rh_header_size = wal_record_header_size, rh_payload_size = 0, rh_sequence = 0,
      rh_timestamp_ns = 0, rh_checksum = 0, rh_flags = 0\<rparr>"

record WalRecordView =
  rv_header :: WalRecordHeader
  rv_payload :: "byte list"
  rv_offset :: u64

definition write_u16_le :: "byte list \<Rightarrow> nat \<Rightarrow> u16 \<Rightarrow> byte list" where
  "write_u16_le bytes offset v =
     (bytes[offset := ucast (v AND 0xFF)])[offset + 1 := ucast (drop_bit 8 v AND 0xFF)]"

definition write_u32_le :: "byte list \<Rightarrow> nat \<Rightarrow> u32 \<Rightarrow> byte list" where
  "write_u32_le bytes offset v =
     fold (\<lambda>i bs. bs[offset + i := ucast (drop_bit (i * 8) v AND 0xFF)]) [0..<4] bytes"

definition write_u64_le :: "byte list \<Rightarrow> nat \<Rightarrow> u64 \<Rightarrow> byte list" where
  "write_u64_le bytes offset v =
     fold (\<lambda>i bs. bs[offset + i := ucast (drop_bit (i * 8) v AND 0xFF)]) [0..<8] bytes"

definition read_u16_le :: "byte list \<Rightarrow> nat \<Rightarrow> u16" where
  "read_u16_le bytes offset =
     ucast (bytes ! offset) OR push_bit 8 (ucast (bytes ! (offset + 1)))"

definition read_u32_le :: "byte list \<Rightarrow> nat \<Rightarrow> u32" where
  "read_u32_le bytes offset =
     fold (\<lambda>i v. v OR push_bit (i * 8) (ucast (bytes ! (offset + i)))) [0..<4] 0"

definition read_u64_le :: "byte list \<Rightarrow> nat \<Rightarrow> u64" where
  "read_u64_le bytes offset =
     fold (\<lambda>i v. v OR push_bit (i * 8) (ucast (bytes ! (offset + i)))) [0..<8] 0"

definition serialize_header :: "WalRecordHeader \<Rightarrow> byte list" where
  "serialize_header header =
     (let bytes = replicate 40 0;
          bytes = write_u32_le bytes 0 (rh_magic header);
          bytes = write_u16_le bytes 4 (rh_version header);
          bytes = write_u16_le bytes 6 (rh_header_size header);
          bytes = write_u32_le bytes 8 (rh_payload_size header);
          bytes = write_u64_le bytes 16 (rh_sequence header);
          bytes = write_u64_le bytes 24 (rh_timestamp_ns header);
          bytes = write_u32_le bytes 32 (rh_checksum header);
          bytes = write_u32_le bytes 36 (rh_flags header)
      in bytes)"

definition deserialize_header :: "byte list \<Rightarrow> WalRecordHeader Expected" where
  "deserialize_header bytes =
     (if length bytes < unat wal_record_header_size
      then expected_error (mk_status Empty ''partial wal header'')
      else Expected_value
        \<lparr>rh_magic = read_u32_le bytes 0, rh_version = read_u16_le bytes 4,
         rh_header_size = read_u16_le bytes 6, rh_payload_size = read_u32_le bytes 8,
         rh_sequence = read_u64_le bytes 16, rh_timestamp_ns = read_u64_le bytes 24,
         rh_checksum = read_u32_le bytes 32, rh_flags = read_u32_le bytes 36\<rparr>)"

definition record_total_size :: "WalRecordHeader \<Rightarrow> u64" where
  "record_total_size header = ucast (rh_header_size header) + ucast (rh_payload_size header)"

fun is_zero_filled :: "byte list \<Rightarrow> bool" where
  "is_zero_filled [] = True"
| "is_zero_filled (v # vs) = (if v \<noteq> 0 then False else is_zero_filled vs)"

definition validate_header_shape :: "WalRecordHeader \<Rightarrow> Status" where
  "validate_header_shape header =
     (if rh_magic header \<noteq> wal_record_magic then mk_status Corrupted_record ''invalid wal magic''
      else if rh_version header \<noteq> wal_format_version
        then mk_status Corrupted_record ''unsupported wal version''
      else if rh_header_size header \<noteq> wal_record_header_size
        then mk_status Corrupted_record ''invalid wal header size''
      else if rh_payload_size header > max_payload_size
        then mk_status Corrupted_record ''invalid wal payload size''
      else status_ok)"

section \<open>Little-endian fields\<close>

text \<open>The bytes of a word, least significant first: the reference encoding.\<close>

definition le_bytes :: "nat \<Rightarrow> 'a::len word \<Rightarrow> byte list" where
  "le_bytes n w = map (\<lambda>i. ucast (drop_bit (8 * i) w)) [0..<n]"

lemma length_le_bytes [simp, le_simps]: "length (le_bytes n w) = n"
  by (simp add: le_bytes_def)

lemma ucast_and_255: "(ucast ((w :: 'a::len word) AND 0xFF) :: byte) = ucast w"
proof (rule bit_eqI)
  fix n assume "possible_bit TYPE(8 word) n"
  then have n: "n < 8" by simp
  have m: "(0xFF :: 'a word) = mask 8" by (simp add: mask_numeral)
  show "bit (ucast (w AND 0xFF) :: byte) n = bit (ucast w :: byte) n"
    unfolding m using n by (auto simp: bit_simps dest: bit_imp_le_length)
qed

lemma fold_write_le:
  assumes "off + n \<le> length bs"
  shows "fold (\<lambda>i bs. bs[off + i := ucast (drop_bit (i * 8) v AND 0xFF)]) [0..<n] bs
    = take off bs @ le_bytes n v @ drop (off + n) bs"
  using assms
proof (induction n)
  case (Suc n)
  have d: "drop (off + n) bs = bs ! (off + n) # drop (off + Suc n) bs"
    using Suc.prems by (simp add: Cons_nth_drop_Suc)
  have "fold (\<lambda>i bs. bs[off + i := ucast (drop_bit (i * 8) v AND 0xFF)]) [0..<Suc n] bs
    = (take off bs @ le_bytes n v @ drop (off + n) bs)[off + n := ucast (drop_bit (n * 8) v AND 0xFF)]"
    using Suc by simp
  also have "\<dots> = take off bs @ le_bytes n v @ ucast (drop_bit (n * 8) v) # drop (off + Suc n) bs"
    using Suc.prems by (simp add: d list_update_append min_def ucast_and_255)
  also have "\<dots> = take off bs @ le_bytes (Suc n) v @ drop (off + Suc n) bs"
    by (simp add: le_bytes_def mult.commute)
  finally show ?case .
qed (simp add: le_bytes_def)

lemma write_u32_le_eq [le_simps]:
  "off + 4 \<le> length bs \<Longrightarrow> write_u32_le bs off v = take off bs @ le_bytes 4 v @ drop (off + 4) bs"
  unfolding write_u32_le_def by (rule fold_write_le)

lemma write_u64_le_eq [le_simps]:
  "off + 8 \<le> length bs \<Longrightarrow> write_u64_le bs off v = take off bs @ le_bytes 8 v @ drop (off + 8) bs"
  unfolding write_u64_le_def by (rule fold_write_le)

lemma write_u16_le_eq [le_simps]:
  assumes "off + 2 \<le> length bs"
  shows "write_u16_le bs off v = take off bs @ le_bytes 2 v @ drop (off + 2) bs"
proof -
  have "write_u16_le bs off v
    = fold (\<lambda>i bs. bs[off + i := ucast (drop_bit (i * 8) v AND 0xFF)]) [0..<2] bs"
    by (simp add: write_u16_le_def numeral_2_eq_2)
  with fold_write_le [OF assms] show ?thesis by simp
qed

lemma fold_read_le:
  fixes w :: "'a::len word"
  assumes "take n (drop off bs) = le_bytes n w" "off + n \<le> length bs"
  shows "fold (\<lambda>i v. v OR push_bit (i * 8) (ucast (bs ! (off + i)))) [0..<n] 0 = take_bit (8 * n) w"
  using assms
proof (induction n)
  case (Suc n)
  have byte: "bs ! (off + n) = ucast (drop_bit (8 * n) w)"
  proof -
    have "bs ! (off + n) = take (Suc n) (drop off bs) ! n" using Suc.prems(2) by simp
    then show ?thesis by (simp add: Suc.prems(1) le_bytes_def del: upt_Suc)
  qed
  have "take n (take (Suc n) (drop off bs)) = take n (le_bytes (Suc n) w)"
    by (simp only: Suc.prems(1))
  then have "take n (drop off bs) = le_bytes n w"
    by (simp add: le_bytes_def take_map del: upt_Suc)
  then have IH: "fold (\<lambda>i v. v OR push_bit (i * 8) (ucast (bs ! (off + i)))) [0..<n] 0
      = take_bit (8 * n) w"
    using Suc by simp
  have "take_bit (8 * n) w OR push_bit (n * 8) (ucast (ucast (drop_bit (8 * n) w) :: byte))
      = take_bit (8 * Suc n) w"
    by (rule bit_eqI) (auto simp: bit_simps)
  then show ?case using IH by (simp add: byte)
qed simp

lemma read_u32_le_eq:
  "take 4 (drop off bs) = le_bytes 4 w \<Longrightarrow> off + 4 \<le> length bs \<Longrightarrow> read_u32_le bs off = w"
  using fold_read_le [of 4 off bs w] by (simp add: read_u32_le_def take_bit_word_eq_self)

lemma read_u64_le_eq:
  "take 8 (drop off bs) = le_bytes 8 w \<Longrightarrow> off + 8 \<le> length bs \<Longrightarrow> read_u64_le bs off = w"
  using fold_read_le [of 8 off bs w] by (simp add: read_u64_le_def take_bit_word_eq_self)

lemma read_u16_le_eq:
  assumes "take 2 (drop off bs) = le_bytes 2 w" "off + 2 \<le> length bs"
  shows "read_u16_le bs off = w"
proof -
  have "read_u16_le bs off
    = fold (\<lambda>i v. v OR push_bit (i * 8) (ucast (bs ! (off + i)))) [0..<2] 0"
    by (simp add: read_u16_le_def numeral_2_eq_2)
  with fold_read_le [OF assms] show ?thesis by (simp add: take_bit_word_eq_self)
qed

text \<open>Conversely, the bytes of a field that was read are the bytes it was read from.\<close>

lemma bit_fold_read:
  fixes bs :: "byte list"
  shows "bit (fold (\<lambda>i v. v OR push_bit (i * 8) (ucast (bs ! (off + i)))) [0..<n] 0 :: 'a::len word) k
    \<longleftrightarrow> k < LENGTH('a) \<and> k < 8 * n \<and> bit (bs ! (off + k div 8)) (k mod 8)"
proof (induction n)
  case (Suc n)
  have "bit (push_bit (n * 8) (ucast (bs ! (off + n))) :: 'a word) k \<longleftrightarrow>
      k < LENGTH('a) \<and> 8 * n \<le> k \<and> k < 8 * Suc n \<and> bit (bs ! (off + k div 8)) (k mod 8)"
  proof (cases "8 * n \<le> k \<and> k < 8 * Suc n")
    case True
    then have "k div 8 = n" "k mod 8 = k - n * 8" by (auto simp: div_nat_eqI mod_nat_eqI mult.commute)
    then show ?thesis using True by (auto simp: bit_simps)
  next
    case False
    then show ?thesis by (auto simp: bit_simps dest: bit_imp_le_length)
  qed
  then show ?case using Suc by (auto simp: bit_or_iff)
qed simp

lemma le_bytes_fold_read:
  fixes bs :: "byte list"
  assumes "off + n \<le> length bs" "8 * n \<le> LENGTH('a::len)"
  shows "le_bytes n (fold (\<lambda>i v. v OR push_bit (i * 8) (ucast (bs ! (off + i)))) [0..<n] 0 :: 'a word)
    = take n (drop off bs)"
proof (rule nth_equalityI)
  fix i assume "i < length (le_bytes n (fold (\<lambda>i v. v OR push_bit (i * 8) (ucast (bs ! (off + i))))
      [0..<n] 0 :: 'a word))"
  then have i: "i < n" by simp
  have "(ucast (drop_bit (8 * i) (fold (\<lambda>i v. v OR push_bit (i * 8) (ucast (bs ! (off + i))))
      [0..<n] 0 :: 'a word)) :: byte) = bs ! (off + i)"
  proof (rule bit_eqI)
    fix k assume "possible_bit TYPE(8 word) k"
    then have k: "k < 8" by simp
    then have "8 * i + k < 8 * n" "8 * i + k < LENGTH('a)" using i assms(2) by linarith+
    moreover have "(8 * i + k) div 8 = i" "(8 * i + k) mod 8 = k" using k by simp_all
    ultimately show "bit (ucast (drop_bit (8 * i) (fold (\<lambda>i v. v OR push_bit (i * 8)
        (ucast (bs ! (off + i)))) [0..<n] 0 :: 'a word)) :: byte) k = bit (bs ! (off + i)) k"
      using k by (simp add: bit_simps bit_fold_read)
  qed
  then show "le_bytes n (fold (\<lambda>i v. v OR push_bit (i * 8) (ucast (bs ! (off + i)))) [0..<n] 0 :: 'a word)
      ! i = take n (drop off bs) ! i"
    using i assms(1) by (simp add: le_bytes_def)
qed (use assms(1) in simp)

lemma le_bytes_read_u32 [le_simps]:
  "off + 4 \<le> length bs \<Longrightarrow> le_bytes 4 (read_u32_le bs off) = take 4 (drop off bs)"
  using le_bytes_fold_read [of off 4 bs, where 'a = 32] by (simp add: read_u32_le_def)

lemma le_bytes_read_u64 [le_simps]:
  "off + 8 \<le> length bs \<Longrightarrow> le_bytes 8 (read_u64_le bs off) = take 8 (drop off bs)"
  using le_bytes_fold_read [of off 8 bs, where 'a = 64] by (simp add: read_u64_le_def)

lemma le_bytes_read_u16 [le_simps]:
  "off + 2 \<le> length bs \<Longrightarrow> le_bytes 2 (read_u16_le bs off) = take 2 (drop off bs)"
  using le_bytes_fold_read [of off 2 bs, where 'a = 16]
  by (simp add: read_u16_le_def numeral_2_eq_2)

section \<open>Layout and round trips\<close>

lemma serialize_header_layout:
  "serialize_header h =
     le_bytes 4 (rh_magic h) @ le_bytes 2 (rh_version h) @ le_bytes 2 (rh_header_size h) @
     le_bytes 4 (rh_payload_size h) @ [0, 0, 0, 0] @ le_bytes 8 (rh_sequence h) @
     le_bytes 8 (rh_timestamp_ns h) @ le_bytes 4 (rh_checksum h) @ le_bytes 4 (rh_flags h)"
proof -
  have "replicate 4 (0::byte) = [0, 0, 0, 0]" by (simp add: numeral_eq_Suc)
  then show ?thesis by (simp add: serialize_header_def le_simps Let_def)
qed

lemma length_serialize_header [simp]: "length (serialize_header h) = 40"
  by (simp add: serialize_header_layout)

lemma wal_record_header_size_simps [simp]: "unat wal_record_header_size = 40"
  by (simp add: wal_record_header_size_def)

lemma serialize_header_not_Nil [simp]: "serialize_header h \<noteq> []"
  using length_serialize_header [of h] by (metis list.size(3) zero_neq_numeral)

text \<open>Decoding reads the first 40 bytes only.\<close>

lemma deserialize_header_prefix:
  assumes "40 \<le> length bs"
  shows "deserialize_header (take 40 bs) = deserialize_header bs"
proof -
  have u64: "off + 8 \<le> 40 \<Longrightarrow> read_u64_le (take 40 bs) off = read_u64_le bs off" for off
    unfolding read_u64_le_def by (rule fold_cong) auto
  have u32: "off + 4 \<le> 40 \<Longrightarrow> read_u32_le (take 40 bs) off = read_u32_le bs off" for off
    unfolding read_u32_le_def by (rule fold_cong) auto
  have u16: "off + 2 \<le> 40 \<Longrightarrow> read_u16_le (take 40 bs) off = read_u16_le bs off" for off
    by (simp add: read_u16_le_def)
  show ?thesis using assms by (simp add: deserialize_header_def u64 u32 u16)
qed

lemma deserialize_serialize_header:
  "deserialize_header (serialize_header h @ rest) = Expected_value h"
  by (simp add: deserialize_header_def serialize_header_layout
      read_u32_le_eq [where w = "rh_magic h"] read_u16_le_eq [where w = "rh_version h"]
      read_u16_le_eq [where w = "rh_header_size h"] read_u32_le_eq [where w = "rh_payload_size h"]
      read_u64_le_eq [where w = "rh_sequence h"] read_u64_le_eq [where w = "rh_timestamp_ns h"]
      read_u32_le_eq [where w = "rh_checksum h"] read_u32_le_eq [where w = "rh_flags h"])

lemma take_drop_join:
  "take m (drop off bs) @ take n (drop (off + m) bs) = take (m + n) (drop off bs)"
  by (simp add: take_add add.commute)

lemma serialize_deserialize_header:
  assumes "deserialize_header bs = Expected_value h"
  shows "serialize_header h = take 12 bs @ [0, 0, 0, 0] @ take 24 (drop 16 bs)"
proof -
  have len: "40 \<le> length bs" using assms by (auto simp: deserialize_header_def split: if_splits)
  have "serialize_header h =
     (((take 4 (drop 0 bs) @ take 2 (drop (0 + 4) bs)) @ take 2 (drop (0 + 6) bs)) @
        take 4 (drop (0 + 8) bs)) @ [0, 0, 0, 0] @
     (((take 8 (drop 16 bs) @ take 8 (drop (16 + 8) bs)) @ take 4 (drop (16 + 16) bs)) @
        take 4 (drop (16 + 20) bs))"
    using assms len
    by (auto simp: serialize_header_layout deserialize_header_def le_simps split: if_splits)
  also have "\<dots> = take 12 bs @ [0, 0, 0, 0] @ take 24 (drop 16 bs)"
    using take_drop_join [of 4 0 bs 2] take_drop_join [of 6 0 bs 2] take_drop_join [of 8 0 bs 4]
      take_drop_join [of 8 16 bs 8] take_drop_join [of 16 16 bs 4] take_drop_join [of 20 16 bs 4]
    by simp
  finally show ?thesis .
qed

lemma is_zero_filled_iff: "is_zero_filled bs \<longleftrightarrow> (\<forall>b \<in> set bs. b = 0)"
  by (induction bs) auto

lemma is_zero_filled_replicate [simp]: "is_zero_filled (replicate n 0)"
  by (simp add: is_zero_filled_iff)

lemma is_zero_filled_append [simp]:
  "is_zero_filled (a @ b) \<longleftrightarrow> is_zero_filled a \<and> is_zero_filled b"
  by (auto simp: is_zero_filled_iff)

text \<open>The size check of \<open>validate_header_shape\<close> never fails: the field has the width of its maximum.\<close>

lemma validate_header_shape_ok_iff [status_simps]:
  "is_ok (validate_header_shape h) \<longleftrightarrow>
     rh_magic h = wal_record_magic \<and> rh_version h = wal_format_version \<and>
     rh_header_size h = wal_record_header_size"
proof -
  have "\<not> rh_payload_size h > max_payload_size" by (simp add: max_payload_size_def not_less)
  then show ?thesis by (simp add: validate_header_shape_def)
qed

lemma validate_header_shape_cases:
  "validate_header_shape h = status_ok \<or> st_code (validate_header_shape h) = Corrupted_record"
  by (simp add: validate_header_shape_def)

lemma unat_record_total_size:
  "unat (record_total_size h) = unat (rh_header_size h) + unat (rh_payload_size h)"
proof -
  have "unat (rh_header_size h) < 2 ^ 16" "unat (rh_payload_size h) < 2 ^ 32"
    using unsigned_less [of "rh_header_size h"] unsigned_less [of "rh_payload_size h"] by simp_all
  then show ?thesis
    by (simp add: record_total_size_def unat_word_ariths unsigned_ucast_eq take_bit_nat_eq_self)
qed

section \<open>Properties\<close>

text \<open>
  Round trip of the record header: decoding the 40 bytes of any header, with anything after
  them, gives back that header, for all values of all fields.
\<close>
theorem wal_header_roundtrip:
  "length (serialize_header h) = 40 \<and>
   deserialize_header (serialize_header h @ rest) = Expected_value h"
  by (simp add: deserialize_serialize_header)

text \<open>
  Round trip in the other direction: re-encoding a decoded header gives back the bytes it was
  decoded from, except that the reserved bytes 12 to 15, which the decoder ignores, become zero.
  A span shorter than a header is refused with \<open>StatusCode::empty\<close>.
\<close>
theorem wal_header_bytes_roundtrip:
  "(case deserialize_header bs of
      Expected_value h \<Rightarrow> serialize_header h = take 12 bs @ [0, 0, 0, 0] @ take 24 (drop 16 bs)
    | Expected_status s \<Rightarrow> length bs < 40 \<and> st_code s = Empty)"
proof (cases "deserialize_header bs")
  case (Expected_value h)
  then show ?thesis using serialize_deserialize_header by simp
next
  case (Expected_status s)
  then show ?thesis
    by (auto simp: deserialize_header_def expected_error_def split: if_splits)
qed

end
