(* ===== verification/Wal_Checksum.thy ===== *)
theory Wal_Checksum
  imports Wal_Record
begin

text \<open>
  \<open>src/wal/checksum.cpp\<close>: the bit-wise CRC-32 and the record checksum. Beyond the functional facts
  (the incremental computation over header and payload is the CRC of their concatenation), the
  lemmas show what the checksum is for: the bit step is linear and injective, so two
  messages that differ only inside a window of four consecutive bytes never have the same CRC.
\<close>

section \<open>Definitions\<close>

text \<open>The body of the inner loop, for one bit.\<close>

definition crc_bit :: "u32 \<Rightarrow> u32" where
  "crc_bit crc = (let mask = 0 - (crc AND 1) in drop_bit 1 crc XOR (0xEDB88320 AND mask))"

definition crc_byte :: "u32 \<Rightarrow> byte \<Rightarrow> u32" where
  "crc_byte crc b = fold (\<lambda>bit. crc_bit) [0..<8] (crc XOR ucast b)"

definition crc_update :: "u32 \<Rightarrow> byte list \<Rightarrow> u32" where
  "crc_update crc bytes = fold (\<lambda>b c. crc_byte c b) bytes crc"

definition crc32 :: "byte list \<Rightarrow> u32" where
  "crc32 bytes = crc_update 0xFFFFFFFF bytes XOR 0xFFFFFFFF"

definition compute_record_checksum :: "WalRecordHeader \<Rightarrow> byte list \<Rightarrow> u32" where
  "compute_record_checksum header payload =
     (let header = header\<lparr>rh_checksum := 0\<rparr>;
          serialized = serialize_header header;
          crc = 0xFFFFFFFF;
          crc = crc_update crc serialized;
          crc = crc_update crc payload
      in crc XOR 0xFFFFFFFF)"

definition validate_record_checksum :: "WalRecordHeader \<Rightarrow> byte list \<Rightarrow> bool" where
  "validate_record_checksum header payload \<longleftrightarrow>
     rh_checksum header = compute_record_checksum header payload"

lemma word_xor_cancel_right: "a XOR c = b XOR c \<longleftrightarrow> a = b" for a b c :: "'a::len word"
proof
  assume "a XOR c = b XOR c"
  then have "(a XOR c) XOR c = (b XOR c) XOR c" by (rule arg_cong)
  then show "a = b" by (simp only: xor.assoc xor_self_eq xor.right_neutral)
qed simp

lemma word_xor_cancel_left: "c XOR a = c XOR b \<longleftrightarrow> a = b" for a b c :: "'a::len word"
  using word_xor_cancel_right [of a c b] by (simp only: xor.commute)

section \<open>Incremental computation\<close>

lemma crc_update_append: "crc_update c (xs @ ys) = crc_update (crc_update c xs) ys"
  by (simp add: crc_update_def)

lemma crc_update_Nil [simp]: "crc_update c [] = c"
  by (simp add: crc_update_def)

lemma crc_update_Cons [simp]: "crc_update c (x # xs) = crc_update (crc_byte c x) xs"
  by (simp add: crc_update_def)

lemma compute_record_checksum_eq:
  "compute_record_checksum h p = crc32 (serialize_header (h\<lparr>rh_checksum := 0\<rparr>) @ p)"
  by (simp add: compute_record_checksum_def crc32_def crc_update_append)

lemma compute_record_checksum_ignores_field [simp]:
  "compute_record_checksum (h\<lparr>rh_checksum := c\<rparr>) p = compute_record_checksum h p"
  by (simp add: compute_record_checksum_eq)

section \<open>The bit step is linear and injective\<close>

lemma crc_bit_alt: "crc_bit c = drop_bit 1 c XOR (if bit c 0 then 0xEDB88320 else 0)"
proof (cases "bit c 0")
  case True
  then have "c AND 1 = 1" by (simp add: and_one_eq bit_0 odd_iff_mod_2_eq_one)
  then show ?thesis using True by (simp add: crc_bit_def)
next
  case False
  then have "c AND 1 = 0" by (simp add: and_one_eq bit_0 even_iff_mod_2_eq_zero)
  then show ?thesis using False by (simp add: crc_bit_def)
qed

lemma crc_bit_xor: "crc_bit (a XOR b) = crc_bit a XOR crc_bit b"
  unfolding crc_bit_alt drop_bit_xor bit_xor_iff
  by (cases "bit a 0"; cases "bit b 0") (simp_all add: ac_simps)

lemma crc_bit_eq_0: "crc_bit c = 0 \<Longrightarrow> c = 0"
proof (cases "bit c 0")
  case True
  assume "crc_bit c = 0"
  then have "drop_bit 1 c XOR 0xEDB88320 = 0xEDB88320 XOR 0xEDB88320"
    using True by (simp only: crc_bit_alt if_True xor_self_eq)
  then have eq: "drop_bit 1 c = 0xEDB88320" by (simp only: word_xor_cancel_right)
  have "\<not> bit (drop_bit 1 c) 31" by (auto simp: bit_drop_bit_eq dest: bit_imp_le_length)
  moreover have "bit (0xEDB88320 :: u32) 31" by (simp add: bit_numeral_word_iff)
  ultimately show ?thesis unfolding eq by blast
next
  case False
  assume "crc_bit c = 0"
  then have z: "drop_bit 1 c = 0" using False by (simp add: crc_bit_alt)
  show "c = 0"
  proof (rule bit_eqI)
    fix n
    have "bit c (Suc m) = bit (drop_bit 1 c) m" for m by (simp add: bit_drop_bit_eq)
    then have "\<not> bit c (Suc m)" for m unfolding z by simp
    then show "bit c n = bit 0 n" using False by (cases n) auto
  qed
qed

lemma crc_bit_inj: "crc_bit a = crc_bit b \<Longrightarrow> a = b"
proof -
  assume "crc_bit a = crc_bit b"
  then have "crc_bit (a XOR b) = 0" by (simp add: crc_bit_xor)
  then have "a XOR b = b XOR b" using crc_bit_eq_0 [of "a XOR b"] by (simp only: xor_self_eq)
  then show "a = b" by (simp only: word_xor_cancel_right)
qed

lemma crc_bits_xor: "(crc_bit ^^ n) (a XOR b) = (crc_bit ^^ n) a XOR (crc_bit ^^ n) b"
  by (induction n) (simp_all add: crc_bit_xor)

lemma crc_bits_inj: "(crc_bit ^^ n) a = (crc_bit ^^ n) b \<Longrightarrow> a = b"
  by (induction n) (auto dest: crc_bit_inj)

text \<open>Evaluation on concrete words: one rule per loop level, applied to numerals only.\<close>

named_theorems crc_eval \<open>evaluation of the CRC on concrete bytes\<close>

lemma crc_bit_numeral [crc_eval]:
  "crc_bit (numeral n) = drop_bit 1 (numeral n) XOR (0xEDB88320 AND - (numeral n AND 1))"
  by (simp add: crc_bit_def)

lemma crc_bit_small [crc_eval]: "crc_bit 0 = 0" "crc_bit 1 = 0xEDB88320"
  by (simp_all add: crc_bit_def)

lemma crc_byte_unroll [crc_eval]:
  "crc_byte c b =
     crc_bit (crc_bit (crc_bit (crc_bit (crc_bit (crc_bit (crc_bit (crc_bit (c XOR ucast b))))))))"
  by (simp add: crc_byte_def numeral_eq_Suc)

lemma crc_byte_eq: "crc_byte c b = (crc_bit ^^ 8) (c XOR ucast b)"
  by (simp add: crc_byte_def numeral_eq_Suc)

lemma crc_update_inj: "crc_update a xs = crc_update b xs \<Longrightarrow> a = b"
proof (induction xs arbitrary: a b)
  case (Cons x xs)
  then have "crc_byte a x = crc_byte b x" by simp
  then have "a XOR ucast x = b XOR ucast x" unfolding crc_byte_eq by (rule crc_bits_inj)
  then show ?case by (simp only: word_xor_cancel_right)
qed simp

section \<open>Bursts of up to 32 bits\<close>

text \<open>Bits shifted in from above pass through the register unchanged.\<close>

lemma crc_bits_push_bit:
  assumes "k \<le> 32" "take_bit (32 - k) x = x"
  shows "(crc_bit ^^ k) (push_bit k x) = x"
  using assms
proof (induction k)
  case (Suc k)
  have x: "\<not> bit x n" if "31 - k \<le> n" for n
  proof -
    have "bit x n = bit (take_bit (32 - Suc k) x) n" using Suc.prems(2) by simp
    then show ?thesis using that by (auto simp: bit_take_bit_iff)
  qed
  have "crc_bit (push_bit (Suc k) x) = push_bit k x"
  proof -
    have "\<not> bit (push_bit (Suc k) x) 0" by (simp only: bit_push_bit_iff) simp
    moreover have "drop_bit 1 (push_bit (Suc k) x) = push_bit k x"
    proof (rule bit_eqI)
      fix n assume "possible_bit TYPE(32 word) n"
      then have "n < 32" by simp
      moreover have "bit (drop_bit 1 (push_bit (Suc k) x)) n
          \<longleftrightarrow> Suc k \<le> 1 + n \<and> 1 + n < 32 \<and> bit x (1 + n - Suc k)"
        by (simp only: bit_drop_bit_eq o_apply bit_push_bit_iff) simp
      moreover have "bit (push_bit k x) n \<longleftrightarrow> k \<le> n \<and> n < 32 \<and> bit x (n - k)"
        by (simp only: bit_push_bit_iff) simp
      ultimately show "bit (drop_bit 1 (push_bit (Suc k) x)) n = bit (push_bit k x) n"
        using x [of "n - k"] Suc.prems(1) by (cases "n = 31") auto
    qed
    ultimately show ?thesis by (simp add: crc_bit_alt)
  qed
  moreover have "(crc_bit ^^ k) (push_bit k x) = x"
  proof (rule Suc.IH)
    show "take_bit (32 - k) x = x"
    proof (rule bit_eqI)
      fix n
      show "bit (take_bit (32 - k) x) n = bit x n"
        using x [of n] by (cases "n < 32 - k") (auto simp: bit_take_bit_iff)
    qed
  qed (use Suc.prems in simp)
  ultimately show ?case by (simp add: funpow_swap1)
qed simp

fun le_value :: "byte list \<Rightarrow> u32" where
  "le_value [] = 0"
| "le_value (b # bs) = ucast b XOR push_bit 8 (le_value bs)"

lemma le_value_high_bits: "bit (le_value bs) n \<Longrightarrow> n < 8 * length bs"
proof (induction bs arbitrary: n)
  case (Cons b bs)
  then have "bit (ucast b :: u32) n \<or> bit (push_bit 8 (le_value bs)) n"
    by (auto simp: bit_xor_iff)
  then show ?case
    using Cons.IH [of "n - 8"] by (auto simp: bit_simps dest: bit_imp_le_length)
qed simp

lemma le_value_take_bit: "8 * length bs \<le> m \<Longrightarrow> take_bit m (le_value bs) = le_value bs"
  by (rule bit_eqI) (auto simp: bit_take_bit_iff dest: le_value_high_bits)

lemma crc_update_short:
  "length bs \<le> 4 \<Longrightarrow> crc_update c bs = (crc_bit ^^ (8 * length bs)) (c XOR le_value bs)"
proof (induction bs arbitrary: c)
  case (Cons b bs)
  have thru: "(crc_bit ^^ 8) (push_bit 8 (le_value bs)) = le_value bs"
    by (rule crc_bits_push_bit) (use Cons.prems in \<open>simp_all add: le_value_take_bit\<close>)
  have "crc_update c (b # bs)
    = (crc_bit ^^ (8 * length bs)) ((crc_bit ^^ 8) (c XOR ucast b) XOR le_value bs)"
    using Cons by (simp add: crc_byte_eq)
  also have "(crc_bit ^^ 8) (c XOR ucast b) XOR le_value bs
    = (crc_bit ^^ 8) (c XOR (ucast b XOR push_bit 8 (le_value bs)))"
    by (simp only: crc_bits_xor thru xor.assoc)
  also have "(crc_bit ^^ (8 * length bs)) ((crc_bit ^^ 8) (c XOR (ucast b XOR push_bit 8 (le_value bs))))
    = (crc_bit ^^ (8 * length bs + 8)) (c XOR le_value (b # bs))"
    by (simp only: funpow_add o_apply le_value.simps)
  finally show ?case by (simp add: add.commute)
qed simp

lemma le_value_inj:
  "length xs = length ys \<Longrightarrow> length xs \<le> 4 \<Longrightarrow> le_value xs = le_value ys \<Longrightarrow> xs = ys"
proof (induction xs ys rule: list_induct2)
  case (Cons x xs y ys)
  have bits: "bit (ucast x XOR push_bit 8 (le_value xs)) n = bit (ucast y XOR push_bit 8 (le_value ys)) n" for n
    using Cons.prems(2) by simp
  have "x = y"
  proof (rule bit_eqI)
    fix n assume "possible_bit TYPE(8 word) n"
    then show "bit x n = bit y n" using bits [of n] by (auto simp: bit_simps)
  qed
  moreover have "le_value xs = le_value ys"
  proof (rule bit_eqI)
    fix n
    show "bit (le_value xs) n = bit (le_value ys) n"
    proof (cases "n < 24")
      case True
      then show ?thesis using bits [of "n + 8"] by (auto simp: bit_simps dest: bit_imp_le_length)
    next
      case False
      then show ?thesis using le_value_high_bits [of xs n] le_value_high_bits [of ys n] Cons
        by auto
    qed
  qed
  ultimately show ?case using Cons by simp
qed simp

lemma crc_update_burst:
  assumes "length xs = length ys" "length xs \<le> 4" "crc_update c xs = crc_update c ys"
  shows "xs = ys"
proof -
  have "(crc_bit ^^ (8 * length xs)) (c XOR le_value xs)
      = (crc_bit ^^ (8 * length xs)) (c XOR le_value ys)"
    using assms crc_update_short [of xs c] crc_update_short [of ys c] by simp
  then have "c XOR le_value xs = c XOR le_value ys" by (rule crc_bits_inj)
  then have "le_value xs = le_value ys" by (simp only: word_xor_cancel_left)
  with assms show ?thesis by (intro le_value_inj)
qed

lemma crc32_burst:
  assumes "length xs = length ys" "length xs \<le> 4"
    and "crc32 (pre @ xs @ post) = crc32 (pre @ ys @ post)"
  shows "xs = ys"
proof -
  have "crc_update 0xFFFFFFFF (pre @ xs @ post) = crc_update 0xFFFFFFFF (pre @ ys @ post)"
    using assms(3) by (simp only: crc32_def word_xor_cancel_right)
  then have "crc_update (crc_update 0xFFFFFFFF pre) xs = crc_update (crc_update 0xFFFFFFFF pre) ys"
    unfolding crc_update_append by (rule crc_update_inj)
  with assms(1,2) show ?thesis by (rule crc_update_burst)
qed

section \<open>Properties\<close>

text \<open>
  C25. Error detection of the CRC-32: two byte strings that differ, but only inside a window of at
  most four consecutive bytes (an error burst of up to 32 bits, so in particular any single
  corrupted byte), never have the same \<open>crc32\<close>.
\<close>
theorem crc32_detects_bursts:
  assumes "length xs = length ys" "length xs \<le> 4" "xs \<noteq> ys"
  shows "crc32 (pre @ xs @ post) \<noteq> crc32 (pre @ ys @ post)"
  using crc32_burst [OF assms(1,2)] assms(3) by blast

theorem crc32_detects_bursts_witness:
  "length [0x31, 0x32] = length [0x32, 0x31 :: byte] \<and>
   crc32 ([1, 2] @ [0x31, 0x32] @ [3]) \<noteq> crc32 ([1, 2] @ [0x32, 0x31] @ [3])"
  using crc32_detects_bursts [of "[0x31, 0x32]" "[0x32, 0x31]" "[1, 2]" "[3]"] by simp

text \<open>
  C26. The record checksum computed piecewise over header and payload is the CRC-32 of the
  record's bytes with the checksum field zeroed, and is independent of the stored checksum; on the
  standard check input \<open>"123456789"\<close> the routine gives the IEEE value \<open>0xCBF43926\<close>.
\<close>
theorem record_checksum_is_crc32:
  "compute_record_checksum h p = crc32 (serialize_header (h\<lparr>rh_checksum := 0\<rparr>) @ p) \<and>
   compute_record_checksum (h\<lparr>rh_checksum := c\<rparr>) p = compute_record_checksum h p \<and>
   crc32 [0x31, 0x32, 0x33, 0x34, 0x35, 0x36, 0x37, 0x38, 0x39] = 0xCBF43926"
proof -
  have "crc32 [0x31, 0x32, 0x33, 0x34, 0x35, 0x36, 0x37, 0x38, 0x39] = 0xCBF43926"
    by (simp add: crc32_def crc_eval)
  then show ?thesis using compute_record_checksum_eq compute_record_checksum_ignores_field by blast
qed

end
