(* ===== verification/Wal_Log.thy ===== *)
theory Wal_Log
  imports Wal_Checksum
begin

text \<open>
  What a log is, independently of the writer and the reader: a list of entries, its byte image, and
  the contract of an appender. \<open>docs/wal-format.md\<close> describes the image; \<open>wal_writer.cpp\<close>
  produces it and \<open>wal_reader.cpp\<close> decodes it. The locale \<open>append_log\<close> is what a client of the
  writer (the persistent broker, the publisher) relies on.
\<close>

section \<open>Entries and their image\<close>

type_synonym wal_entry = "WalRecordHeader \<times> byte list"

definition entry_image :: "wal_entry \<Rightarrow> byte list" where
  "entry_image e = serialize_header (fst e) @ snd e"

definition entry_ok :: "wal_entry \<Rightarrow> bool" where
  "entry_ok e \<longleftrightarrow> is_ok (validate_header_shape (fst e)) \<and>
     unat (rh_payload_size (fst e)) = length (snd e) \<and> validate_record_checksum (fst e) (snd e)"

definition wal_image :: "wal_entry list \<Rightarrow> byte list" where
  "wal_image es = concat (map entry_image es)"

text \<open>The views a reader hands out for entries that start at a byte offset.\<close>

fun wal_views :: "nat \<Rightarrow> wal_entry list \<Rightarrow> WalRecordView list" where
  "wal_views off [] = []"
| "wal_views off (e # es) =
     \<lparr>rv_header = fst e, rv_payload = snd e, rv_offset = of_nat off\<rparr>
     # wal_views (off + length (entry_image e)) es"

lemma length_entry_image [simp]: "length (entry_image e) = 40 + length (snd e)"
  by (simp add: entry_image_def)

lemma wal_image_simps [simp]:
  "wal_image [] = []" "wal_image (e # es) = entry_image e @ wal_image es"
  "wal_image (es @ fs) = wal_image es @ wal_image fs"
  by (simp_all add: wal_image_def)

lemma length_wal_image_ge: "40 * length es \<le> length (wal_image es)"
  by (induction es) auto

lemma length_wal_views [simp]: "length (wal_views off es) = length es"
  by (induction es arbitrary: off) auto

lemma map_header_wal_views [simp]:
  "map rv_header (wal_views off es) = map fst es" "map rv_payload (wal_views off es) = map snd es"
  by (induction es arbitrary: off) auto

lemma wal_views_append:
  "wal_views off (es @ fs) = wal_views off es @ wal_views (off + length (wal_image es)) fs"
  by (induction es arbitrary: off) (auto simp: add.assoc)

text \<open>An image determines its entries: two lists of well-formed entries with one image are equal.\<close>

lemma entry_image_inj:
  assumes "entry_image e @ xs = entry_image f @ ys" "entry_ok e" "entry_ok f"
  shows "e = f \<and> xs = ys"
proof -
  have "Expected_value (fst e) = deserialize_header (entry_image e @ xs)"
    by (simp add: entry_image_def deserialize_serialize_header)
  also have "\<dots> = Expected_value (fst f)"
    by (simp only: assms(1)) (simp add: entry_image_def deserialize_serialize_header)
  finally have h: "fst e = fst f" by simp
  then have "length (snd e) = length (snd f)" using assms(2,3) by (simp add: entry_ok_def)
  then show ?thesis using assms(1) h by (auto simp: entry_image_def prod_eq_iff)
qed

lemma entry_image_not_Nil [simp]: "entry_image e \<noteq> []"
  by (metis length_entry_image list.size(3) add_is_0 zero_neq_numeral)

lemma wal_image_inj:
  "wal_image es = wal_image fs \<Longrightarrow> \<forall>e \<in> set es. entry_ok e \<Longrightarrow> \<forall>e \<in> set fs. entry_ok e \<Longrightarrow> es = fs"
proof (induction es arbitrary: fs)
  case Nil
  then show ?case by (cases fs) auto
next
  case (Cons e es)
  then show ?case using entry_image_inj [of e "wal_image es"] by (cases fs) auto
qed

text \<open>A concrete entry, with a payload of two bytes, for the witnesses.\<close>

definition sample_entry :: wal_entry where
  "sample_entry =
     (let h = default_WalRecordHeader\<lparr>rh_payload_size := 2, rh_timestamp_ns := 9\<rparr>
      in (h\<lparr>rh_checksum := compute_record_checksum h [7, 8]\<rparr>, [7, 8]))"

lemma sample_entry_ok: "entry_ok sample_entry" and snd_sample_entry [simp]: "snd sample_entry = [7, 8]"
proof -
  show "snd sample_entry = [7, 8]" by (simp add: sample_entry_def Let_def)
  have "validate_record_checksum (fst sample_entry) [7, 8]"
    unfolding sample_entry_def Let_def validate_record_checksum_def fst_conv
      compute_record_checksum_ignores_field by simp
  then show "entry_ok sample_entry"
    by (simp add: entry_ok_def status_simps) (simp add: sample_entry_def default_WalRecordHeader_def Let_def)
qed

section \<open>The contract of an appender\<close>

text \<open>A session: messages with the clock values at which they are appended.\<close>

fun log_appends ::
    "('os \<Rightarrow> u64 \<Rightarrow> 'w \<Rightarrow> 'm \<Rightarrow> (Status \<times> 'w \<times> 'os) option) \<Rightarrow> 'os \<Rightarrow> 'w \<Rightarrow>
     (u64 \<times> 'm) list \<Rightarrow> (Status list \<times> 'w \<times> 'os) option" where
  "log_appends app os w [] = Some ([], w, os)"
| "log_appends app os w ((now, m) # ms) =
     do { (st, w, os) \<leftarrow> app os now w m;
          (sts, w, os) \<leftarrow> log_appends app os w ms;
          Some (st # sts, w, os) }"

text \<open>The entries that the accepted messages of a session become, numbered from \<open>n\<close>.\<close>

fun log_entries :: "(nat \<Rightarrow> u64 \<Rightarrow> 'm \<Rightarrow> 'e) \<Rightarrow> nat \<Rightarrow> Status list \<Rightarrow> (u64 \<times> 'm) list \<Rightarrow> 'e list" where
  "log_entries entry n (st # sts) ((now, m) # ms) =
     (if is_ok st then entry n now m # log_entries entry (Suc n) sts ms
      else log_entries entry n sts ms)"
| "log_entries entry n [] ms = []"
| "log_entries entry n sts [] = []"

text \<open>The messages of a session whose append reported success, each with the clock reading of its append.\<close>

definition accepted_messages :: "Status list \<Rightarrow> (u64 \<times> 'm) list \<Rightarrow> (u64 \<times> 'm) list" where
  "accepted_messages sts ms = map snd (filter (is_ok \<circ> fst) (zip sts ms))"

lemma map_log_entries:
  assumes "\<And>k now m. f (entry k now m) = g now m"
  shows "map f (log_entries entry n sts ms) = map (\<lambda>(now, m). g now m) (accepted_messages sts ms)"
  using assms by (induction entry n sts ms rule: log_entries.induct) (simp_all add: accepted_messages_def)

text \<open>
  \<open>rep w es\<close>: the appender \<open>w\<close> holds the log \<open>es\<close>; \<open>clean w\<close>: nothing but the log has been
  written. \<open>app\<close> returns a status and the new appender; \<open>None\<close> stands for undefined behaviour.
  An append that reports success has added exactly one entry at the end; a failed one has not changed
  the log, and has changed nothing at all unless its flush failed.
\<close>

locale append_log =
  fixes rep :: "'w \<Rightarrow> 'e list \<Rightarrow> bool"
    and clean :: "'w \<Rightarrow> bool"
    and app :: "'os \<Rightarrow> u64 \<Rightarrow> 'w \<Rightarrow> 'm \<Rightarrow> (Status \<times> 'w \<times> 'os) option"
    and entry :: "nat \<Rightarrow> u64 \<Rightarrow> 'm \<Rightarrow> 'e"
  assumes append_defined: "rep w es \<Longrightarrow> \<exists>r. app os now w m = Some r"
    and append_ok: "rep w es \<Longrightarrow> app os now w m = Some (st, w', os') \<Longrightarrow> is_ok st \<Longrightarrow>
      rep w' (es @ [entry (length es) now m]) \<and> (clean w \<longrightarrow> clean w')"
    and append_error: "rep w es \<Longrightarrow> app os now w m = Some (st, w', os') \<Longrightarrow> \<not> is_ok st \<Longrightarrow>
      rep w' es \<and> (w' = w \<or> st_code st = Io_error)"
begin

lemma appends_defined: "rep w es \<Longrightarrow> \<exists>r. log_appends app os w ms = Some r"
proof (induction ms arbitrary: os w es)
  case (Cons nm ms)
  obtain now m where nm: "nm = (now, m)" by fastforce
  obtain st w' os' where a: "app os now w m = Some (st, w', os')"
    using append_defined [OF Cons.prems, of os now m] by auto
  have "\<exists>es'. rep w' es'"
    using append_ok [OF Cons.prems a] append_error [OF Cons.prems a] by (cases "is_ok st") auto
  then obtain r where "log_appends app os' w' ms = Some r" using Cons.IH by blast
  then show ?case using a nm by (cases r) auto
qed simp

lemma appends_log:
  assumes "rep w es" "log_appends app os w ms = Some (sts, w', os')"
  shows "rep w' (es @ log_entries entry (length es) sts ms) \<and> length sts = length ms \<and>
    (clean w \<and> (\<forall>st \<in> set sts. st_code st \<noteq> Io_error) \<longrightarrow> clean w')"
  using assms
proof (induction ms arbitrary: os w es sts)
  case (Cons nm ms)
  obtain now m where nm: "nm = (now, m)" by fastforce
  obtain st w1 os1 sts' where a: "app os now w m = Some (st, w1, os1)"
    and r: "log_appends app os1 w1 ms = Some (sts', w', os')" "sts = st # sts'"
    using Cons.prems(2) nm by (auto simp: bind_eq_Some_conv)
  show ?case
  proof (cases "is_ok st")
    case True
    then show ?thesis
      using append_ok [OF Cons.prems(1) a] Cons.IH [OF _ r(1), of "es @ [entry (length es) now m]"]
        nm r(2) by auto
  next
    case False
    then show ?thesis
      using append_error [OF Cons.prems(1) a] Cons.IH [OF _ r(1), of es] nm r(2) by auto
  qed
qed auto

end

end
