(* ===== verification/Mmap_File.thy ===== *)
theory Mmap_File
  imports Core_Types
begin

text \<open>
  \<open>include/aether/io/mmap_file.hpp\<close> and \<open>src/io/mmap_file.cpp\<close>, POSIX branch: the owner of a file
  descriptor and a shared mapping.

  The operating system is a parameter: a record of the system calls the code makes, over a state
  type \<open>'os\<close>. A system call returns its C result (\<open>-1\<close> for failure, \<open>MAP_FAILED\<close> is \<open>None\<close>) and
  the new state. A mapping is its address with the bytes in it; the object that owns
  the mapping owns those bytes between \<open>mmap\<close> and \<open>munmap\<close>, so \<open>msync\<close> and \<open>munmap\<close>
  are given the bytes they synchronise. \<open>posix_laws\<close> collects the documented behaviour (open(2),
  ftruncate(2), fstat(2), mmap(2) with \<open>MAP_SHARED\<close>, msync(2), munmap(2), close(2)) over three
  observers of the state: the open descriptors, the mappings, and the file contents.
\<close>

section \<open>The system interface\<close>

datatype open_mode = O_RDWR_only | O_RDWR_CREAT_TRUNC

type_synonym mapping_ref = "nat \<times> byte list"

record 'os posix =
  sys_open :: "'os \<Rightarrow> path \<Rightarrow> open_mode \<Rightarrow> int \<times> 'os"
  sys_ftruncate :: "'os \<Rightarrow> int \<Rightarrow> int \<Rightarrow> int \<times> 'os"
  sys_fstat :: "'os \<Rightarrow> int \<Rightarrow> int \<times> int \<times> 'os"
  sys_mmap :: "'os \<Rightarrow> size_t \<Rightarrow> int \<Rightarrow> mapping_ref option \<times> 'os"
  sys_msync :: "'os \<Rightarrow> mapping_ref \<Rightarrow> size_t \<Rightarrow> int \<times> 'os"
  sys_munmap :: "'os \<Rightarrow> mapping_ref \<Rightarrow> size_t \<Rightarrow> int \<times> 'os"
  sys_close :: "'os \<Rightarrow> int \<Rightarrow> int \<times> 'os"
  os_fds :: "'os \<Rightarrow> int \<rightharpoonup> path"
  os_maps :: "'os \<Rightarrow> nat \<rightharpoonup> path"
  os_files :: "'os \<Rightarrow> path \<rightharpoonup> byte list"

text \<open>What each call guarantees of its result and the new state.\<close>

definition open_post :: "'os posix \<Rightarrow> 'os \<Rightarrow> path \<Rightarrow> open_mode \<Rightarrow> int \<Rightarrow> 'os \<Rightarrow> bool" where
  "open_post P os p mode fd os' \<longleftrightarrow>
     os_maps P os' = os_maps P os \<and>
     (if fd = - 1 then os_fds P os' = os_fds P os
      else os_fds P os fd = None \<and> os_fds P os' = (os_fds P os)(fd \<mapsto> p) \<and>
        (case mode of
           O_RDWR_only \<Rightarrow> os_files P os' p = os_files P os p \<and> os_files P os p \<noteq> None
         | O_RDWR_CREAT_TRUNC \<Rightarrow> os_files P os' p = Some []))"

definition ftruncate_post :: "'os posix \<Rightarrow> 'os \<Rightarrow> int \<Rightarrow> int \<Rightarrow> int \<Rightarrow> 'os \<Rightarrow> bool" where
  "ftruncate_post P os fd n r os' \<longleftrightarrow>
     os_maps P os' = os_maps P os \<and> os_fds P os' = os_fds P os \<and>
     (r \<noteq> - 1 \<longrightarrow> 0 \<le> n \<and> (\<forall>p c. os_fds P os fd = Some p \<longrightarrow> os_files P os p = Some c \<longrightarrow>
        os_files P os' p = Some (take (nat n) c @ replicate (nat n - length c) 0)))"

definition fstat_post :: "'os posix \<Rightarrow> 'os \<Rightarrow> int \<Rightarrow> int \<Rightarrow> int \<Rightarrow> 'os \<Rightarrow> bool" where
  "fstat_post P os fd r sz os' \<longleftrightarrow>
     os_maps P os' = os_maps P os \<and> os_fds P os' = os_fds P os \<and> os_files P os' = os_files P os \<and>
     (r \<noteq> - 1 \<longrightarrow> (\<forall>p c. os_fds P os fd = Some p \<longrightarrow> os_files P os p = Some c \<longrightarrow>
        sz = int (length c) \<and> length c < 2 ^ 63))"

definition mmap_post :: "'os posix \<Rightarrow> 'os \<Rightarrow> size_t \<Rightarrow> int \<Rightarrow> mapping_ref option \<Rightarrow> 'os \<Rightarrow> bool" where
  "mmap_post P os n fd r os' \<longleftrightarrow>
     os_fds P os' = os_fds P os \<and> os_files P os' = os_files P os \<and>
     (case r of
        None \<Rightarrow> os_maps P os' = os_maps P os
      | Some (a, bs) \<Rightarrow> length bs = unat n \<and> os_maps P os a = None \<and>
          (\<forall>p. os_fds P os fd = Some p \<longrightarrow> os_maps P os' = (os_maps P os)(a \<mapsto> p) \<and>
             (\<forall>c. os_files P os p = Some c \<longrightarrow> length c = unat n \<longrightarrow> bs = c)))"

definition msync_post :: "'os posix \<Rightarrow> 'os \<Rightarrow> mapping_ref \<Rightarrow> int \<Rightarrow> 'os \<Rightarrow> bool" where
  "msync_post P os d r os' \<longleftrightarrow>
     os_maps P os' = os_maps P os \<and> os_fds P os' = os_fds P os \<and>
     (r \<noteq> - 1 \<longrightarrow> (\<forall>p. os_maps P os (fst d) = Some p \<longrightarrow> os_files P os' p = Some (snd d)))"

definition munmap_post :: "'os posix \<Rightarrow> 'os \<Rightarrow> mapping_ref \<Rightarrow> int \<Rightarrow> 'os \<Rightarrow> bool" where
  "munmap_post P os d r os' \<longleftrightarrow>
     os_fds P os' = os_fds P os \<and>
     (if r = - 1 then os_maps P os' = os_maps P os
      else os_maps P os' = (os_maps P os)(fst d := None) \<and>
        (\<forall>p. os_maps P os (fst d) = Some p \<longrightarrow> os_files P os' p = Some (snd d)))"

definition close_post :: "'os posix \<Rightarrow> 'os \<Rightarrow> int \<Rightarrow> 'os \<Rightarrow> bool" where
  "close_post P os fd os' \<longleftrightarrow>
     os_maps P os' = os_maps P os \<and> os_files P os' = os_files P os \<and>
     os_fds P os' = (os_fds P os)(fd := None)"

definition posix_laws :: "'os posix \<Rightarrow> bool" where
  "posix_laws P \<longleftrightarrow>
     (\<forall>os p mode fd os'. sys_open P os p mode = (fd, os') \<longrightarrow> open_post P os p mode fd os') \<and>
     (\<forall>os fd n r os'. sys_ftruncate P os fd n = (r, os') \<longrightarrow> ftruncate_post P os fd n r os') \<and>
     (\<forall>os fd r sz os'. sys_fstat P os fd = (r, sz, os') \<longrightarrow> fstat_post P os fd r sz os') \<and>
     (\<forall>os n fd r os'. sys_mmap P os n fd = (r, os') \<longrightarrow> mmap_post P os n fd r os') \<and>
     (\<forall>os d n r os'. sys_msync P os d n = (r, os') \<longrightarrow> msync_post P os d r os') \<and>
     (\<forall>os d n r os'. sys_munmap P os d n = (r, os') \<longrightarrow> munmap_post P os d r os') \<and>
     (\<forall>os fd r os'. sys_close P os fd = (r, os') \<longrightarrow> close_post P os fd os')"

section \<open>MmapFile\<close>

record MmapFileOptions =
  mo_flush_on_destroy :: bool

definition default_MmapFileOptions :: MmapFileOptions where
  "default_MmapFileOptions = \<lparr>mo_flush_on_destroy = True\<rparr>"

record MmapFile =
  mf_fd :: int
  mf_data :: "mapping_ref option"
  mf_size :: size_t
  mf_path :: path
  mf_options :: MmapFileOptions

definition mmap_default :: MmapFile where
  "mmap_default = \<lparr>mf_fd = - 1, mf_data = None, mf_size = 0, mf_path = [],
     mf_options = default_MmapFileOptions\<rparr>"

definition invalid_path_status :: Status where
  "invalid_path_status = mk_status Invalid_argument ''mmap file path must not be empty''"

definition invalid_size_status :: Status where
  "invalid_size_status = mk_status Invalid_argument ''mmap file size must be greater than zero''"

definition mmap_create ::
    "'os posix \<Rightarrow> 'os \<Rightarrow> path \<Rightarrow> size_t \<Rightarrow> MmapFileOptions \<Rightarrow> MmapFile Expected \<times> 'os" where
  "mmap_create P os path sz options =
     (if path = [] then (expected_error invalid_path_status, os)
      else if sz = 0 then (expected_error invalid_size_status, os)
      else let (fd, os) = sys_open P os path O_RDWR_CREAT_TRUNC in
        if fd = - 1 then (expected_error (mk_status Io_error ''failed to open mmap file''), os)
        else let (r, os) = sys_ftruncate P os fd (sint sz) in
          if r = - 1 then
            let (_, os) = sys_close P os fd
            in (expected_error (mk_status Io_error ''failed to resize mmap file''), os)
          else let (mapping, os) = sys_mmap P os sz fd in
            (case mapping of
               None \<Rightarrow>
                 let (_, os) = sys_close P os fd
                 in (expected_error (mk_status Io_error ''failed to map mmap file''), os)
             | Some d \<Rightarrow>
                 (Expected_value \<lparr>mf_fd = fd, mf_data = Some d, mf_size = sz, mf_path = path,
                    mf_options = options\<rparr>, os)))"

definition mmap_open_existing ::
    "'os posix \<Rightarrow> 'os \<Rightarrow> path \<Rightarrow> MmapFileOptions \<Rightarrow> MmapFile Expected \<times> 'os" where
  "mmap_open_existing P os path options =
     (if path = [] then (expected_error invalid_path_status, os)
      else let (fd, os) = sys_open P os path O_RDWR_only in
        if fd = - 1 then (expected_error (mk_status Io_error ''failed to open mmap file''), os)
        else let (r, st_size, os) = sys_fstat P os fd in
          if r = - 1 then
            let (_, os) = sys_close P os fd
            in (expected_error (mk_status Io_error ''failed to stat mmap file''), os)
          else if st_size \<le> 0 then
            let (_, os) = sys_close P os fd in (expected_error invalid_size_status, os)
          else let sz = word_of_int st_size; (mapping, os) = sys_mmap P os sz fd in
            (case mapping of
               None \<Rightarrow>
                 let (_, os) = sys_close P os fd
                 in (expected_error (mk_status Io_error ''failed to map mmap file''), os)
             | Some d \<Rightarrow>
                 (Expected_value \<lparr>mf_fd = fd, mf_data = Some d, mf_size = sz, mf_path = path,
                    mf_options = options\<rparr>, os)))"

definition mmap_valid :: "MmapFile \<Rightarrow> bool" where
  "mmap_valid f \<longleftrightarrow> mf_fd f \<noteq> - 1 \<and> mf_data f \<noteq> None \<and> mf_size f \<noteq> 0"

definition mmap_data :: "MmapFile \<Rightarrow> mapping_ref option" where
  "mmap_data f = (if mmap_valid f then mf_data f else None)"

definition mmap_bytes :: "MmapFile \<Rightarrow> byte list" where
  "mmap_bytes f =
     (if \<not> mmap_valid f then []
      else case mf_data f of None \<Rightarrow> [] | Some (a, bs) \<Rightarrow> take (unat (mf_size f)) bs)"

text \<open>A write through the span that \<open>bytes()\<close> returns.\<close>

definition mmap_set_bytes :: "MmapFile \<Rightarrow> byte list \<Rightarrow> MmapFile" where
  "mmap_set_bytes f bs = f\<lparr>mf_data := map_option (\<lambda>(a, _). (a, bs)) (mf_data f)\<rparr>"

definition mmap_flush :: "'os posix \<Rightarrow> 'os \<Rightarrow> MmapFile \<Rightarrow> Status \<times> 'os" where
  "mmap_flush P os f =
     (case mmap_data f of
        None \<Rightarrow> (mk_status Invalid_argument ''mmap file is not open'', os)
      | Some d \<Rightarrow>
          let (r, os) = sys_msync P os d (mf_size f) in
          if r = - 1 then (mk_status Io_error ''failed to flush mmap file'', os)
          else (status_ok, os))"

definition mmap_resize ::
    "'os posix \<Rightarrow> 'os \<Rightarrow> MmapFile \<Rightarrow> size_t \<Rightarrow> Status \<times> MmapFile \<times> 'os" where
  "mmap_resize P os f new_size =
     (if new_size = 0 then (invalid_size_status, f, os)
      else case mmap_data f of
        None \<Rightarrow> (mk_status Invalid_argument ''mmap file is not open'', f, os)
      | Some old_data \<Rightarrow>
          let (flush_status, os) = mmap_flush P os f in
          if \<not> is_ok flush_status then (flush_status, f, os)
          else
            let old_size = mf_size f;
                f = f\<lparr>mf_data := None, mf_size := 0\<rparr>;
                (r, os) = sys_munmap P os old_data old_size in
            if r = - 1 then (mk_status Io_error ''failed to unmap mmap file'', f, os)
            else let (r, os) = sys_ftruncate P os (mf_fd f) (sint new_size) in
              if r = - 1 then (mk_status Io_error ''failed to resize mmap file'', f, os)
              else let (mapping, os) = sys_mmap P os new_size (mf_fd f) in
                (case mapping of
                   None \<Rightarrow> (mk_status Io_error ''failed to map mmap file'', f, os)
                 | Some d \<Rightarrow> (status_ok, f\<lparr>mf_data := Some d, mf_size := new_size\<rparr>, os)))"

definition mmap_reset :: "MmapFile \<Rightarrow> MmapFile" where
  "mmap_reset f = f\<lparr>mf_fd := - 1, mf_data := None, mf_size := 0, mf_path := [],
     mf_options := default_MmapFileOptions\<rparr>"

definition mmap_close :: "'os posix \<Rightarrow> 'os \<Rightarrow> MmapFile \<Rightarrow> Status \<times> MmapFile \<times> 'os" where
  "mmap_close P os f =
     (let first_error = status_ok;
          (first_error, os) =
            (if mmap_valid f \<and> mo_flush_on_destroy (mf_options f) then
               let (flush_status, os) = mmap_flush P os f in
               (if \<not> is_ok flush_status then flush_status else first_error, os)
             else (first_error, os));
          (first_error, os) =
            (case mf_data f of
               None \<Rightarrow> (first_error, os)
             | Some d \<Rightarrow>
                 if mf_size f \<noteq> 0 then
                   let (r, os) = sys_munmap P os d (mf_size f) in
                   (if r = - 1 \<and> is_ok first_error
                    then mk_status Io_error ''failed to unmap mmap file'' else first_error, os)
                 else (first_error, os));
          (first_error, os) =
            (if mf_fd f \<noteq> - 1 then
               let (r, os) = sys_close P os (mf_fd f) in
               (if r = - 1 \<and> is_ok first_error
                then mk_status Io_error ''failed to close mmap file'' else first_error, os)
             else (first_error, os))
      in (first_error, mmap_reset f, os))"

text \<open>The destructor: \<open>static_cast<void>(close())\<close>.\<close>

definition mmap_destroy :: "'os posix \<Rightarrow> 'os \<Rightarrow> MmapFile \<Rightarrow> 'os" where
  "mmap_destroy P os f = (let (_, _, os) = mmap_close P os f in os)"

text \<open>
  The move constructor: the new object takes the descriptor and the mapping; the pair is the new
  object and what is left of \<open>other\<close> (its moved-from path is left empty).
\<close>

definition mmap_move :: "MmapFile \<Rightarrow> MmapFile \<times> MmapFile" where
  "mmap_move other = (other, other\<lparr>mf_fd := - 1, mf_data := None, mf_size := 0, mf_path := []\<rparr>)"

definition mmap_move_assign ::
    "'os posix \<Rightarrow> 'os \<Rightarrow> MmapFile \<Rightarrow> MmapFile \<Rightarrow> MmapFile \<times> MmapFile \<times> 'os" where
  "mmap_move_assign P os self other =
     (let (_, _, os) = mmap_close P os self; (self, other) = mmap_move other in (self, other, os))"

section \<open>Invariant\<close>

definition mmap_inv :: "MmapFile \<Rightarrow> bool" where
  "mmap_inv f \<longleftrightarrow>
     (case mf_data f of
        None \<Rightarrow> mf_size f = 0
      | Some (a, bs) \<Rightarrow> mf_fd f \<noteq> - 1 \<and> mf_size f \<noteq> 0 \<and> length bs = unat (mf_size f))"

lemma mmap_bytes_valid:
  "mmap_inv f \<Longrightarrow> mmap_valid f \<Longrightarrow> mf_data f = Some (a, bs) \<Longrightarrow> mmap_bytes f = bs"
  by (auto simp: mmap_bytes_def mmap_inv_def)

lemma length_mmap_bytes:
  "mmap_inv f \<Longrightarrow> mmap_valid f \<Longrightarrow> length (mmap_bytes f) = unat (mf_size f)"
  by (auto simp: mmap_bytes_def mmap_inv_def mmap_valid_def split: option.splits)

lemma mmap_set_bytes_simps [simp]:
  "mf_fd (mmap_set_bytes f bs) = mf_fd f" "mf_size (mmap_set_bytes f bs) = mf_size f"
  "mmap_valid (mmap_set_bytes f bs) = mmap_valid f"
  "mf_path (mmap_set_bytes f bs) = mf_path f" "mf_options (mmap_set_bytes f bs) = mf_options f"
  by (auto simp: mmap_set_bytes_def mmap_valid_def)

lemma mmap_bytes_set_bytes:
  "mmap_valid f \<Longrightarrow> length bs = unat (mf_size f) \<Longrightarrow> mmap_bytes (mmap_set_bytes f bs) = bs"
  by (auto simp: mmap_bytes_def mmap_set_bytes_def mmap_valid_def split: option.splits)

lemma mmap_inv_set_bytes:
  "mmap_inv f \<Longrightarrow> mmap_valid f \<Longrightarrow> length bs = unat (mf_size f) \<Longrightarrow>
     mmap_inv (mmap_set_bytes f bs)"
  by (auto simp: mmap_inv_def mmap_set_bytes_def split: option.splits)

lemma mmap_inv_default: "mmap_inv mmap_default" "\<not> mmap_valid mmap_default"
  by (simp_all add: mmap_inv_def mmap_valid_def mmap_default_def)

lemma mmap_flush_ok_or_io_error:
  assumes "mmap_flush P os f = (st, os')" "mmap_valid f"
  shows "st = status_ok \<or> st_code st = Io_error"
  using assms by (auto simp: mmap_flush_def mmap_data_def mmap_valid_def Let_def
      split: prod.splits option.splits if_splits)

section \<open>The operations under the system's laws\<close>

lemma sint_nonneg_unat:
  fixes w :: size_t
  assumes "0 \<le> sint w"
  shows "nat (sint w) = unat w"
proof -
  have s: "sint w = signed_take_bit 63 (uint w)" by (simp add: sint_uint)
  then have nb: "\<not> bit (uint w) 63" using assms by (simp add: signed_take_bit_nonnegative_iff)
  have "take_bit (Suc 63) (uint w) = take_bit 63 (uint w)"
    using nb by (simp only: take_bit_Suc_from_most) simp
  moreover have "take_bit (Suc 63) (uint w) = uint w"
    using uint_lt2p [of w] by (simp add: take_bit_int_eq_self_iff)
  ultimately have "sint w = uint w"
    using s nb by (simp add: signed_take_bit_eq_if_positive)
  then show ?thesis by simp
qed

lemma posix_lawsD:
  assumes "posix_laws P"
  shows "sys_open P os p mode = (fd, os') \<Longrightarrow> open_post P os p mode fd os'"
    and "sys_ftruncate P os fd n = (r, os') \<Longrightarrow> ftruncate_post P os fd n r os'"
    and "sys_fstat P os fd = (r, sz, os') \<Longrightarrow> fstat_post P os fd r sz os'"
    and "sys_mmap P os sz' fd = (m, os') \<Longrightarrow> mmap_post P os sz' fd m os'"
    and "sys_msync P os d sz' = (r, os') \<Longrightarrow> msync_post P os d r os'"
    and "sys_munmap P os d sz' = (r, os') \<Longrightarrow> munmap_post P os d r os'"
    and "sys_close P os fd = (r, os') \<Longrightarrow> close_post P os fd os'"
  using assms by (cases d; simp add: posix_laws_def)+

lemmas posix_post_defs = open_post_def ftruncate_post_def fstat_post_def mmap_post_def
  msync_post_def munmap_post_def close_post_def

lemma fd_release: "m fd = None \<Longrightarrow> m(fd := None) = m"
  by (auto simp: fun_eq_iff)

text \<open>What a successful \<open>create\<close> or \<open>open_existing\<close> hands out: a well-formed owner of a new
  descriptor and a new mapping of the file at \<open>path\<close>, whose bytes are given.\<close>

definition acquired :: "'os posix \<Rightarrow> 'os \<Rightarrow> path \<Rightarrow> MmapFile \<Rightarrow> 'os \<Rightarrow> bool" where
  "acquired P os path f os' \<longleftrightarrow> mmap_inv f \<and> mmap_valid f \<and> mf_path f = path \<and>
     os_fds P os (mf_fd f) = None \<and> os_fds P os' = (os_fds P os)(mf_fd f \<mapsto> path) \<and>
     (\<exists>a. mf_data f = Some (a, mmap_bytes f) \<and> os_maps P os a = None \<and>
        os_maps P os' = (os_maps P os)(a \<mapsto> path))"

lemma mmap_create_result:
  assumes laws: "posix_laws P" and "mmap_create P os path sz opts = (e, os')"
  shows "case e of
      Expected_status s \<Rightarrow> os_fds P os' = os_fds P os \<and> os_maps P os' = os_maps P os
    | Expected_value f \<Rightarrow> acquired P os path f os' \<and> mf_size f = sz \<and> mf_options f = opts \<and>
        mmap_bytes f = replicate (unat sz) 0"
proof (cases "path = [] \<or> sz = 0")
  case True
  then show ?thesis using assms(2) by (auto simp: mmap_create_def expected_error_def split: if_splits)
next
  case False
  then have ne: "path \<noteq> []" "sz \<noteq> 0" by auto
  obtain fd os1 where 1: "sys_open P os path O_RDWR_CREAT_TRUNC = (fd, os1)" by fastforce
  note p1 = posix_lawsD(1) [OF laws 1, unfolded open_post_def]
  show ?thesis
  proof (cases "fd = - 1")
    case True
    then show ?thesis using assms(2) ne 1 p1 by (auto simp: mmap_create_def expected_error_def)
  next
    case fd: False
    obtain r os2 where 2: "sys_ftruncate P os1 fd (sint sz) = (r, os2)" by fastforce
    note p2 = posix_lawsD(2) [OF laws 2, unfolded ftruncate_post_def]
    obtain m os3 where 3: "sys_mmap P os2 sz fd = (m, os3)" by fastforce
    note p3 = posix_lawsD(4) [OF laws 3, unfolded mmap_post_def]
    obtain r2 os4 where 4: "sys_close P os2 fd = (r2, os4)" by fastforce
    note p4 = posix_lawsD(7) [OF laws 4, unfolded close_post_def]
    obtain r3 os5 where 5: "sys_close P os3 fd = (r3, os5)" by fastforce
    note p5 = posix_lawsD(7) [OF laws 5, unfolded close_post_def]
    consider "r = - 1" | "r \<noteq> - 1" "m = None" | a bs where "r \<noteq> - 1" "m = Some (a, bs)"
      by (cases m) auto
    then show ?thesis
    proof cases
      case 1
      have "os' = os4" "\<exists>s. e = Expected_status s"
        using assms(2) ne \<open>sys_open P os path O_RDWR_CREAT_TRUNC = (fd, os1)\<close> 1 2 4 fd
        by (auto simp: mmap_create_def expected_error_def)
      then show ?thesis using fd p1 p2 p4 by (auto simp: fd_release)
    next
      case 2
      have "os' = os5" "\<exists>s. e = Expected_status s"
        using assms(2) ne 1 2 \<open>sys_ftruncate P os1 fd (sint sz) = (r, os2)\<close> 3 5 fd
        by (auto simp: mmap_create_def expected_error_def)
      then show ?thesis using fd p1 p2 p3 p5 2(2) by (auto simp: fd_release)
    next
      case 3
      have e: "os' = os3" "e = Expected_value \<lparr>mf_fd = fd, mf_data = Some (a, bs), mf_size = sz,
          mf_path = path, mf_options = opts\<rparr>"
        using assms(2) ne 1 2 \<open>sys_mmap P os2 sz fd = (m, os3)\<close> 3 fd
        by (auto simp: mmap_create_def)
      have "nat (sint sz) = unat sz" using p2 3(1) by (intro sint_nonneg_unat) simp
      then have "os_files P os2 path = Some (replicate (unat sz) 0)"
        using p1 p2 fd 3(1) by auto
      then have bs: "bs = replicate (unat sz) 0" using p1 p2 p3 3(2) fd by auto
      then have "mmap_bytes \<lparr>mf_fd = fd, mf_data = Some (a, bs), mf_size = sz, mf_path = path,
          mf_options = opts\<rparr> = bs"
        using fd ne by (simp add: mmap_bytes_def mmap_valid_def)
      then show ?thesis using ne fd p1 p2 p3 3(2) bs
        by (simp add: e acquired_def mmap_inv_def mmap_valid_def)
    qed
  qed
qed

lemma mmap_open_existing_result:
  assumes laws: "posix_laws P" and res: "mmap_open_existing P os path opts = (e, os')"
  shows "case e of
      Expected_status s \<Rightarrow> os_fds P os' = os_fds P os \<and> os_maps P os' = os_maps P os
    | Expected_value f \<Rightarrow> acquired P os path f os' \<and> mf_options f = opts \<and>
        os_files P os path = Some (mmap_bytes f)"
proof (cases "path = []")
  case True
  then show ?thesis using res by (auto simp: mmap_open_existing_def expected_error_def)
next
  case ne: False
  obtain fd os1 where op: "sys_open P os path O_RDWR_only = (fd, os1)" by fastforce
  note p1 = posix_lawsD(1) [OF laws op, unfolded open_post_def]
  show ?thesis
  proof (cases "fd = - 1")
    case True
    then show ?thesis using res ne op p1 by (auto simp: mmap_open_existing_def expected_error_def)
  next
    case fd: False
    obtain r st os2 where stt: "sys_fstat P os1 fd = (r, st, os2)" by (metis prod.exhaust)
    note p2 = posix_lawsD(3) [OF laws stt, unfolded fstat_post_def]
    obtain m os3 where mm: "sys_mmap P os2 (word_of_int st) fd = (m, os3)" by fastforce
    note p3 = posix_lawsD(4) [OF laws mm, unfolded mmap_post_def]
    obtain r2 os4 where cl: "sys_close P os2 fd = (r2, os4)" by fastforce
    note p4 = posix_lawsD(7) [OF laws cl, unfolded close_post_def]
    obtain r3 os5 where cl3: "sys_close P os3 fd = (r3, os5)" by fastforce
    note p5 = posix_lawsD(7) [OF laws cl3, unfolded close_post_def]
    consider "r = - 1 \<or> st \<le> 0" | "r \<noteq> - 1" "0 < st" "m = None"
      | a bs where "r \<noteq> - 1" "0 < st" "m = Some (a, bs)"
      by (cases m) force+
    then show ?thesis
    proof cases
      case 1
      have "os' = os4" "\<exists>s. e = Expected_status s"
        using res ne op stt cl fd 1
        by (auto simp: mmap_open_existing_def expected_error_def split: if_splits)
      then show ?thesis using fd p1 p2 p4 by (auto simp: fd_release)
    next
      case 2
      have "os' = os5" "\<exists>s. e = Expected_status s"
        using res ne op stt mm cl3 fd 2 by (auto simp: mmap_open_existing_def expected_error_def)
      then show ?thesis using fd p1 p2 p3 p5 2(3) by (auto simp: fd_release)
    next
      case 3
      let ?f = "\<lparr>mf_fd = fd, mf_data = Some (a, bs), mf_size = word_of_int st,
          mf_path = path, mf_options = opts\<rparr>"
      have e: "os' = os3" "e = Expected_value ?f"
        using res ne op stt mm fd 3 by (auto simp: mmap_open_existing_def)
      obtain c where c: "os_files P os path = Some c" "os_files P os1 path = Some c"
        using p1 fd by auto
      then have st: "st = int (length c)" "length c < 2 ^ 63" using p1 p2 fd 3(1) by auto
      then have sz: "unat (word_of_int st :: size_t) = length c"
        by (simp add: unsigned_of_nat take_bit_nat_eq_self)
      then have bs: "bs = c" using p1 p2 p3 fd 3(3) c(2) by auto
      have "c \<noteq> []" using 3(2) st by auto
      then have nz: "(word_of_int st :: size_t) \<noteq> 0" using sz by (metis length_0_conv unsigned_0)
      then have "mmap_bytes ?f = bs" using fd sz bs by (simp add: mmap_bytes_def mmap_valid_def)
      then show ?thesis using nz fd p1 p2 p3 3(3) bs sz c
        by (simp add: e acquired_def mmap_inv_def mmap_valid_def)
    qed
  qed
qed

lemma mmap_flush_post:
  assumes "posix_laws P" "mmap_flush P os f = (st, os')"
  shows "os_fds P os' = os_fds P os \<and> os_maps P os' = os_maps P os"
proof (cases "mmap_data f")
  case None
  then show ?thesis using assms(2) by (simp add: mmap_flush_def)
next
  case (Some d)
  obtain r os1 where 1: "sys_msync P os d (mf_size f) = (r, os1)" by fastforce
  have "os' = os1" using assms(2) Some 1 by (auto simp: mmap_flush_def split: if_splits)
  then show ?thesis using posix_lawsD(5) [OF assms(1) 1] by (simp add: msync_post_def)
qed

text \<open>\<open>close\<close> gives the descriptor back whatever fails; if it reports success, the mapping is gone too
  and its bytes are the file's contents.\<close>

lemma mmap_close_result:
  assumes laws: "posix_laws P" and inv: "mmap_inv f" and v: "mmap_valid f"
    and data: "mf_data f = Some (a, bs)" and map: "os_maps P os a = Some path"
    and res: "mmap_close P os f = (st, f', os')"
  shows "f' = mmap_default \<and> os_fds P os' = (os_fds P os)(mf_fd f := None) \<and>
    (is_ok st \<longrightarrow> os_maps P os' = (os_maps P os)(a := None) \<and> os_files P os' path = Some bs)"
proof -
  have sz: "mf_size f \<noteq> 0" and fd: "mf_fd f \<noteq> - 1" using v by (auto simp: mmap_valid_def)
  obtain st1 os1 where fl: "(if mmap_valid f \<and> mo_flush_on_destroy (mf_options f) then
        let (flush_status, os) = mmap_flush P os f in
        (if \<not> is_ok flush_status then flush_status else status_ok, os)
      else (status_ok, os)) = (st1, os1)" by fastforce
  have keep: "os_fds P os1 = os_fds P os" "os_maps P os1 = os_maps P os"
    using fl mmap_flush_post [OF laws] by (auto split: if_splits prod.splits)
  obtain r2 os2 where un: "sys_munmap P os1 (a, bs) (mf_size f) = (r2, os2)" by fastforce
  note p2 = posix_lawsD(6) [OF laws un, unfolded munmap_post_def]
  obtain r3 os3 where cl: "sys_close P os2 (mf_fd f) = (r3, os3)" by fastforce
  note p3 = posix_lawsD(7) [OF laws cl, unfolded close_post_def]
  have "f' = mmap_reset f" "os' = os3" and st: "is_ok st \<longrightarrow> r2 \<noteq> - 1"
    using res fl data sz fd un cl unfolding mmap_close_def Let_def
    by (auto split: if_splits)
  then show ?thesis
    using keep map p2 p3
    by (auto simp: mmap_reset_def mmap_default_def)
qed

lemma mmap_resize_result:
  assumes laws: "posix_laws P" and inv: "mmap_inv f"
    and res: "mmap_resize P os f n = (st, f', os')"
  shows "mmap_inv f' \<and> mf_fd f' = mf_fd f \<and> os_fds P os' = os_fds P os \<and>
    (is_ok st \<longrightarrow> mmap_valid f' \<and> mf_size f' = n)"
proof (cases "n = 0 \<or> mmap_data f = None")
  case True
  then show ?thesis using res inv
    by (auto simp: mmap_resize_def invalid_size_status_def split: if_splits)
next
  case False
  then obtain d where n: "n \<noteq> 0" and d: "mmap_data f = Some d" by auto
  then have fd: "mf_fd f \<noteq> - 1" by (auto simp: mmap_data_def mmap_valid_def split: if_splits)
  obtain st1 os1 where fl: "mmap_flush P os f = (st1, os1)" by fastforce
  obtain r2 os2 where un: "sys_munmap P os1 d (mf_size f) = (r2, os2)" by fastforce
  obtain r3 os3 where ft: "sys_ftruncate P os2 (mf_fd f) (sint n) = (r3, os3)" by fastforce
  obtain m os4 where mm: "sys_mmap P os3 n (mf_fd f) = (m, os4)" by fastforce
  note posts = mmap_flush_post [OF laws fl] posix_lawsD(6) [OF laws un, unfolded munmap_post_def]
    posix_lawsD(2) [OF laws ft, unfolded ftruncate_post_def]
    posix_lawsD(4) [OF laws mm, unfolded mmap_post_def]
  have fds: "os_fds P os4 = os_fds P os" "os_fds P os3 = os_fds P os" "os_fds P os2 = os_fds P os"
      "os_fds P os1 = os_fds P os"
    using posts by auto
  have len: "m = Some (a, bs) \<Longrightarrow> length bs = unat n" for a bs using posts by auto
  show ?thesis
    using res inv n d fl un ft mm fds len fd
    unfolding mmap_resize_def Let_def
    by (auto simp: mmap_inv_def mmap_valid_def split: if_splits option.splits)
qed

section \<open>A file system held in memory\<close>

text \<open>An instance of the interface that satisfies the laws: files, descriptors and mappings are finite
  maps. It shows that the laws are consistent, and evaluates the witnesses.\<close>

record memfs =
  fs_files :: "path \<rightharpoonup> byte list"
  fs_fds :: "int \<rightharpoonup> path"
  fs_maps :: "nat \<rightharpoonup> path"
  fs_next :: nat

definition memfs_empty :: memfs where
  "memfs_empty = \<lparr>fs_files = Map.empty, fs_fds = Map.empty, fs_maps = Map.empty, fs_next = 3\<rparr>"

definition memfs_open :: "memfs \<Rightarrow> path \<Rightarrow> open_mode \<Rightarrow> int \<times> memfs" where
  "memfs_open os p mode =
     (let fd = int (fs_next os);
          os' = os\<lparr>fs_fds := (fs_fds os)(fd \<mapsto> p), fs_next := Suc (fs_next os)\<rparr> in
      if fs_fds os fd \<noteq> None then (- 1, os)
      else case mode of
        O_RDWR_CREAT_TRUNC \<Rightarrow> (fd, os'\<lparr>fs_files := (fs_files os)(p \<mapsto> [])\<rparr>)
      | O_RDWR_only \<Rightarrow> if fs_files os p = None then (- 1, os) else (fd, os'))"

definition memfs_ftruncate :: "memfs \<Rightarrow> int \<Rightarrow> int \<Rightarrow> int \<times> memfs" where
  "memfs_ftruncate os fd n =
     (case fs_fds os fd of
        None \<Rightarrow> (- 1, os)
      | Some p \<Rightarrow> (case fs_files os p of
          None \<Rightarrow> (- 1, os)
        | Some c \<Rightarrow> if n < 0 then (- 1, os)
            else (0, os\<lparr>fs_files := (fs_files os)(p \<mapsto>
                    take (nat n) c @ replicate (nat n - length c) 0)\<rparr>)))"

definition memfs_fstat :: "memfs \<Rightarrow> int \<Rightarrow> int \<times> int \<times> memfs" where
  "memfs_fstat os fd =
     (case fs_fds os fd of
        None \<Rightarrow> (- 1, 0, os)
      | Some p \<Rightarrow> (case fs_files os p of
          None \<Rightarrow> (- 1, 0, os)
        | Some c \<Rightarrow> if length c < 2 ^ 63 then (0, int (length c), os) else (- 1, 0, os)))"

definition memfs_mmap :: "memfs \<Rightarrow> size_t \<Rightarrow> int \<Rightarrow> mapping_ref option \<times> memfs" where
  "memfs_mmap os n fd =
     (case fs_fds os fd of
        None \<Rightarrow> (None, os)
      | Some p \<Rightarrow> (case fs_files os p of
          None \<Rightarrow> (None, os)
        | Some c \<Rightarrow> if fs_maps os (fs_next os) \<noteq> None \<or> length c \<noteq> unat n then (None, os)
            else (Some (fs_next os, c),
                  os\<lparr>fs_maps := (fs_maps os)(fs_next os \<mapsto> p), fs_next := Suc (fs_next os)\<rparr>)))"

definition memfs_sync :: "memfs \<Rightarrow> mapping_ref \<Rightarrow> memfs" where
  "memfs_sync os d =
     (case fs_maps os (fst d) of
        None \<Rightarrow> os | Some p \<Rightarrow> os\<lparr>fs_files := (fs_files os)(p \<mapsto> snd d)\<rparr>)"

definition memfs_msync :: "memfs \<Rightarrow> mapping_ref \<Rightarrow> size_t \<Rightarrow> int \<times> memfs" where
  "memfs_msync os d n = (0, memfs_sync os d)"

definition memfs_munmap :: "memfs \<Rightarrow> mapping_ref \<Rightarrow> size_t \<Rightarrow> int \<times> memfs" where
  "memfs_munmap os d n = (0, (memfs_sync os d)\<lparr>fs_maps := (fs_maps os)(fst d := None)\<rparr>)"

definition memfs_close :: "memfs \<Rightarrow> int \<Rightarrow> int \<times> memfs" where
  "memfs_close os fd = (0, os\<lparr>fs_fds := (fs_fds os)(fd := None)\<rparr>)"

definition memfs_posix :: "memfs posix" where
  "memfs_posix = \<lparr>sys_open = memfs_open, sys_ftruncate = memfs_ftruncate, sys_fstat = memfs_fstat,
     sys_mmap = memfs_mmap, sys_msync = memfs_msync, sys_munmap = memfs_munmap,
     sys_close = memfs_close, os_fds = fs_fds, os_maps = fs_maps, os_files = fs_files\<rparr>"

lemmas memfs_defs = memfs_posix_def memfs_open_def memfs_ftruncate_def memfs_fstat_def
  memfs_mmap_def memfs_msync_def memfs_munmap_def memfs_close_def memfs_sync_def

lemma memfs_laws: "posix_laws memfs_posix"
proof -
  have "open_post memfs_posix os p mode fd os'" if "memfs_open os p mode = (fd, os')"
    for os p mode fd os'
    using that by (cases mode)
      (auto simp: memfs_defs open_post_def Let_def split: if_splits option.splits)
  moreover have "ftruncate_post memfs_posix os fd n r os'" if "memfs_ftruncate os fd n = (r, os')"
    for os fd n r os'
    using that by (auto simp: memfs_defs ftruncate_post_def split: if_splits option.splits)
  moreover have "fstat_post memfs_posix os fd r sz os'" if "memfs_fstat os fd = (r, sz, os')"
    for os fd r sz os'
    using that by (auto simp: memfs_defs fstat_post_def split: if_splits option.splits)
  moreover have "mmap_post memfs_posix os n fd r os'" if "memfs_mmap os n fd = (r, os')"
    for os n fd r os'
    using that by (auto simp: memfs_defs mmap_post_def split: if_splits option.splits)
  moreover have "msync_post memfs_posix os d r os'" if "memfs_msync os d n = (r, os')"
    for os d n r os'
    using that by (auto simp: memfs_defs msync_post_def split: if_splits option.splits)
  moreover have "munmap_post memfs_posix os d r os'" if "memfs_munmap os d n = (r, os')"
    for os d n r os'
    using that by (auto simp: memfs_defs munmap_post_def split: if_splits option.splits)
  moreover have "close_post memfs_posix os fd os'" if "memfs_close os fd = (r, os')"
    for os fd r os'
    using that by (auto simp: memfs_defs close_post_def)
  ultimately show ?thesis by (auto simp: posix_laws_def memfs_posix_def)
qed

text \<open>A session on the file system in memory: the file at descriptor 3 and address 4, closed with the
  bytes \<open>bs\<close>, and opened again at descriptor 5 and address 6.\<close>

definition memfs_file :: "size_t \<Rightarrow> byte list \<Rightarrow> MmapFile" where
  "memfs_file sz bs = \<lparr>mf_fd = 3, mf_data = Some (4, bs), mf_size = sz, mf_path = ''w'',
     mf_options = default_MmapFileOptions\<rparr>"

definition memfs_opened :: "byte list \<Rightarrow> memfs" where
  "memfs_opened bs = \<lparr>fs_files = [''w'' \<mapsto> bs], fs_fds = [3 \<mapsto> ''w''], fs_maps = [4 \<mapsto> ''w''], fs_next = 5\<rparr>"

definition memfs_closed :: "byte list \<Rightarrow> memfs" where
  "memfs_closed bs = \<lparr>fs_files = [''w'' \<mapsto> bs], fs_fds = Map.empty, fs_maps = Map.empty, fs_next = 5\<rparr>"

lemma memfs_create:
  assumes "sz \<noteq> 0" "0 \<le> sint sz"
  shows "mmap_create memfs_posix memfs_empty ''w'' sz default_MmapFileOptions =
    (Expected_value (memfs_file sz (replicate (unat sz) 0)), memfs_opened (replicate (unat sz) 0))"
  using assms sint_nonneg_unat [of sz]
  by (simp add: mmap_create_def memfs_defs memfs_empty_def memfs_file_def memfs_opened_def Let_def)

lemma memfs_close_file:
  assumes "sz \<noteq> 0"
  shows "mmap_close memfs_posix (memfs_opened bs') (memfs_file sz bs) =
    (status_ok, mmap_default, memfs_closed bs)"
  using assms
  by (simp add: mmap_close_def mmap_flush_def mmap_data_def mmap_valid_def memfs_defs mmap_reset_def
      mmap_default_def default_MmapFileOptions_def memfs_file_def memfs_opened_def memfs_closed_def
      Let_def)

lemma memfs_reopen:
  assumes "bs \<noteq> []" "length bs < 2 ^ 63"
  shows "mmap_open_existing memfs_posix (memfs_closed bs) ''w'' opts =
    (Expected_value \<lparr>mf_fd = 5, mf_data = Some (6, bs), mf_size = of_nat (length bs), mf_path = ''w'',
       mf_options = opts\<rparr>,
     \<lparr>fs_files = [''w'' \<mapsto> bs], fs_fds = [5 \<mapsto> ''w''], fs_maps = [6 \<mapsto> ''w''], fs_next = 7\<rparr>)"
  using assms
  by (simp add: mmap_open_existing_def memfs_defs memfs_closed_def Let_def unsigned_of_nat
      take_bit_nat_eq_self)

lemma memfs_set_bytes [simp]: "mmap_set_bytes (memfs_file sz bs') bs = memfs_file sz bs"
  by (simp add: mmap_set_bytes_def memfs_file_def)

section \<open>Properties\<close>

text \<open>
  C36. No leak on failure: whenever \<open>MmapFile::create\<close> or \<open>open_existing\<close> returns an error, on any
  of their early returns, the open descriptors and the mappings of the process are those before the
  call.
\<close>

theorem mmap_failure_leaks_nothing:
  assumes "posix_laws P"
  shows "(\<not> has_value (fst (mmap_create P os path sz opts)) \<longrightarrow>
        os_fds P (snd (mmap_create P os path sz opts)) = os_fds P os \<and>
        os_maps P (snd (mmap_create P os path sz opts)) = os_maps P os) \<and>
     (\<not> has_value (fst (mmap_open_existing P os path opts)) \<longrightarrow>
        os_fds P (snd (mmap_open_existing P os path opts)) = os_fds P os \<and>
        os_maps P (snd (mmap_open_existing P os path opts)) = os_maps P os)"
  using mmap_create_result [OF assms, of os path sz opts]
    mmap_open_existing_result [OF assms, of os path opts]
  by (cases "fst (mmap_create P os path sz opts)"; cases "fst (mmap_open_existing P os path opts)")
    (simp_all add: prod_eq_iff)

theorem mmap_failure_leaks_nothing_witness:
  "\<not> has_value (fst (mmap_open_existing memfs_posix memfs_empty ''w'' default_MmapFileOptions)) \<and>
   os_fds memfs_posix (snd (mmap_open_existing memfs_posix memfs_empty ''w'' default_MmapFileOptions))
     = os_fds memfs_posix memfs_empty"
proof -
  have "\<not> has_value (fst (mmap_open_existing memfs_posix memfs_empty ''w'' default_MmapFileOptions))"
    by (simp add: mmap_open_existing_def memfs_defs memfs_empty_def Let_def)
  then show ?thesis
    using mmap_failure_leaks_nothing [OF memfs_laws, of memfs_empty "''w''" 1 default_MmapFileOptions]
    by simp
qed

text \<open>
  A file that \<open>create\<close> returns is well formed: it is valid, its mapping has exactly the requested
  number of bytes, and all of them are zero.
\<close>

theorem mmap_create_zeroed:
  assumes "posix_laws P" and "mmap_create P os path sz opts = (Expected_value f, os')"
  shows "mmap_inv f \<and> mmap_valid f \<and> mf_size f = sz \<and> mf_path f = path \<and>
    mmap_bytes f = replicate (unat sz) 0"
  using mmap_create_result [OF assms] by (simp add: acquired_def)

theorem mmap_create_zeroed_witness: "mmap_bytes (memfs_file 2 (replicate 2 0)) = replicate 2 0"
  using mmap_create_zeroed [OF memfs_laws memfs_create [of 2]] by simp

text \<open>
  Round trip through the file system: bytes written to the mapping of a created file are the
  bytes a later \<open>open_existing\<close> maps, once \<open>close\<close> has reported success; and that \<open>close\<close> leaves
  the process with the descriptors and mappings it had before the file was created.
\<close>

theorem mmap_close_reopen:
  assumes "posix_laws P"
    and "mmap_create P os path sz opts = (Expected_value f, os1)"
    and "length bs = unat sz"
    and "mmap_close P os1 (mmap_set_bytes f bs) = (st, f', os2)" and "is_ok st"
    and "mmap_open_existing P os2 path opts' = (Expected_value g, os3)"
  shows "mmap_bytes g = bs \<and> os_fds P os2 = os_fds P os \<and> os_maps P os2 = os_maps P os"
proof -
  have acq: "acquired P os path f os1" and sz: "mf_size f = sz"
    using mmap_create_result [OF assms(1,2)] by auto
  then obtain a where a: "mf_data f = Some (a, mmap_bytes f)" "os_maps P os a = None"
      "os_maps P os1 = (os_maps P os)(a \<mapsto> path)" and v: "mmap_valid f" "mmap_inv f"
      and fds: "os_fds P os (mf_fd f) = None" "os_fds P os1 = (os_fds P os)(mf_fd f \<mapsto> path)"
    by (auto simp: acquired_def)
  have "mf_data (mmap_set_bytes f bs) = Some (a, bs)" using a by (simp add: mmap_set_bytes_def)
  then have "os_fds P os2 = (os_fds P os1)(mf_fd f := None) \<and>
      os_maps P os2 = (os_maps P os1)(a := None) \<and> os_files P os2 path = Some bs"
    using mmap_close_result [OF assms(1) _ _ _ _ assms(4), of a bs path] v a assms(3,5) sz
    by (simp add: mmap_inv_set_bytes)
  then show ?thesis
    using a fds mmap_open_existing_result [OF assms(1,6)] by (auto simp: fd_release)
qed

theorem mmap_close_reopen_witness:
  "mmap_bytes \<lparr>mf_fd = 5, mf_data = Some (6, [7, 9]), mf_size = 2, mf_path = ''w'',
     mf_options = default_MmapFileOptions\<rparr> = [7, 9]"
  using mmap_close_reopen [OF memfs_laws memfs_create [of 2], of "[7, 9]" status_ok mmap_default
      "memfs_closed [7, 9]"] memfs_close_file [of 2] memfs_reopen [of "[7, 9]"]
  by simp

text \<open>
  \<open>resize\<close> keeps the object well formed on every path: it never loses or replaces the
  descriptor, it leaves the data pointer null with size zero when a step after the unmapping fails,
  and it reports success only with a valid mapping of the new size.
\<close>

theorem mmap_resize_well_formed:
  assumes "posix_laws P" "mmap_inv f" "mmap_resize P os f n = (st, f', os')"
  shows "mmap_inv f' \<and> mf_fd f' = mf_fd f \<and> os_fds P os' = os_fds P os \<and>
    (is_ok st \<longrightarrow> mmap_valid f' \<and> mf_size f' = n \<and> length (mmap_bytes f') = unat n)"
  using mmap_resize_result [OF assms] length_mmap_bytes [of f'] by auto

theorem mmap_resize_well_formed_witness:
  "mmap_resize memfs_posix (memfs_opened [0, 0]) (memfs_file 2 [7, 9]) 4 =
     (status_ok, memfs_file 4 [7, 9, 0, 0]\<lparr>mf_data := Some (5, [7, 9, 0, 0])\<rparr>,
      \<lparr>fs_files = [''w'' \<mapsto> [7, 9, 0, 0]], fs_fds = [3 \<mapsto> ''w''], fs_maps = [5 \<mapsto> ''w''],
       fs_next = 6\<rparr>) \<and>
   mmap_inv (memfs_file 4 [7, 9, 0, 0]\<lparr>mf_data := Some (5, [7, 9, 0, 0])\<rparr>)"
  (is "?run = (status_ok, ?f', ?os') \<and> _")
proof -
  have "replicate 2 0 = [0, 0 :: byte]" by (simp add: numeral_2_eq_2)
  then have run: "?run = (status_ok, ?f', ?os')"
    by (simp add: mmap_resize_def mmap_flush_def mmap_data_def mmap_valid_def memfs_defs
        memfs_file_def memfs_opened_def Let_def)
  moreover have "mmap_inv (memfs_file 2 [7, 9])" by (simp add: mmap_inv_def memfs_file_def)
  ultimately show ?thesis using mmap_resize_well_formed [OF memfs_laws _ run] by simp
qed

end
