(* ===== verification/Wal_Reader.thy ===== *)
theory Wal_Reader
  imports Wal_Log Mmap_File
begin

text \<open>
  \<open>include/aether/wal/wal_reader.hpp\<close> and \<open>src/wal/wal_reader.cpp\<close>: the sequential decoder. Every
  sub-span of the mapping is taken with \<open>subspan\<close>, which is \<open>None\<close> outside it. A visitor passes a
  state from call to call and may itself be undefined.
\<close>

section \<open>Model\<close>

definition reader_fits_size_t :: "u64 \<Rightarrow> bool" where
  "reader_fits_size_t v \<longleftrightarrow> v \<le> ucast (- 1 :: size_t)"

record WalReader =
  wr_file :: MmapFile
  wr_current_offset :: u64
  wr_records_read :: u64

definition wal_reader_default :: WalReader where
  "wal_reader_default = \<lparr>wr_file = mmap_default, wr_current_offset = 0, wr_records_read = 0\<rparr>"

definition wal_reader_make :: "MmapFile \<Rightarrow> WalReader" where
  "wal_reader_make file = wal_reader_default\<lparr>wr_file := file\<rparr>"

definition wal_reader_open :: "'os posix \<Rightarrow> 'os \<Rightarrow> path \<Rightarrow> WalReader Expected \<times> 'os" where
  "wal_reader_open P os path =
     (let (file, os) = mmap_open_existing P os path \<lparr>mo_flush_on_destroy = False\<rparr> in
      case file of
        Expected_status s \<Rightarrow> (expected_error s, os)
      | Expected_value f \<Rightarrow> (Expected_value (wal_reader_make f), os))"

definition wal_reader_valid :: "WalReader \<Rightarrow> bool" where
  "wal_reader_valid r \<longleftrightarrow> mmap_valid (wr_file r)"

definition wal_reader_next :: "WalReader \<Rightarrow> (WalRecordView Expected \<times> WalReader) option" where
  "wal_reader_next r =
     (if \<not> wal_reader_valid r then
        Some (expected_error (mk_status Invalid_argument ''wal reader is not open''), r)
      else let file_size = mf_size (wr_file r); current_offset = wr_current_offset r in
      if current_offset \<ge> file_size then Some (expected_error (mk_status Empty []), r)
      else let remaining = file_size - current_offset; all_bytes = mmap_bytes (wr_file r) in
      if \<not> reader_fits_size_t current_offset \<or> \<not> reader_fits_size_t remaining then
        Some (expected_error
          (mk_status Invalid_argument ''wal offset too large for this platform''), r)
      else do {
        tail \<leftarrow> subspan all_bytes (unat current_offset) (unat remaining);
        if remaining < ucast wal_record_header_size then
          if is_zero_filled tail then Some (expected_error (mk_status Empty []), r)
          else Some (expected_error (mk_status Empty ''partial wal record''), r)
        else do {
          head \<leftarrow> subspan tail 0 (unat wal_record_header_size);
          case deserialize_header head of
            Expected_status s \<Rightarrow> Some (expected_error s, r)
          | Expected_value header \<Rightarrow>
              if rh_magic header = 0 \<and> is_zero_filled tail then
                Some (expected_error (mk_status Empty []), r)
              else let header_status = validate_header_shape header in
              if \<not> is_ok header_status then Some (expected_error header_status, r)
              else let total_size = record_total_size header in
              if total_size < ucast (rh_header_size header) \<or> total_size > remaining then
                Some (expected_error (mk_status Empty ''partial wal record''), r)
              else if \<not> reader_fits_size_t total_size then
                Some (expected_error
                  (mk_status Corrupted_record ''wal record too large for this platform''), r)
              else do {
                payload \<leftarrow> subspan tail (unat wal_record_header_size)
                  (unat (rh_payload_size header));
                if \<not> validate_record_checksum header payload then
                  Some (expected_error (mk_status Corrupted_record ''wal checksum mismatch''), r)
                else
                  Some (Expected_value \<lparr>rv_header = header, rv_payload = payload,
                          rv_offset = current_offset\<rparr>,
                        r\<lparr>wr_current_offset := current_offset + total_size,
                          wr_records_read := wr_records_read r + 1\<rparr>)
              }
        }
      })"

definition wal_reader_reset :: "WalReader \<Rightarrow> Status \<times> WalReader" where
  "wal_reader_reset r =
     (if \<not> wal_reader_valid r then (mk_status Invalid_argument ''wal reader is not open'', r)
      else (status_ok, r\<lparr>wr_current_offset := 0, wr_records_read := 0\<rparr>))"

section \<open>One step of the reader\<close>

lemma reader_fits_size_t [simp]: "reader_fits_size_t v"
  by (simp add: reader_fits_size_t_def)

text \<open>What is left to read.\<close>

definition reader_rest :: "WalReader \<Rightarrow> byte list" where
  "reader_rest r = drop (unat (wr_current_offset r)) (mmap_bytes (wr_file r))"

definition reader_inv :: "WalReader \<Rightarrow> bool" where
  "reader_inv r \<longleftrightarrow> mmap_inv (wr_file r) \<and> mmap_valid (wr_file r)"

text \<open>The decision \<open>next\<close> takes on the bytes that are left: a header and payload, or a status.\<close>

definition decode_rest :: "byte list \<Rightarrow> Status + wal_entry" where
  "decode_rest tail =
     (if tail = [] then Inl (mk_status Empty [])
      else if length tail < 40 then
        Inl (mk_status Empty (if is_zero_filled tail then [] else ''partial wal record''))
      else case deserialize_header (take 40 tail) of
        Expected_status s \<Rightarrow> Inl s
      | Expected_value h \<Rightarrow>
          if rh_magic h = 0 \<and> is_zero_filled tail then Inl (mk_status Empty [])
          else if \<not> is_ok (validate_header_shape h) then Inl (validate_header_shape h)
          else if 40 + unat (rh_payload_size h) > length tail then
            Inl (mk_status Empty ''partial wal record'')
          else let p = take (unat (rh_payload_size h)) (drop 40 tail) in
            if \<not> validate_record_checksum h p then
              Inl (mk_status Corrupted_record ''wal checksum mismatch'')
            else Inr (h, p))"

definition reader_advance :: "nat \<Rightarrow> WalReader \<Rightarrow> WalReader" where
  "reader_advance n r = r\<lparr>wr_current_offset := wr_current_offset r + of_nat n,
     wr_records_read := wr_records_read r + 1\<rparr>"

lemma length_reader_rest:
  assumes "reader_inv r"
  shows "length (reader_rest r) = unat (mf_size (wr_file r)) - unat (wr_current_offset r)"
  using assms by (simp add: reader_rest_def reader_inv_def length_mmap_bytes)

lemma deserialize_header_40: "40 \<le> length bs \<Longrightarrow> \<exists>h. deserialize_header (take 40 bs) = Expected_value h"
  by (simp add: deserialize_header_def)

text \<open>\<open>next\<close> is defined on every file, whatever its bytes, and depends only on the bytes left.\<close>

lemma wal_reader_next_eq:
  assumes inv: "reader_inv r"
  shows "wal_reader_next r = Some (case decode_rest (reader_rest r) of
      Inl s \<Rightarrow> (expected_error s, r)
    | Inr (h, p) \<Rightarrow> (Expected_value \<lparr>rv_header = h, rv_payload = p, rv_offset = wr_current_offset r\<rparr>,
        reader_advance (40 + length p) r))"
proof (cases "mf_size (wr_file r) \<le> wr_current_offset r")
  case True
  then have "reader_rest r = []"
    using length_reader_rest [OF inv] by (simp add: word_le_nat_alt)
  then show ?thesis
    using True inv by (simp add: wal_reader_next_def wal_reader_valid_def reader_inv_def decode_rest_def)
next
  case False
  let ?off = "wr_current_offset r" and ?sz = "mf_size (wr_file r)" and ?tail = "reader_rest r"
  have rem: "unat (?sz - ?off) = length ?tail" "?off < ?sz"
    using False length_reader_rest [OF inv] by (simp_all add: unat_sub)
  then have ne: "?tail \<noteq> []" using False length_reader_rest [OF inv] by (auto simp: word_less_nat_alt)
  have tail: "subspan (mmap_bytes (wr_file r)) (unat ?off) (unat (?sz - ?off)) = Some ?tail"
    using rem False inv length_mmap_bytes [of "wr_file r"]
    by (simp add: subspan_def reader_rest_def reader_inv_def word_le_nat_alt)
  have small: "?sz - ?off < ucast wal_record_header_size \<longleftrightarrow> length ?tail < 40"
    using rem by (simp add: word_less_nat_alt wal_record_header_size_def)
  have big: "record_total_size h > ?sz - ?off \<longleftrightarrow>
      unat (rh_header_size h) + unat (rh_payload_size h) > length ?tail" for h
    using rem by (simp add: word_less_nat_alt unat_record_total_size)
  have nowrap: "\<not> record_total_size h < ucast (rh_header_size h)" for h
    by (simp add: word_less_nat_alt unat_record_total_size unsigned_ucast_eq not_less trans_le_add1)
  have total: "rh_header_size h = wal_record_header_size \<Longrightarrow>
      record_total_size h = of_nat (40 + unat (rh_payload_size h))" for h
    by (simp add: record_total_size_def wal_record_header_size_def)
  show ?thesis
  proof (cases "length ?tail < 40")
    case True
    then show ?thesis using False inv ne tail small
      by (simp add: wal_reader_next_def wal_reader_valid_def reader_inv_def decode_rest_def Let_def)
  next
    case long: False
    then obtain h where h: "deserialize_header (take 40 ?tail) = Expected_value h"
      using deserialize_header_40 [of ?tail] by auto
    have head: "subspan ?tail 0 40 = Some (take 40 ?tail)" using long by (simp add: subspan_def)
    have run: "wal_reader_next r = (
        if rh_magic h = 0 \<and> is_zero_filled ?tail then Some (expected_error (mk_status Empty []), r)
        else if \<not> is_ok (validate_header_shape h) then Some (expected_error (validate_header_shape h), r)
        else if unat (rh_header_size h) + unat (rh_payload_size h) > length ?tail then
          Some (expected_error (mk_status Empty ''partial wal record''), r)
        else do {
          payload \<leftarrow> subspan ?tail 40 (unat (rh_payload_size h));
          if \<not> validate_record_checksum h payload then
            Some (expected_error (mk_status Corrupted_record ''wal checksum mismatch''), r)
          else Some (Expected_value \<lparr>rv_header = h, rv_payload = payload, rv_offset = ?off\<rparr>,
            r\<lparr>wr_current_offset := ?off + record_total_size h,
              wr_records_read := wr_records_read r + 1\<rparr>) })"
      using False inv long
      by (simp add: wal_reader_next_def wal_reader_valid_def reader_inv_def tail small h head big
          nowrap Let_def)
    show ?thesis
    proof (cases "is_ok (validate_header_shape h)")
      case True
      then have sz: "unat (rh_header_size h) = 40" "rh_header_size h = wal_record_header_size"
        by (simp_all add: status_simps)
      show ?thesis
        unfolding run decode_rest_def h using True ne long
        by (simp add: sz total Let_def span_simps reader_advance_def)
    next
      case False
      then show ?thesis unfolding run decode_rest_def h using ne long by simp
    qed
  qed
qed

section \<open>Replay\<close>

text \<open>Every record moves the reader forward inside the file, by at least the size of a header.\<close>

lemma wal_reader_next_advance:
  assumes "wal_reader_next r = Some (Expected_value v, r')"
  shows "wr_file r' = wr_file r \<and> unat (wr_current_offset r) + 40 \<le> unat (wr_current_offset r') \<and>
    unat (wr_current_offset r') \<le> unat (mf_size (wr_file r))"
proof -
  let ?off = "wr_current_offset r" and ?sz = "mf_size (wr_file r)"
  have guards: "wal_reader_valid r" "\<not> ?sz \<le> ?off" "\<not> ?sz - ?off < ucast wal_record_header_size"
    using assms unfolding wal_reader_next_def Let_def
    by (auto simp: bind_eq_Some_conv split: if_splits)
  then obtain tail head where spans: "subspan (mmap_bytes (wr_file r)) (unat ?off) (unat (?sz - ?off))
      = Some tail" "subspan tail 0 (unat wal_record_header_size) = Some head"
    using assms unfolding wal_reader_next_def Let_def by (auto simp: bind_eq_Some_conv)
  obtain h where de: "deserialize_header head = Expected_value h"
    using assms guards spans unfolding wal_reader_next_def Let_def
    by (cases "deserialize_header head") auto
  have h: "is_ok (validate_header_shape h)" "record_total_size h \<le> ?sz - ?off"
      "?off < ?sz" "wr_current_offset r' = ?off + record_total_size h" "wr_file r' = wr_file r"
    using assms guards spans de unfolding wal_reader_next_def Let_def
    by (auto simp: bind_eq_Some_conv not_le split: if_splits)
  have tot: "40 \<le> unat (record_total_size h)"
    using h(1) by (simp add: unat_record_total_size status_simps)
  have "unat (?off + record_total_size h) = unat ?off + unat (record_total_size h)"
    using h(2,3) unat_lt2p [of ?sz]
    by (simp add: unat_word_ariths word_le_nat_alt word_less_nat_alt unat_sub)
  then show ?thesis
    using h(2,3,4,5) tot by (simp add: word_le_nat_alt word_less_nat_alt unat_sub)
qed

function wal_reader_replay ::
    "('s \<Rightarrow> WalRecordView \<Rightarrow> (Status \<times> 's) option) \<Rightarrow> WalReader \<Rightarrow> 's \<Rightarrow>
     (Status \<times> WalReader \<times> 's) option" where
  "wal_reader_replay visitor r s =
     (case wal_reader_next r of
        None \<Rightarrow> None
      | Some (Expected_value v, r') \<Rightarrow>
          (case visitor s v of
             None \<Rightarrow> None
           | Some (status, s') \<Rightarrow>
               if \<not> is_ok status then Some (status, r', s')
               else wal_reader_replay visitor r' s')
      | Some (Expected_status st, r') \<Rightarrow>
          if st_code st = Empty then Some (status_ok, r', s) else Some (st, r', s))"
  by pat_completeness auto

termination
proof (relation "measure (\<lambda>(visitor, r, s). unat (mf_size (wr_file r)) - unat (wr_current_offset r))",
    goal_cases)
  case (2 visitor r s x e r' v y status s')
  then have "wal_reader_next r = Some (Expected_value v, r')" by simp
  from wal_reader_next_advance [OF this] show ?case by auto
qed simp

declare wal_reader_replay.simps [simp del]

text \<open>Replay in terms of the log: visit entries in order until the visitor refuses one.\<close>

fun visit_all ::
    "('s \<Rightarrow> WalRecordView \<Rightarrow> (Status \<times> 's) option) \<Rightarrow> WalRecordView list \<Rightarrow> 's \<Rightarrow>
     (Status \<times> nat \<times> 's) option" where
  "visit_all visitor [] s = Some (status_ok, 0, s)"
| "visit_all visitor (v # vs) s =
     (case visitor s v of
        None \<Rightarrow> None
      | Some (status, s') \<Rightarrow>
          if \<not> is_ok status then Some (status, 1, s')
          else map_option (\<lambda>(st, n, s''). (st, Suc n, s'')) (visit_all visitor vs s'))"

section \<open>Decoding\<close>

lemma decode_rest_image: "entry_ok e \<Longrightarrow> decode_rest (entry_image e @ rest) = Inr e"
proof -
  assume ok: "entry_ok e"
  have "deserialize_header (serialize_header (fst e)) = Expected_value (fst e)"
    using deserialize_serialize_header [of "fst e" "[]"] by simp
  moreover have "rh_magic (fst e) \<noteq> 0"
    using ok by (simp add: entry_ok_def status_simps wal_record_magic_def)
  ultimately show ?thesis
    using ok by (simp add: decode_rest_def entry_image_def entry_ok_def Let_def)
qed

lemma decode_rest_zero:
  assumes "is_zero_filled tail"
  shows "decode_rest tail = Inl (mk_status Empty [])"
proof (cases "length tail < 40")
  case True
  then show ?thesis using assms by (simp add: decode_rest_def)
next
  case False
  then have ne: "tail \<noteq> []" by auto
  have zero: "b = 0" if "b \<in> set tail" for b using assms that by (simp add: is_zero_filled_iff)
  have "take 4 (drop 0 (take 40 tail)) = le_bytes 4 (0 :: u32)"
    using False zero by (intro nth_equalityI) (auto simp: le_bytes_def)
  then have "read_u32_le (take 40 tail) 0 = 0" using False by (intro read_u32_le_eq) auto
  then show ?thesis
    using False ne assms by (simp add: decode_rest_def deserialize_header_def)
qed

text \<open>Whatever is decoded is in the file: its fields are the bytes at their offsets, the payload
  follows the header, and the record lies inside the bytes that were left.\<close>

lemma decode_rest_sound:
  assumes "decode_rest bs = Inr e"
  shows "entry_ok e \<and> length (entry_image e) \<le> length bs \<and>
    deserialize_header bs = Expected_value (fst e) \<and> snd e = take (length (snd e)) (drop 40 bs)"
proof -
  have long: "\<not> length bs < 40" "bs \<noteq> []"
    using assms by (auto simp: decode_rest_def split: if_splits)
  then obtain h where h: "deserialize_header (take 40 bs) = Expected_value h"
    using deserialize_header_40 [of bs] by auto
  have pre: "deserialize_header bs = Expected_value h"
    using long h deserialize_header_prefix [of bs] by simp
  show ?thesis
    using assms long h pre
    by (auto simp: decode_rest_def Let_def entry_ok_def min_def split: if_splits)
qed

lemma decode_rest_Inl_not_ok: "decode_rest bs = Inl s \<Longrightarrow> \<not> is_ok s"
  using deserialize_header_40 [of bs]
  by (auto simp: decode_rest_def Let_def not_less split: if_splits)

text \<open>The sequence of entries at the front of a byte string, and why decoding stopped.\<close>

function parse_log :: "byte list \<Rightarrow> wal_entry list \<times> Status" where
  "parse_log bs =
     (case decode_rest bs of
        Inl s \<Rightarrow> ([], s)
      | Inr e \<Rightarrow> (let (es, s) = parse_log (drop (length (entry_image e)) bs) in (e # es, s)))"
  by pat_completeness auto

termination
proof (relation "measure length", goal_cases)
  case (2 bs e)
  then show ?case using decode_rest_sound [of bs e] by auto
qed simp

declare parse_log.simps [simp del]

lemma parse_log_image:
  assumes "\<forall>e \<in> set es. entry_ok e"
  shows "parse_log (wal_image es @ tail) = (es @ fst (parse_log tail), snd (parse_log tail))"
  using assms
proof (induction es)
  case (Cons e es)
  then show ?case
    using decode_rest_image [of e "wal_image es @ tail"]
    by (simp add: parse_log.simps [of "entry_image e @ wal_image es @ tail"] Let_def split_beta)
qed simp

lemma parse_log_zero: "is_zero_filled tail \<Longrightarrow> parse_log tail = ([], mk_status Empty [])"
  by (simp add: parse_log.simps decode_rest_zero)

lemma parse_log_sound: "parse_log bs = (es, s) \<Longrightarrow> (\<forall>e \<in> set es. entry_ok e) \<and> \<not> is_ok s"
proof (induction bs arbitrary: es rule: parse_log.induct)
  case (1 bs)
  show ?case
  proof (cases "decode_rest bs")
    case (Inl t)
    then show ?thesis using 1(2) decode_rest_Inl_not_ok by (auto simp: parse_log.simps [of bs])
  next
    case (Inr e)
    then obtain es' where es: "parse_log (drop (length (entry_image e)) bs) = (es', s)" "es = e # es'"
      using 1(2) by (auto simp: parse_log.simps [of bs] Let_def split: prod.splits)
    then show ?thesis using 1(1) [OF Inr es(1)] decode_rest_sound [OF Inr] by simp
  qed
qed

section \<open>Replay visits the decoded entries\<close>

definition reader_at :: "WalReader \<Rightarrow> wal_entry list \<Rightarrow> WalReader" where
  "reader_at r es = r\<lparr>wr_current_offset := wr_current_offset r + of_nat (length (wal_image es)),
     wr_records_read := wr_records_read r + of_nat (length es)\<rparr>"

lemma reader_at_Nil [simp]: "reader_at r [] = r"
  by (simp add: reader_at_def)

lemma reader_at_Cons:
  "reader_at (reader_advance (40 + length (snd e)) r) es = reader_at r (e # es)"
  by (simp add: reader_at_def reader_advance_def add_ac)

lemma reader_advance_rest:
  assumes "reader_inv r" "n \<le> length (reader_rest r)"
  shows "reader_rest (reader_advance n r) = drop n (reader_rest r)"
    and "unat (wr_current_offset (reader_advance n r)) = unat (wr_current_offset r) + n \<or> n = 0"
proof -
  show off: "unat (wr_current_offset (reader_advance n r)) = unat (wr_current_offset r) + n \<or> n = 0"
    using assms length_reader_rest [OF assms(1)] unat_lt2p [of "mf_size (wr_file r)"]
    by (auto simp: reader_advance_def unat_word_ariths unsigned_of_nat take_bit_nat_eq_self)
  show "reader_rest (reader_advance n r) = drop n (reader_rest r)"
  proof (cases "n = 0")
    case True
    then show ?thesis by (simp add: reader_rest_def reader_advance_def)
  next
    case False
    then have "unat (wr_current_offset r + of_nat n) = unat (wr_current_offset r) + n"
      using off by (simp add: reader_advance_def)
    then show ?thesis by (simp add: reader_rest_def reader_advance_def add.commute)
  qed
qed

lemma reader_inv_advance [simp]: "reader_inv (reader_advance n r) = reader_inv r"
  by (simp add: reader_inv_def reader_advance_def)

definition replay_status :: "Status \<Rightarrow> Status \<Rightarrow> Status" where
  "replay_status visit_status stop_status =
     (if \<not> is_ok visit_status then visit_status
      else if st_code stop_status = Empty then status_ok else stop_status)"

lemma wal_reader_replay_eq:
  assumes "reader_inv r" "parse_log (reader_rest r) = (es, stop)"
  shows "wal_reader_replay visitor r s =
    map_option (\<lambda>(st, n, s'). (replay_status st stop, reader_at r (take n es), s'))
      (visit_all visitor (wal_views (unat (wr_current_offset r)) es) s)"
  using assms
proof (induction es arbitrary: r s)
  case Nil
  then obtain t where "decode_rest (reader_rest r) = Inl t" "t = stop"
    by (auto simp: parse_log.simps [of "reader_rest r"] Let_def split: sum.splits prod.splits)
  then show ?case
    using decode_rest_Inl_not_ok [of "reader_rest r"]
    by (simp add: wal_reader_replay.simps [of _ r] wal_reader_next_eq [OF Nil(1)] expected_error_def
        replay_status_def)
next
  case (Cons e es)
  obtain h p where e: "e = (h, p)" by fastforce
  have d: "decode_rest (reader_rest r) = Inr e"
    and tl: "parse_log (drop (length (entry_image e)) (reader_rest r)) = (es, stop)"
    using Cons.prems(2)
    by (auto simp: parse_log.simps [of "reader_rest r"] Let_def split: sum.splits prod.splits)
  let ?r = "reader_advance (40 + length p) r"
  have adv: "reader_rest ?r = drop (length (entry_image e)) (reader_rest r)"
      "unat (wr_current_offset ?r) = unat (wr_current_offset r) + (40 + length p)"
    using reader_advance_rest [OF Cons.prems(1), of "40 + length p"] decode_rest_sound [OF d] e
    by auto
  have IH: "wal_reader_replay visitor ?r s' =
    map_option (\<lambda>(st, n, s'). (replay_status st stop, reader_at ?r (take n es), s'))
      (visit_all visitor (wal_views (unat (wr_current_offset ?r)) es) s')" for s'
    using Cons.IH [of ?r s'] Cons.prems(1) tl adv(1) by simp
  have nx: "wal_reader_next r = Some (Expected_value
      \<lparr>rv_header = h, rv_payload = p, rv_offset = wr_current_offset r\<rparr>, ?r)"
    by (simp add: wal_reader_next_eq [OF Cons.prems(1)] d e)
  show ?case
    using IH adv(2) reader_at_Cons [of e r "[]"]
    by (auto simp: wal_reader_replay.simps [of visitor r] nx e replay_status_def option.map_comp
        comp_def split_beta reader_at_Cons [of "(h, p)", simplified]
        split: option.splits intro!: map_option_cong)
qed

section \<open>Properties\<close>

lemma visit_all_total:
  assumes "\<And>s v. \<exists>r. visitor s v = Some r"
  shows "\<exists>st n s'. visit_all visitor vs s = Some (st, n, s') \<and> n \<le> length vs"
proof (induction vs arbitrary: s)
  case (Cons v vs)
  obtain st s1 where "visitor s v = Some (st, s1)" using assms by (metis surj_pair)
  moreover obtain st' n s2 where "visit_all visitor vs s1 = Some (st', n, s2)" "n \<le> length vs"
    using Cons by blast
  ultimately show ?case by (cases "is_ok st") auto
qed simp

text \<open>A visitor that accepts every record and keeps the list of them.\<close>

definition collect :: "WalRecordView list \<Rightarrow> WalRecordView \<Rightarrow> (Status \<times> WalRecordView list) option" where
  "collect acc v = Some (status_ok, acc @ [v])"

lemma visit_all_collect: "visit_all collect vs acc = Some (status_ok, length vs, acc @ vs)"
  by (induction vs arbitrary: acc) (simp_all add: collect_def)

lemma parse_log_fits: "parse_log bs = (es, s) \<Longrightarrow> length (wal_image es) \<le> length bs"
proof (induction bs arbitrary: es rule: parse_log.induct)
  case (1 bs)
  show ?case
  proof (cases "decode_rest bs")
    case (Inl t)
    then show ?thesis using 1(2) by (auto simp: parse_log.simps [of bs])
  next
    case (Inr e)
    then obtain es' where es: "parse_log (drop (length (entry_image e)) bs) = (es', s)" "es = e # es'"
      using 1(2) by (auto simp: parse_log.simps [of bs] Let_def split: prod.splits)
    then show ?thesis using 1(1) [OF Inr es(1)] decode_rest_sound [OF Inr] by auto
  qed
qed

lemma reader_at_offset:
  assumes "reader_inv r" "length (wal_image es) \<le> length (reader_rest r)"
  shows "wr_current_offset (reader_at r es) \<le> max (wr_current_offset r) (mf_size (wr_file r))"
proof (cases "wal_image es = []")
  case True
  then show ?thesis by (simp add: reader_at_def)
next
  case False
  then have "unat (wr_current_offset r) + length (wal_image es) \<le> unat (mf_size (wr_file r))"
    using assms(2) length_reader_rest [OF assms(1)] by (cases "wal_image es") simp_all
  then have "unat (wr_current_offset (reader_at r es)) \<le> unat (mf_size (wr_file r))"
    using unat_lt2p [of "mf_size (wr_file r)"]
    by (simp add: reader_at_def unat_word_ariths unsigned_of_nat take_bit_nat_eq_self)
  then have "wr_current_offset (reader_at r es) \<le> mf_size (wr_file r)" by (simp add: word_le_nat_alt)
  then show ?thesis by (simp add: le_max_iff_disj)
qed

lemma length_wal_image_take: "length (wal_image (take n es)) \<le> length (wal_image es)"
proof -
  have "wal_image es = wal_image (take n es) @ wal_image (drop n es)"
    unfolding wal_image_def by (metis append_take_drop_id concat_append map_append)
  then show ?thesis by simp
qed

text \<open>
  C13. Replay always returns, and visits the right records. On a file with any contents at all and from
  any offset, \<open>replay\<close> with a visitor that returns is defined and returns. It hands to the visitor the
  views of the records that the reference decoder finds from the current offset, in order, until the
  visitor refuses one. It returns the refusal, or \<open>ok\<close> if the records end cleanly, or else the error at
  which decoding stops. The reader stops behind the last record visited, and unless it started past the
  end of the file, that is inside the file.
\<close>

theorem wal_replay_total:
  assumes "reader_inv r" "\<forall>s v. \<exists>res. visitor s v = Some res" "parse_log (reader_rest r) = (es, stop)"
  shows "\<exists>st n s'. visit_all visitor (wal_views (unat (wr_current_offset r)) es) s = Some (st, n, s') \<and> n \<le> length es \<and>
    wal_reader_replay visitor r s =
      Some (if \<not> is_ok st then st else if st_code stop = Empty then status_ok else stop, reader_at r (take n es), s') \<and>
    wr_current_offset (reader_at r (take n es)) \<le> max (wr_current_offset r) (mf_size (wr_file r))"
proof -
  obtain st n s' where v: "visit_all visitor (wal_views (unat (wr_current_offset r)) es) s = Some (st, n, s')" "n \<le> length es"
    using visit_all_total [of visitor "wal_views (unat (wr_current_offset r)) es" s] assms(2) by auto
  have "length (wal_image (take n es)) \<le> length (reader_rest r)"
    using length_wal_image_take [of n es] parse_log_fits [OF assms(3)] by linarith
  then show ?thesis
    using v reader_at_offset [OF assms(1)] wal_reader_replay_eq [OF assms(1,3), of visitor s]
    by (simp add: replay_status_def)
qed

text \<open>A reader at the start of a mapping with given bytes, for the witnesses.\<close>

definition reader_on :: "byte list \<Rightarrow> WalReader" where
  "reader_on bs = wal_reader_make \<lparr>mf_fd = 3, mf_data = Some (4, bs), mf_size = of_nat (length bs),
     mf_path = ''w'', mf_options = default_MmapFileOptions\<rparr>"

lemma reader_on:
  assumes "0 < length bs" "length bs < 2 ^ 64"
  shows "reader_inv (reader_on bs)" "reader_rest (reader_on bs) = bs"
    and "wr_current_offset (reader_on bs) = 0"
proof -
  have n: "unat (of_nat (length bs) :: size_t) = length bs"
    using assms by (simp add: unsigned_of_nat take_bit_nat_eq_self)
  then have "(of_nat (length bs) :: size_t) \<noteq> 0" using assms(1) by (metis less_irrefl unsigned_0)
  then show "reader_inv (reader_on bs)" "reader_rest (reader_on bs) = bs"
      "wr_current_offset (reader_on bs) = 0"
    using n by (simp_all add: reader_inv_def reader_on_def wal_reader_make_def wal_reader_default_def
        mmap_inv_def mmap_valid_def reader_rest_def mmap_bytes_def)
qed

text \<open>A file of 45 bytes that holds one entry and three unused bytes.\<close>

definition sample_reader :: WalReader where
  "sample_reader = reader_on (entry_image sample_entry @ [0, 0, 0])"

lemma sample_reader: "reader_inv sample_reader"
    "reader_rest sample_reader = entry_image sample_entry @ [0, 0, 0]"
    "wr_current_offset sample_reader = 0"
  unfolding sample_reader_def by (rule reader_on; simp)+

theorem wal_replay_total_witness:
  "\<exists>st n s'. visit_all collect [\<lparr>rv_header = fst sample_entry, rv_payload = [7, 8], rv_offset = 0\<rparr>] [] = Some (st, n, s') \<and>
     wal_reader_replay collect sample_reader [] = Some (st, reader_at sample_reader (take n [sample_entry]), s')"
proof -
  have "parse_log (reader_rest sample_reader) = ([sample_entry], mk_status Empty [])"
    using parse_log_image [of "[sample_entry]" "[0, 0, 0]"] parse_log_zero [of "[0, 0, 0]"] sample_entry_ok
    by (simp add: sample_reader)
  from wal_replay_total [OF sample_reader(1) _ this, of collect "[]"] show ?thesis
    by (simp add: collect_def sample_reader(3))
qed

text \<open>
  Soundness of \<open>next\<close>: a record it returns is in the file. The whole record lies inside the
  mapping at the offset the view names, its header is the decoding of the bytes there and has a valid
  shape and checksum, its payload is the bytes after the header, and the reader moves past exactly
  that record.
\<close>

theorem wal_reader_next_sound:
  assumes "reader_inv r" "wal_reader_next r = Some (Expected_value v, r')"
  shows "entry_ok (rv_header v, rv_payload v) \<and> rv_offset v = wr_current_offset r \<and>
    unat (rv_offset v) + 40 + length (rv_payload v) \<le> length (mmap_bytes (wr_file r)) \<and>
    deserialize_header (drop (unat (rv_offset v)) (mmap_bytes (wr_file r))) = Expected_value (rv_header v) \<and>
    rv_payload v =
      take (length (rv_payload v)) (drop (unat (rv_offset v) + 40) (mmap_bytes (wr_file r))) \<and>
    r' = reader_at r [(rv_header v, rv_payload v)]"
proof -
  obtain h p where d: "decode_rest (reader_rest r) = Inr (h, p)"
    using assms(2) by (auto simp: wal_reader_next_eq [OF assms(1)] expected_error_def split: sum.splits)
  then have v: "v = \<lparr>rv_header = h, rv_payload = p, rv_offset = wr_current_offset r\<rparr>"
      "r' = reader_advance (40 + length p) r"
    using assms(2) by (auto simp: wal_reader_next_eq [OF assms(1)])
  have "40 + length p \<le> length (reader_rest r)" using decode_rest_sound [OF d] by simp
  then show ?thesis
    using decode_rest_sound [OF d] v reader_at_Cons [of "(h, p)" r "[]"]
    by (auto simp: reader_rest_def add.commute)
qed

theorem wal_reader_next_sound_witness:
  "wal_reader_next sample_reader = Some (Expected_value
     \<lparr>rv_header = fst sample_entry, rv_payload = [7, 8], rv_offset = 0\<rparr>, reader_advance 42 sample_reader) \<and>
   reader_advance 42 sample_reader = reader_at sample_reader [(fst sample_entry, [7, 8])]"
proof -
  have "decode_rest (reader_rest sample_reader) = Inr (fst sample_entry, [7, 8])"
    using decode_rest_image [OF sample_entry_ok, of "[0, 0, 0]"]
    by (simp add: sample_reader prod_eq_iff)
  then have n: "wal_reader_next sample_reader = Some (Expected_value
     \<lparr>rv_header = fst sample_entry, rv_payload = [7, 8], rv_offset = 0\<rparr>, reader_advance 42 sample_reader)"
    by (simp add: wal_reader_next_eq sample_reader)
  show ?thesis using n wal_reader_next_sound [OF sample_reader(1) n] by simp
qed

text \<open>
  Replay of a log: on a file that holds the image of well-formed entries followed by zero
  bytes, \<open>replay\<close> visits exactly those entries, in order, each once, with their offsets, and reports
  success; with a visitor that collects, the result is the list of the entries.
\<close>

theorem wal_replay_log:
  assumes "reader_inv r" "reader_rest r = wal_image es @ tail"
    and "\<forall>e \<in> set es. entry_ok e" "is_zero_filled tail"
  shows "wal_reader_replay collect r [] =
    Some (status_ok, reader_at r es, wal_views (unat (wr_current_offset r)) es)"
proof -
  have "parse_log (reader_rest r) = (es, mk_status Empty [])"
    using assms(2-4) by (simp add: parse_log_image parse_log_zero)
  from wal_reader_replay_eq [OF assms(1) this, of collect "[]"] show ?thesis
    by (simp add: visit_all_collect replay_status_def)
qed

theorem wal_replay_log_witness:
  "wal_reader_replay collect sample_reader [] =
     Some (status_ok, reader_at sample_reader [sample_entry],
       [\<lparr>rv_header = fst sample_entry, rv_payload = [7, 8], rv_offset = 0\<rparr>])"
  using wal_replay_log [OF sample_reader(1), of "[sample_entry]" "[0, 0, 0]"] sample_entry_ok
  by (simp add: sample_reader)

end
