(* ===== verification/Wal_Corruption.thy ===== *)
theory Wal_Corruption
  imports Wal_Reader
begin

text \<open>
  What the reader makes of damaged files: a changed run of at most four bytes inside a record, a
  record cut off by the end of the file, and a change of the reserved header bytes.
\<close>

section \<open>The checksummed bytes\<close>

lemma le_bytes_4_zero: "le_bytes 4 (0 :: u32) = [0, 0, 0, 0]"
  by (simp add: le_bytes_def upt_rec)

text \<open>The header bytes over which the checksum of a decoded record is taken: the reserved bytes
  and the checksum field are replaced by zeros.\<close>

lemma serialize_zeroed_header:
  assumes "deserialize_header bs = Expected_value h"
  shows "serialize_header (h\<lparr>rh_checksum := 0\<rparr>) =
    take 12 bs @ [0, 0, 0, 0] @ take 16 (drop 16 bs) @ [0, 0, 0, 0] @ take 4 (drop 36 bs)"
proof -
  have len: "40 \<le> length bs" using assms by (auto simp: deserialize_header_def split: if_splits)
  have "serialize_header (h\<lparr>rh_checksum := 0\<rparr>) =
     (((take 4 (drop 0 bs) @ take 2 (drop (0 + 4) bs)) @ take 2 (drop (0 + 6) bs)) @
        take 4 (drop (0 + 8) bs)) @ [0, 0, 0, 0] @
     (take 8 (drop 16 bs) @ take 8 (drop (16 + 8) bs)) @ [0, 0, 0, 0] @ take 4 (drop 36 bs)"
    using assms len
    by (auto simp: serialize_header_layout deserialize_header_def le_simps le_bytes_4_zero
        split: if_splits)
  also have "\<dots> = take 12 bs @ [0, 0, 0, 0] @ take 16 (drop 16 bs) @ [0, 0, 0, 0] @ take 4 (drop 36 bs)"
    using take_drop_join [of 4 0 bs 2] take_drop_join [of 6 0 bs 2] take_drop_join [of 8 0 bs 4]
      take_drop_join [of 8 16 bs 8] by simp
  finally show ?thesis .
qed

definition checked_bytes :: "byte list \<Rightarrow> nat \<Rightarrow> byte list" where
  "checked_bytes bs n =
     take 12 bs @ [0, 0, 0, 0] @ take 16 (drop 16 bs) @ [0, 0, 0, 0] @ take (4 + n) (drop 36 bs)"

lemma validate_record_checksum_bytes:
  assumes "deserialize_header bs = Expected_value h"
  shows "validate_record_checksum h (take n (drop 40 bs)) \<longleftrightarrow>
    rh_checksum h = crc32 (checked_bytes bs n)"
proof -
  have "take 4 (drop 36 bs) @ take n (drop 40 bs) = take (4 + n) (drop 36 bs)"
    using take_drop_join [of 4 36 bs n] by simp
  then show ?thesis
    by (simp add: validate_record_checksum_def compute_record_checksum_eq checked_bytes_def
        serialize_zeroed_header [OF assms])
qed

text \<open>The fields of a decoded header are functions of their bytes.\<close>

lemma deserialize_header_fields:
  assumes "deserialize_header bs = Expected_value h" "deserialize_header bs' = Expected_value h'"
  shows "take 8 bs = take 8 bs' \<Longrightarrow> rh_magic h = rh_magic h' \<and> rh_version h = rh_version h' \<and>
      rh_header_size h = rh_header_size h'"
    and "take 4 (drop 8 bs) = take 4 (drop 8 bs') \<Longrightarrow> rh_payload_size h = rh_payload_size h'"
    and "take 4 (drop 32 bs) = take 4 (drop 32 bs') \<longleftrightarrow> rh_checksum h = rh_checksum h'"
    and "is_ok (validate_header_shape h) \<Longrightarrow> is_ok (validate_header_shape h') \<Longrightarrow>
      take 8 bs = take 8 bs'"
proof -
  have len: "40 \<le> length bs" "40 \<le> length bs'"
    using assms by (auto simp: deserialize_header_def split: if_splits)
  have f: "le_bytes 4 (rh_magic h) = take 4 (drop 0 bs)" "le_bytes 4 (rh_magic h') = take 4 (drop 0 bs')"
    "le_bytes 2 (rh_version h) = take 2 (drop 4 bs)" "le_bytes 2 (rh_version h') = take 2 (drop 4 bs')"
    "le_bytes 2 (rh_header_size h) = take 2 (drop 6 bs)" "le_bytes 2 (rh_header_size h') = take 2 (drop 6 bs')"
    "le_bytes 4 (rh_payload_size h) = take 4 (drop 8 bs)" "le_bytes 4 (rh_payload_size h') = take 4 (drop 8 bs')"
    "le_bytes 4 (rh_checksum h) = take 4 (drop 32 bs)" "le_bytes 4 (rh_checksum h') = take 4 (drop 32 bs')"
    using assms len by (auto simp: deserialize_header_def le_simps split: if_splits)
  have inj4: "le_bytes 4 a = le_bytes 4 b \<Longrightarrow> a = b" for a b :: u32
    using read_u32_le_eq [of 0 "le_bytes 4 a" a] read_u32_le_eq [of 0 "le_bytes 4 a" b] by simp
  have inj2: "le_bytes 2 a = le_bytes 2 b \<Longrightarrow> a = b" for a b :: u16
    using read_u16_le_eq [of 0 "le_bytes 2 a" a] read_u16_le_eq [of 0 "le_bytes 2 a" b] by simp
  have split8: "take 8 xs = take 4 (drop 0 xs) @ take 2 (drop 4 xs) @ take 2 (drop 6 xs)" for xs :: "byte list"
    by (simp add: take_drop_join [of 6 0 xs 2, simplified, symmetric]
        take_drop_join [of 4 0 xs 2, simplified, symmetric])
  show "take 4 (drop 8 bs) = take 4 (drop 8 bs') \<Longrightarrow> rh_payload_size h = rh_payload_size h'"
    using f inj4 by metis
  show "take 4 (drop 32 bs) = take 4 (drop 32 bs') \<longleftrightarrow> rh_checksum h = rh_checksum h'"
    using f inj4 by metis
  show "is_ok (validate_header_shape h) \<Longrightarrow> is_ok (validate_header_shape h') \<Longrightarrow> take 8 bs = take 8 bs'"
    by (simp only: split8 f [symmetric]) (simp add: status_simps)
  assume "take 8 bs = take 8 bs'"
  then have "take 4 (drop 0 bs) = take 4 (drop 0 bs') \<and> take 2 (drop 4 bs) = take 2 (drop 4 bs') \<and>
      take 2 (drop 6 bs) = take 2 (drop 6 bs')"
    using len unfolding split8 [of bs] split8 [of bs'] by simp
  then show "rh_magic h = rh_magic h' \<and> rh_version h = rh_version h' \<and> rh_header_size h = rh_header_size h'"
    using f inj4 inj2 by metis
qed

section \<open>Damaged records\<close>

lemma decode_rest_bad_shape:
  assumes "deserialize_header bs = Expected_value h" "\<not> is_zero_filled bs"
    and "\<not> is_ok (validate_header_shape h)"
  shows "\<exists>d. decode_rest bs = Inl (mk_status Corrupted_record d)"
proof -
  have "40 \<le> length bs" using assms(1) by (auto simp: deserialize_header_def split: if_splits)
  then have "decode_rest bs = Inl (validate_header_shape h)"
    using assms deserialize_header_prefix [of bs] by (auto simp: decode_rest_def)
  moreover have "\<exists>d. validate_header_shape h = mk_status Corrupted_record d"
    using assms(3) by (auto simp: validate_header_shape_def)
  ultimately show ?thesis by simp
qed

lemma decode_rest_bad_checksum:
  assumes "deserialize_header bs = Expected_value h" "is_ok (validate_header_shape h)"
    and "40 + unat (rh_payload_size h) \<le> length bs"
    and "rh_checksum h \<noteq> crc32 (checked_bytes bs (unat (rh_payload_size h)))"
  shows "decode_rest bs = Inl (mk_status Corrupted_record ''wal checksum mismatch'')"
proof -
  have "bs \<noteq> []" using assms(3) by auto
  moreover have "rh_magic h \<noteq> 0" using assms(2) by (simp add: status_simps wal_record_magic_def)
  ultimately show ?thesis
    using assms deserialize_header_prefix [of bs] validate_record_checksum_bytes [OF assms(1)]
    by (simp add: decode_rest_def Let_def)
qed

text \<open>The original and the damaged bytes of a record: they differ in the run \<open>xs\<close>, \<open>ys\<close> only.\<close>

definition damaged :: "wal_entry \<Rightarrow> byte list \<Rightarrow> byte list \<Rightarrow> byte list \<Rightarrow> byte list \<Rightarrow> bool" where
  "damaged e pre xs ys post \<longleftrightarrow> entry_ok e \<and> entry_image e = pre @ xs @ post \<and>
     length xs = length ys \<and> length xs \<le> 4 \<and> xs \<noteq> ys"

lemma damaged_simps:
  assumes "damaged e pre xs ys post"
  shows "length pre + length ys + length post = 40 + length (snd e)" "length xs = length ys"
    and "pre @ xs @ post @ rest = serialize_header (fst e) @ snd e @ rest"
    and "deserialize_header (pre @ xs @ post @ rest) = Expected_value (fst e)"
proof -
  have i: "serialize_header (fst e) @ snd e = pre @ xs @ post" and l: "length xs = length ys"
    using assms by (simp_all add: damaged_def entry_image_def)
  show "length pre + length ys + length post = 40 + length (snd e)" "length xs = length ys"
    using arg_cong [OF i, of length] l by simp_all
  show r: "pre @ xs @ post @ rest = serialize_header (fst e) @ snd e @ rest"
    using arg_cong [OF i, of "\<lambda>bs. bs @ rest"] by simp
  show "deserialize_header (pre @ xs @ post @ rest) = Expected_value (fst e)"
    unfolding r by (rule deserialize_serialize_header)
qed

lemma checksum_original:
  assumes d: "damaged e pre xs ys post"
  shows "rh_checksum (fst e) = crc32 (checked_bytes (pre @ xs @ post @ rest) (length (snd e)))"
proof -
  have "take (length (snd e)) (drop 40 (pre @ xs @ post @ rest)) = snd e"
    unfolding damaged_simps(3) [OF d] by simp
  then show ?thesis
    using d validate_record_checksum_bytes [OF damaged_simps(4) [OF d, of rest], of "length (snd e)"]
    by (simp add: damaged_def entry_ok_def)
qed

text \<open>Damage behind the first 16 bytes leaves the shape and the size of the record as they were.\<close>

lemma damaged_after_16:
  assumes d: "damaged e pre xs ys post" and pre: "16 \<le> length pre"
    and h: "deserialize_header (pre @ ys @ post @ rest) = Expected_value h"
    and crc: "rh_checksum h \<noteq> crc32 (checked_bytes (pre @ ys @ post @ rest) (length (snd e)))"
  shows "\<exists>m. decode_rest (pre @ ys @ post @ rest) = Inl (mk_status Corrupted_record m)"
proof -
  have "is_ok (validate_header_shape h) \<and> unat (rh_payload_size h) = length (snd e)"
    using deserialize_header_fields(1,2) [OF h damaged_simps(4) [OF d, of rest]] pre d
    by (simp add: damaged_def entry_ok_def status_simps)
  then show ?thesis
    using decode_rest_bad_checksum [OF h] crc damaged_simps(1) [OF d] by auto
qed

lemma damaged_decoded:
  "damaged e pre xs ys post \<Longrightarrow> \<exists>h. deserialize_header (pre @ ys @ post @ rest) = Expected_value h"
  using damaged_simps(1) [of e pre xs ys post] by (simp add: deserialize_header_def)

text \<open>Damage that misses the checksum field: the checked bytes differ in the same run.\<close>

lemma damaged_outside_checksum:
  assumes d: "damaged e pre xs ys post" and pre: "16 \<le> length pre"
    and pos: "length pre + length xs \<le> 32 \<or> 36 \<le> length pre"
    and parts: "\<And>zs. length zs = length xs \<Longrightarrow>
      checked_bytes (pre @ zs @ post @ rest) (length (snd e)) = a @ zs @ b"
  shows "\<exists>m. decode_rest (pre @ ys @ post @ rest) = Inl (mk_status Corrupted_record m)"
proof -
  obtain h where h: "deserialize_header (pre @ ys @ post @ rest) = Expected_value h"
    using damaged_decoded [OF d] by blast
  have "take 4 (drop 32 (pre @ ys @ post @ rest)) = take 4 (drop 32 (pre @ xs @ post @ rest))"
    using pos damaged_simps(2) [OF d] by auto
  then have "rh_checksum h = rh_checksum (fst e)"
    using deserialize_header_fields(3) [OF h damaged_simps(4) [OF d, of rest]] by (simp only:)
  moreover have "crc32 (a @ xs @ b) \<noteq> crc32 (a @ ys @ b)"
    using d crc32_burst [of xs ys a b] by (auto simp: damaged_def)
  ultimately have "rh_checksum h \<noteq> crc32 (checked_bytes (pre @ ys @ post @ rest) (length (snd e)))"
    using checksum_original [OF d, of rest] parts [of xs] parts [of ys] damaged_simps(2) [OF d] by simp
  from damaged_after_16 [OF d pre h this] show ?thesis .
qed

lemma damaged_sequence:
  assumes d: "damaged e pre xs ys post" and pos: "16 \<le> length pre" "length pre + length xs \<le> 32"
  shows "\<exists>m. decode_rest (pre @ ys @ post @ rest) = Inl (mk_status Corrupted_record m)"
proof (rule damaged_outside_checksum [OF d pos(1)])
  show "length pre + length xs \<le> 32 \<or> 36 \<le> length pre" using pos by simp
  fix zs :: "byte list" assume l: "length zs = length xs"
  show "checked_bytes (pre @ zs @ post @ rest) (length (snd e)) =
    (take 12 pre @ [0, 0, 0, 0] @ drop 16 pre) @ zs @ (take (32 - length pre - length xs) (post @ rest) @
      [0, 0, 0, 0] @ take (4 + length (snd e)) (drop (36 - length pre - length xs) (post @ rest)))"
    using pos l by (simp add: checked_bytes_def)
qed

lemma damaged_payload:
  assumes d: "damaged e pre xs ys post" and pos: "36 \<le> length pre"
  shows "\<exists>m. decode_rest (pre @ ys @ post @ rest) = Inl (mk_status Corrupted_record m)"
proof (rule damaged_outside_checksum [OF d])
  show "16 \<le> length pre" "length pre + length xs \<le> 32 \<or> 36 \<le> length pre" using pos by simp_all
  fix zs :: "byte list" assume l: "length zs = length xs"
  show "checked_bytes (pre @ zs @ post @ rest) (length (snd e)) =
    (take 12 pre @ [0, 0, 0, 0] @ take 16 (drop 16 pre) @ [0, 0, 0, 0] @ drop 36 pre) @ zs @ post"
    using pos l damaged_simps(1,2) [OF d] by (simp add: checked_bytes_def)
qed

lemma damaged_checksum:
  assumes d: "damaged e pre xs ys post" and pos: "32 \<le> length pre" "length pre + length xs \<le> 36"
  shows "\<exists>m. decode_rest (pre @ ys @ post @ rest) = Inl (mk_status Corrupted_record m)"
proof -
  obtain h where h: "deserialize_header (pre @ ys @ post @ rest) = Expected_value h"
    using damaged_decoded [OF d] by blast
  have "take 4 (drop 32 (pre @ ys @ post @ rest)) \<noteq> take 4 (drop 32 (pre @ xs @ post @ rest))"
    using pos d by (auto simp: damaged_def)
  then have "rh_checksum h \<noteq> rh_checksum (fst e)"
    using deserialize_header_fields(3) [OF h damaged_simps(4) [OF d, of rest]] by blast
  moreover have "checked_bytes (pre @ ys @ post @ rest) n = checked_bytes (pre @ xs @ post @ rest) n" for n
    using pos damaged_simps(2) [OF d] by (simp add: checked_bytes_def)
  ultimately have "rh_checksum h \<noteq> crc32 (checked_bytes (pre @ ys @ post @ rest) (length (snd e)))"
    using checksum_original [OF d, of rest] by simp
  from damaged_after_16 [OF d _ h this] pos show ?thesis by simp
qed

text \<open>The bytes 0 and 4 of a record are not zero, and a run of four bytes covers one of them only.\<close>

lemma damaged_not_zero:
  assumes d: "damaged e pre xs ys post" and pos: "length pre + length xs \<le> 8"
  shows "\<not> is_zero_filled (pre @ ys @ post @ rest)"
proof -
  let ?img = "pre @ xs @ post @ rest" and ?bad = "pre @ ys @ post @ rest"
  have ok: "rh_magic (fst e) = wal_record_magic" "rh_version (fst e) = wal_format_version"
    using d by (simp_all add: damaged_def entry_ok_def status_simps)
  have img: "?img = serialize_header (fst e) @ snd e @ rest" by (rule damaged_simps(3) [OF d])
  have b: "?img ! 0 \<noteq> 0" "?img ! 4 \<noteq> 0"
    unfolding img serialize_header_layout
    by (simp_all add: nth_append ok le_bytes_def wal_record_magic_def wal_format_version_def upt_rec)
  have l: "length ys = length xs" "length xs \<le> 4" "length pre + length ys + length post \<ge> 40"
    using d damaged_simps(1) [OF d] by (simp_all add: damaged_def)
  have same: "?bad ! i = ?img ! i" if "i < length pre \<or> length pre + length xs \<le> i" for i
    using that l by (auto simp: nth_append)
  have "?bad ! 0 \<noteq> 0 \<or> ?bad ! 4 \<noteq> 0"
    using b same [of 0] same [of 4] l pos by (cases "pre = []") auto
  moreover have "4 < length ?bad" using l by simp
  then have "?bad ! 0 \<in> set ?bad" "?bad ! 4 \<in> set ?bad" by (intro nth_mem; linarith)+
  ultimately show ?thesis unfolding is_zero_filled_iff by blast
qed

lemma damaged_front:
  assumes d: "damaged e pre xs ys post" and pos: "length pre + length xs \<le> 8"
  shows "\<exists>m. decode_rest (pre @ ys @ post @ rest) = Inl (mk_status Corrupted_record m)"
proof -
  obtain h where h: "deserialize_header (pre @ ys @ post @ rest) = Expected_value h"
    using damaged_decoded [OF d] by blast
  have ne: "take 8 (pre @ ys @ post @ rest) \<noteq> take 8 (pre @ xs @ post @ rest)"
    using pos d by (auto simp: damaged_def)
  have "is_ok (validate_header_shape (fst e))" using d by (simp add: damaged_def entry_ok_def)
  then have "\<not> is_ok (validate_header_shape h)"
    using deserialize_header_fields(4) [OF h damaged_simps(4) [OF d, of rest]] ne by blast
  from decode_rest_bad_shape [OF h damaged_not_zero [OF d pos] this] show ?thesis .
qed

text \<open>A record of which the file ends before its last byte.\<close>

lemma decode_rest_torn:
  assumes ok: "entry_ok e" and img: "entry_image e = front @ lost" and lost: "lost \<noteq> []"
  shows "\<exists>m. decode_rest front = Inl (mk_status Empty m)"
proof (cases "length front < 40")
  case True
  then show ?thesis by (auto simp: decode_rest_def)
next
  case False
  obtain us where us: "serialize_header (fst e) = front @ us \<and> us @ snd e = lost \<or>
      serialize_header (fst e) @ us = front \<and> snd e = us @ lost"
    using img unfolding entry_image_def append_eq_append_conv2 by blast
  have "us = []" if "serialize_header (fst e) = front @ us"
    using False arg_cong [OF that, of length] by (cases us) simp_all
  with us obtain p where front: "front = serialize_header (fst e) @ p" and p: "snd e = p @ lost"
    by fastforce
  have "deserialize_header (serialize_header (fst e)) = Expected_value (fst e)"
    using deserialize_serialize_header [of "fst e" "[]"] by simp
  moreover have "rh_magic (fst e) \<noteq> 0" "is_ok (validate_header_shape (fst e))"
      "unat (rh_payload_size (fst e)) > length p"
    using ok p lost by (simp_all add: entry_ok_def status_simps wal_record_magic_def)
  ultimately show ?thesis by (auto simp: decode_rest_def front)
qed

text \<open>The four reserved bytes take part neither in the decoding nor in the checksum.\<close>

lemma decode_rest_reserved:
  assumes ok: "entry_ok e" and ys: "length ys = 4"
  shows "decode_rest (take 12 (entry_image e) @ ys @ drop 16 (entry_image e) @ rest) = Inr e"
proof -
  let ?bs = "take 12 (entry_image e) @ ys @ drop 16 (entry_image e) @ rest"
  obtain h where h: "deserialize_header ?bs = Expected_value h"
    using ys by (simp add: deserialize_header_def)
  have "deserialize_header (serialize_header (fst e)) = Expected_value (fst e)"
    using deserialize_serialize_header [of "fst e" "[]"] by simp
  from serialize_deserialize_header [OF this] serialize_deserialize_header [OF h]
  have "serialize_header h = serialize_header (fst e)"
    using ys by (simp add: entry_image_def)
  then have he: "h = fst e"
    using deserialize_serialize_header [of h "[]"] deserialize_serialize_header [of "fst e" "[]"] by simp
  moreover have "rh_magic (fst e) \<noteq> 0"
    using ok by (simp add: entry_ok_def status_simps wal_record_magic_def)
  moreover have "take (length (snd e)) (drop 40 ?bs) = snd e"
    using ys by (simp add: entry_image_def)
  moreover have "40 \<le> length ?bs" "?bs \<noteq> []" "40 + length (snd e) \<le> length ?bs"
    using ys by auto
  ultimately show ?thesis
    using ok h deserialize_header_prefix [of ?bs]
    by (simp add: decode_rest_def entry_ok_def Let_def del: take_append drop_append)
qed

section \<open>Properties\<close>

text \<open>
  C7. Corruption is detected: if at most four consecutive bytes of a record change, in the magic,
  version and header size fields, in the sequence and time stamp fields, in the checksum field, or
  anywhere in the flags and the payload, then \<open>next\<close> at that record reports
  \<open>corrupted_record\<close>, returns no data and does not move, whatever follows in the file.
\<close>

theorem wal_corruption_detected:
  assumes "reader_inv r" "entry_ok e" "entry_image e = pre @ xs @ post"
    and "length xs = length ys" "length xs \<le> 4" "xs \<noteq> ys"
    and "length pre + length xs \<le> 8 \<or> 16 \<le> length pre \<and> length pre + length xs \<le> 32 \<or>
      32 \<le> length pre \<and> length pre + length xs \<le> 36 \<or> 36 \<le> length pre"
    and "reader_rest r = pre @ ys @ post @ rest"
  shows "\<exists>m. wal_reader_next r = Some (Expected_status (mk_status Corrupted_record m), r)"
proof -
  have "damaged e pre xs ys post" using assms by (simp add: damaged_def)
  then have "\<exists>m. decode_rest (reader_rest r) = Inl (mk_status Corrupted_record m)"
    unfolding assms(8)
    using assms(7) damaged_front [of e pre xs ys post rest] damaged_sequence [of e pre xs ys post rest]
      damaged_checksum [of e pre xs ys post rest] damaged_payload [of e pre xs ys post rest] by argo
  then show ?thesis by (auto simp: wal_reader_next_eq [OF assms(1)] expected_error_def)
qed

text \<open>The record of \<open>sample_entry\<close> with its last payload byte 8 changed to 9.\<close>

theorem wal_corruption_detected_witness:
  "\<exists>m. wal_reader_next (reader_on (serialize_header (fst sample_entry) @ [7, 9])) =
     Some (Expected_status (mk_status Corrupted_record m),
       reader_on (serialize_header (fst sample_entry) @ [7, 9]))"
  using wal_corruption_detected [of "reader_on (serialize_header (fst sample_entry) @ [7, 9])"
      sample_entry "serialize_header (fst sample_entry) @ [7]" "[8]" "[]" "[9]" "[]"]
    reader_on [of "serialize_header (fst sample_entry) @ [7, 9]"] sample_entry_ok
  by (simp add: entry_image_def)

text \<open>
  C18. A torn tail is a clean stop: on a file that ends in the middle of a record, wherever the cut
  is, \<open>replay\<close> visits exactly the complete records before it and reports success.
\<close>

theorem wal_torn_tail_clean_stop:
  assumes "reader_inv r" "reader_rest r = wal_image es @ front" "\<forall>x \<in> set es. entry_ok x"
    and "entry_ok e" "entry_image e = front @ lost" "lost \<noteq> []"
  shows "wal_reader_replay collect r [] =
    Some (status_ok, reader_at r es, wal_views (unat (wr_current_offset r)) es)"
proof -
  obtain m where "decode_rest front = Inl (mk_status Empty m)"
    using decode_rest_torn [OF assms(4-6)] by blast
  then have "parse_log front = ([], mk_status Empty m)" by (simp add: parse_log.simps)
  then have "parse_log (reader_rest r) = (es, mk_status Empty m)"
    using assms(2,3) by (simp add: parse_log_image)
  from wal_reader_replay_eq [OF assms(1) this, of collect "[]"] show ?thesis
    by (simp add: visit_all_collect replay_status_def)
qed

theorem wal_torn_tail_clean_stop_witness:
  "wal_reader_replay collect (reader_on (serialize_header (fst sample_entry) @ [7])) [] =
     Some (status_ok, reader_on (serialize_header (fst sample_entry) @ [7]), [])"
  using wal_torn_tail_clean_stop [of "reader_on (serialize_header (fst sample_entry) @ [7])" "[]"
      "serialize_header (fst sample_entry) @ [7]" sample_entry "[8]"]
    reader_on [of "serialize_header (fst sample_entry) @ [7]"] sample_entry_ok
  by (simp add: entry_image_def)

text \<open>
  The reserved bytes are not protected: whatever the four bytes at offset 12 of a record are,
  \<open>next\<close> accepts the record and returns the same header and payload. The format documents
  them as zero and the checksum as covering the serialized header.
\<close>

theorem wal_reserved_bytes_ignored:
  assumes "reader_inv r" "entry_ok e" "length ys = 4"
    and "reader_rest r = take 12 (entry_image e) @ ys @ drop 16 (entry_image e) @ rest"
  shows "wal_reader_next r = Some (Expected_value
    \<lparr>rv_header = fst e, rv_payload = snd e, rv_offset = wr_current_offset r\<rparr>, reader_at r [e])"
  using decode_rest_reserved [OF assms(2,3), of rest] assms(4) reader_at_Cons [of e r "[]"]
  by (simp add: wal_reader_next_eq [OF assms(1)] split_beta)

theorem wal_reserved_bytes_ignored_witness:
  "wal_reader_next (reader_on (take 12 (entry_image sample_entry) @ [1, 2, 3, 4] @
     drop 16 (entry_image sample_entry) @ [])) =
   Some (Expected_value \<lparr>rv_header = fst sample_entry, rv_payload = [7, 8], rv_offset = 0\<rparr>,
     reader_at (reader_on (take 12 (entry_image sample_entry) @ [1, 2, 3, 4] @
       drop 16 (entry_image sample_entry) @ [])) [sample_entry])" (is "wal_reader_next (reader_on ?bs) = _")
  using wal_reserved_bytes_ignored [of "reader_on ?bs" sample_entry "[1, 2, 3, 4]" "[]"]
    reader_on [of ?bs] sample_entry_ok
  by simp

end
