(* ===== verification/Wal_Writer.thy ===== *)
theory Wal_Writer
  imports Wal_Log Mmap_File
begin

text \<open>
  \<open>include/aether/wal/wal_writer.hpp\<close> and \<open>src/wal/wal_writer.cpp\<close>: the appender of records into a
  preallocated mapped file. The clock that \<open>append\<close> reads for a message without a time stamp is the
  argument \<open>now\<close>; the copies into the mapping are \<open>memcpy_into\<close>, which is \<open>None\<close> outside it.
\<close>

section \<open>Model\<close>

definition fits_size_t :: "u64 \<Rightarrow> bool" where
  "fits_size_t v \<longleftrightarrow> v \<le> ucast (- 1 :: size_t)"

record WalWriter =
  ww_file :: MmapFile
  ww_current_offset :: u64
  ww_next_sequence :: u64
  ww_records_written :: u64
  ww_flush_on_append :: bool

definition wal_writer_default :: WalWriter where
  "wal_writer_default = \<lparr>ww_file = mmap_default, ww_current_offset = 0, ww_next_sequence = 0,
     ww_records_written = 0, ww_flush_on_append = False\<rparr>"

definition wal_writer_make :: "MmapFile \<Rightarrow> bool \<Rightarrow> WalWriter" where
  "wal_writer_make file flush_on_append =
     wal_writer_default\<lparr>ww_file := file, ww_flush_on_append := flush_on_append\<rparr>"

definition wal_writer_create ::
    "'os posix \<Rightarrow> 'os \<Rightarrow> path \<Rightarrow> u64 \<Rightarrow> bool \<Rightarrow> WalWriter Expected \<times> 'os" where
  "wal_writer_create P os path file_size_bytes flush_on_append =
     (if path = [] then
        (expected_error (mk_status Invalid_argument ''wal path must not be empty''), os)
      else if file_size_bytes < ucast wal_record_header_size then
        (expected_error (mk_status Invalid_argument ''wal file cannot fit one header''), os)
      else if \<not> fits_size_t file_size_bytes then
        (expected_error (mk_status Invalid_argument ''wal file size too large for this platform''), os)
      else let (file, os) = mmap_create P os path file_size_bytes default_MmapFileOptions in
        (case file of
           Expected_status s \<Rightarrow> (expected_error s, os)
         | Expected_value f \<Rightarrow> (Expected_value (wal_writer_make f flush_on_append), os)))"

definition wal_writer_create_config ::
    "'os posix \<Rightarrow> 'os \<Rightarrow> WalConfig \<Rightarrow> WalWriter Expected \<times> 'os" where
  "wal_writer_create_config P os config =
     (let status = validate_wal_config config in
      if \<not> is_ok status then (expected_error status, os)
      else wal_writer_create P os (wc_path config) (wc_file_size_bytes config)
             (wc_flush_on_commit config))"

definition wal_writer_valid :: "WalWriter \<Rightarrow> bool" where
  "wal_writer_valid w \<longleftrightarrow> mmap_valid (ww_file w)"

definition wal_writer_remaining_space :: "WalWriter \<Rightarrow> u64" where
  "wal_writer_remaining_space w =
     (if \<not> wal_writer_valid w then 0
      else let sz = mf_size (ww_file w) in
        if ww_current_offset w \<le> sz then sz - ww_current_offset w else 0)"

definition wal_writer_flush :: "'os posix \<Rightarrow> 'os \<Rightarrow> WalWriter \<Rightarrow> Status \<times> 'os" where
  "wal_writer_flush P os w =
     (if \<not> wal_writer_valid w then (mk_status Invalid_argument ''wal writer is not open'', os)
      else mmap_flush P os (ww_file w))"

text \<open>The header \<open>append\<close> builds for a message.\<close>

definition append_header :: "u64 \<Rightarrow> u64 \<Rightarrow> MessageView \<Rightarrow> WalRecordHeader" where
  "append_header sequence now message =
     (let header = default_WalRecordHeader
            \<lparr>rh_payload_size := of_nat (length (mv_payload message)),
             rh_sequence := sequence,
             rh_timestamp_ns := (if mh_timestamp_ns (mv_header message) \<noteq> 0
                                 then mh_timestamp_ns (mv_header message) else now),
             rh_flags := mh_flags (mv_header message)\<rparr>
      in header\<lparr>rh_checksum := compute_record_checksum header (mv_payload message)\<rparr>)"

text \<open>The copies of the serialized header and of the payload to \<open>bytes.data() + destination\<close>.\<close>

definition append_copy :: "byte list \<Rightarrow> nat \<Rightarrow> WalRecordHeader \<Rightarrow> byte list \<Rightarrow> byte list option" where
  "append_copy bytes destination header payload =
     do { bytes \<leftarrow> memcpy_into bytes destination (serialize_header header);
          if payload \<noteq> []
          then memcpy_into bytes (destination + unat wal_record_header_size) payload
          else Some bytes }"

definition append_commit :: "u64 \<Rightarrow> WalWriter \<Rightarrow> WalWriter" where
  "append_commit total_size w =
     w\<lparr>ww_current_offset := ww_current_offset w + total_size,
       ww_next_sequence := ww_next_sequence w + 1,
       ww_records_written := ww_records_written w + 1\<rparr>"

definition wal_writer_append ::
    "'os posix \<Rightarrow> 'os \<Rightarrow> u64 \<Rightarrow> WalWriter \<Rightarrow> MessageView \<Rightarrow> (Status \<times> WalWriter \<times> 'os) option" where
  "wal_writer_append P os now w message =
     (let message_status = validate_message_view message;
          payload = mv_payload message;
          payload_size = of_nat (length payload) :: u64;
          total_size = ucast wal_record_header_size + payload_size in
      if \<not> wal_writer_valid w then
        Some (mk_status Invalid_argument ''wal writer is not open'', w, os)
      else if \<not> is_ok message_status then Some (message_status, w, os)
      else if \<not> fits_size_t payload_size then
        Some (mk_status Invalid_argument ''payload too large'', w, os)
      else if payload_size > ucast max_payload_size then
        Some (mk_status Invalid_argument ''payload too large'', w, os)
      else if payload_size > - 1 - ucast wal_record_header_size then
        Some (mk_status Invalid_argument ''wal record size overflow'', w, os)
      else if total_size > wal_writer_remaining_space w then
        Some (mk_status Out_of_space ''wal file does not have enough remaining space'', w, os)
      else if \<not> fits_size_t (ww_current_offset w) \<or> \<not> fits_size_t total_size then
        Some (mk_status Invalid_argument ''wal offset too large for this platform'', w, os)
      else do {
        let header = append_header (ww_next_sequence w) now message;
        bytes \<leftarrow> append_copy (mmap_bytes (ww_file w)) (unat (ww_current_offset w)) header payload;
        let w = w\<lparr>ww_file := mmap_set_bytes (ww_file w) bytes\<rparr>;
        if ww_flush_on_append w then
          let (flush_status, os) = wal_writer_flush P os w in
          if \<not> is_ok flush_status then Some (flush_status, w, os)
          else Some (status_ok, append_commit total_size w, os)
        else Some (status_ok, append_commit total_size w, os)
      })"

section \<open>Representation\<close>

text \<open>The entry that a message becomes, the log a writer holds, and when nothing else is in the file.\<close>

definition append_entry :: "nat \<Rightarrow> u64 \<Rightarrow> MessageView \<Rightarrow> wal_entry" where
  "append_entry n now m = (append_header (of_nat n) now m, mv_payload m)"

definition writer_log :: "WalWriter \<Rightarrow> wal_entry list \<Rightarrow> bool" where
  "writer_log w es \<longleftrightarrow> mmap_inv (ww_file w) \<and> mmap_valid (ww_file w) \<and>
     (\<exists>tail. mmap_bytes (ww_file w) = wal_image es @ tail) \<and>
     unat (ww_current_offset w) = length (wal_image es) \<and>
     ww_next_sequence w = of_nat (length es) \<and> ww_records_written w = of_nat (length es) \<and>
     (\<forall>e \<in> set es. entry_ok e) \<and> map (rh_sequence \<circ> fst) es = map of_nat [0..<length es]"

definition writer_clean :: "WalWriter \<Rightarrow> bool" where
  "writer_clean w \<longleftrightarrow>
     is_zero_filled (drop (unat (ww_current_offset w)) (mmap_bytes (ww_file w)))"

text \<open>The writer after the two copies: \<open>e\<close> stands right after the log, the rest is as before.\<close>

definition writer_put :: "WalWriter \<Rightarrow> wal_entry \<Rightarrow> WalWriter" where
  "writer_put w e =
     (let bs = mmap_bytes (ww_file w); off = unat (ww_current_offset w) in
      w\<lparr>ww_file := mmap_set_bytes (ww_file w)
         (take off bs @ entry_image e @ drop (off + length (entry_image e)) bs)\<rparr>)"

lemma fits_size_t [simp]: "fits_size_t v"
  by (simp add: fits_size_t_def)

lemma rh_append_header [simp]:
  "rh_sequence (append_header s now m) = s"
  "rh_payload_size (append_header s now m) = of_nat (length (mv_payload m))"
  "rh_flags (append_header s now m) = mh_flags (mv_header m)"
  "rh_timestamp_ns (append_header s now m) =
     (if mh_timestamp_ns (mv_header m) \<noteq> 0 then mh_timestamp_ns (mv_header m) else now)"
  "rh_magic (append_header s now m) = wal_record_magic"
  "rh_version (append_header s now m) = wal_format_version"
  "rh_header_size (append_header s now m) = wal_record_header_size"
  by (simp_all add: append_header_def default_WalRecordHeader_def Let_def)

lemma append_header_checksum:
  "validate_record_checksum (append_header s now m) (mv_payload m)"
  unfolding append_header_def Let_def validate_record_checksum_def
    compute_record_checksum_ignores_field
  by simp

lemma append_entry_ok:
  assumes "unat (mh_payload_size (mv_header m)) = length (mv_payload m)"
  shows "entry_ok (append_entry n now m)"
proof -
  have "length (mv_payload m) < 2 ^ 32"
    using assms unat_lt2p [of "mh_payload_size (mv_header m)"] by simp
  then show ?thesis
    by (simp add: entry_ok_def append_entry_def status_simps append_header_checksum
        unsigned_of_nat take_bit_nat_eq_self)
qed

lemma writer_log_bounds:
  assumes "writer_log w es"
  shows "length (wal_image es) \<le> unat (mf_size (ww_file w))"
    and "length (mmap_bytes (ww_file w)) = unat (mf_size (ww_file w))"
    and "length es < 2 ^ 64"
proof -
  show l: "length (mmap_bytes (ww_file w)) = unat (mf_size (ww_file w))"
    using assms by (simp add: writer_log_def length_mmap_bytes)
  then show i: "length (wal_image es) \<le> unat (mf_size (ww_file w))"
    using assms by (auto simp: writer_log_def)
  show "length es < 2 ^ 64"
    using i length_wal_image_ge [of es] unat_lt2p [of "mf_size (ww_file w)"] by simp
qed

lemma unat_remaining_space:
  assumes "writer_log w es"
  shows "unat (wal_writer_remaining_space w) = unat (mf_size (ww_file w)) - length (wal_image es)"
proof -
  have "ww_current_offset w \<le> mf_size (ww_file w)"
    using assms writer_log_bounds(1) [OF assms] by (simp add: word_le_nat_alt writer_log_def)
  then show ?thesis
    using assms by (simp add: wal_writer_remaining_space_def wal_writer_valid_def writer_log_def
        unat_sub)
qed

section \<open>The operations\<close>

lemma writer_put_simps [simp]:
  "ww_current_offset (writer_put w e) = ww_current_offset w"
  "ww_next_sequence (writer_put w e) = ww_next_sequence w"
  "ww_records_written (writer_put w e) = ww_records_written w"
  "ww_flush_on_append (writer_put w e) = ww_flush_on_append w"
  "mf_size (ww_file (writer_put w e)) = mf_size (ww_file w)"
  "mmap_valid (ww_file (writer_put w e)) = mmap_valid (ww_file w)"
  by (simp_all add: writer_put_def Let_def)

lemma mmap_bytes_writer_put:
  assumes "writer_log w es" "mmap_bytes (ww_file w) = wal_image es @ tail"
    and "length (entry_image e) \<le> length tail"
  shows "mmap_bytes (ww_file (writer_put w e)) =
      wal_image es @ entry_image e @ drop (length (entry_image e)) tail \<and>
    mmap_inv (ww_file (writer_put w e))"
proof -
  have "length (wal_image es @ entry_image e @ drop (length (entry_image e)) tail)
      = unat (mf_size (ww_file w))"
    using assms writer_log_bounds(2) [OF assms(1)] by simp
  then show ?thesis
    using assms unfolding writer_put_def writer_log_def Let_def
    by (simp add: mmap_bytes_set_bytes mmap_inv_set_bytes)
qed

lemma append_copy_eq:
  assumes "off + length (entry_image e) \<le> length bs"
  shows "append_copy bs off (fst e) (snd e) =
    Some (take off bs @ entry_image e @ drop (off + length (entry_image e)) bs)"
proof -
  have "append_copy bs off (fst e) (snd e) = memcpy_into bs off (entry_image e)"
    using assms memcpy_into_adjacent [of off "serialize_header (fst e)" "snd e" bs]
    by (cases "snd e = []") (auto simp: append_copy_def entry_image_def)
  then show ?thesis using assms by (simp add: span_simps del: length_entry_image)
qed

text \<open>\<open>append\<close> on a writer that holds a log: which of its branches is taken, and its result.\<close>

lemma wal_writer_append_eq:
  assumes log: "writer_log w es"
  shows "wal_writer_append P os now w m =
    (if unat (mh_payload_size (mv_header m)) \<noteq> length (mv_payload m) then
       Some (validate_message_view m, w, os)
     else if length (wal_image es) + 40 + length (mv_payload m) > unat (mf_size (ww_file w)) then
       Some (mk_status Out_of_space ''wal file does not have enough remaining space'', w, os)
     else
       let w1 = writer_put w (append_entry (length es) now m);
           w2 = append_commit (40 + of_nat (length (mv_payload m))) w1;
           (st, os1) = mmap_flush P os (ww_file w1) in
       if \<not> ww_flush_on_append w then Some (status_ok, w2, os)
       else if \<not> is_ok st then Some (st, w1, os1)
       else Some (status_ok, w2, os1))"
proof (cases "unat (mh_payload_size (mv_header m)) = length (mv_payload m)")
  case False
  then show ?thesis
    using log by (simp add: wal_writer_append_def wal_writer_valid_def writer_log_def status_simps)
next
  case sz: True
  let ?n = "length (mv_payload m)" and ?bs = "mmap_bytes (ww_file w)"
  let ?e = "append_entry (length es) now m" and ?off = "length (wal_image es)"
  have n: "?n < 2 ^ 32" using sz unat_lt2p [of "mh_payload_size (mv_header m)"] by simp
  then have un: "unat (of_nat ?n :: u64) = ?n" by (simp add: unsigned_of_nat take_bit_nat_eq_self)
  have max: "\<not> (of_nat ?n :: u64) > ucast max_payload_size"
      "\<not> (of_nat ?n :: u64) > - 1 - ucast wal_record_header_size"
    using n by (simp_all add: word_less_nat_alt un unsigned_ucast_eq unat_max_payload_size
        take_bit_nat_eq_self wal_record_header_size_def)
  have tot: "unat (ucast wal_record_header_size + of_nat ?n :: u64) = 40 + ?n"
    using n by (simp add: unat_word_ariths un wal_record_header_size_def)
  have guard: "ucast wal_record_header_size + of_nat ?n > wal_writer_remaining_space w
      \<longleftrightarrow> ?off + 40 + ?n > unat (mf_size (ww_file w))"
    using writer_log_bounds(1) [OF log]
    by (simp add: word_less_nat_alt tot unat_remaining_space [OF log]) linarith
  have off: "unat (ww_current_offset w) = ?off" "ww_next_sequence w = of_nat (length es)"
      "length ?bs = unat (mf_size (ww_file w))" "wal_writer_valid w"
    using log writer_log_bounds [OF log] by (simp_all add: writer_log_def wal_writer_valid_def)
  show ?thesis
  proof (cases "?off + 40 + ?n > unat (mf_size (ww_file w))")
    case True
    then show ?thesis
      using sz max guard off by (simp add: wal_writer_append_def status_simps Let_def)
  next
    case False
    have hs: "ucast wal_record_header_size = (40 :: u64)" by (simp add: wal_record_header_size_def)
    have copy: "append_copy ?bs ?off (append_header (of_nat (length es)) now m) (mv_payload m)
        = Some (take ?off ?bs @ entry_image ?e @ drop (?off + length (entry_image ?e)) ?bs)"
      using False off append_copy_eq [of ?off ?e ?bs] by (simp add: append_entry_def)
    show ?thesis
      using sz False max guard off copy
      by (simp add: wal_writer_append_def status_simps Let_def writer_put_def wal_writer_flush_def
          wal_writer_valid_def hs split: prod.splits)
  qed
qed

lemma writer_log_put:
  assumes "writer_log w es" "length (wal_image es) + length (entry_image e) \<le> unat (mf_size (ww_file w))"
  shows "writer_log (writer_put w e) es"
proof -
  obtain tail where t: "mmap_bytes (ww_file w) = wal_image es @ tail"
    using assms(1) by (auto simp: writer_log_def)
  then have "length (entry_image e) \<le> length tail"
    using assms writer_log_bounds(2) [OF assms(1)] by simp
  from mmap_bytes_writer_put [OF assms(1) t this] show ?thesis
    using assms(1) by (auto simp: writer_log_def)
qed

lemma writer_log_commit:
  assumes log: "writer_log w es"
    and fit: "length (wal_image es) + length (entry_image e) \<le> unat (mf_size (ww_file w))"
    and e: "entry_ok e" "rh_sequence (fst e) = of_nat (length es)"
  shows "writer_log (append_commit (40 + of_nat (length (snd e))) (writer_put w e)) (es @ [e])"
    and "writer_clean w \<longrightarrow>
      writer_clean (append_commit (40 + of_nat (length (snd e))) (writer_put w e))"
proof -
  obtain tail where t: "mmap_bytes (ww_file w) = wal_image es @ tail"
    using log by (auto simp: writer_log_def)
  then have len: "length (entry_image e) \<le> length tail"
    using fit writer_log_bounds(2) [OF log] by simp
  note put = mmap_bytes_writer_put [OF log t len]
  have off: "unat (ww_current_offset w) = length (wal_image es)" using log by (simp add: writer_log_def)
  have "length (wal_image es) + (40 + length (snd e)) < 2 ^ 64"
    using fit unat_lt2p [of "mf_size (ww_file w)"] by simp
  then have off': "unat (ww_current_offset w + (40 + of_nat (length (snd e))))
      = length (wal_image (es @ [e]))"
    using off by (simp add: unat_word_ariths unsigned_of_nat take_bit_nat_eq_self)
  show "writer_log (append_commit (40 + of_nat (length (snd e))) (writer_put w e)) (es @ [e])"
    using log put e off' by (auto simp: writer_log_def append_commit_def add.commute)
  show "writer_clean w \<longrightarrow>
      writer_clean (append_commit (40 + of_nat (length (snd e))) (writer_put w e))"
    using put off off' t
    by (auto simp: writer_clean_def append_commit_def is_zero_filled_iff dest: in_set_dropD)
qed

interpretation wal: append_log writer_log writer_clean "wal_writer_append P" append_entry for P
proof unfold_locales
  fix w es os now m
  assume log: "writer_log w es"
  show "\<exists>r. wal_writer_append P os now w m = Some r"
    by (auto simp: wal_writer_append_eq [OF log] Let_def split: prod.splits)
  fix st w' os'
  assume r: "wal_writer_append P os now w m = Some (st, w', os')"
  let ?e = "append_entry (length es) now m"
  have e: "length (entry_image ?e) = 40 + length (mv_payload m)"
      "rh_sequence (fst ?e) = of_nat (length es)" "snd ?e = mv_payload m"
    by (simp_all add: append_entry_def)
  show "writer_log w' (es @ [?e]) \<and> (writer_clean w \<longrightarrow> writer_clean w')" if "is_ok st"
    using r that writer_log_commit [OF log _ append_entry_ok e(2)] e
    by (auto simp: wal_writer_append_eq [OF log] Let_def status_simps
        split: prod.splits if_splits)
  show "writer_log w' es \<and> (w' = w \<or> st_code st = Io_error)" if "\<not> is_ok st"
    using r that log writer_log_put [OF log, of ?e] e mmap_flush_ok_or_io_error
    by (fastforce simp: wal_writer_append_eq [OF log] Let_def writer_log_def
        split: prod.splits if_splits)
qed

text \<open>The statuses \<open>append\<close> can return, and that a failed one leaves the position.\<close>

lemma wal_append_status:
  assumes "writer_log w es" "wal_writer_append P os now w m = Some (st, w', os')"
  shows "st_code st \<in> {Ok, Invalid_argument, Out_of_space, Io_error}"
  using assms(2) mmap_flush_ok_or_io_error [of P os] assms(1)
  by (fastforce simp: wal_writer_append_eq [OF assms(1)] Let_def validate_message_view_def writer_log_def
      split: if_splits prod.splits)

lemma wal_append_error_offset:
  assumes "writer_log w es" "wal_writer_append P os now w m = Some (st, w', os')" "\<not> is_ok st"
  shows "ww_current_offset w' = ww_current_offset w"
  using assms(2,3)
  by (auto simp: wal_writer_append_eq [OF assms(1)] Let_def split: if_splits prod.splits)

section \<open>Creation and ownership of the mapping\<close>

definition writer_owns :: "'os posix \<Rightarrow> 'os \<Rightarrow> path \<Rightarrow> WalWriter \<Rightarrow> bool" where
  "writer_owns P os path w \<longleftrightarrow>
     (\<exists>a. mf_data (ww_file w) = Some (a, mmap_bytes (ww_file w)) \<and> os_maps P os a = Some path)"

lemma wal_writer_create_log:
  assumes laws: "posix_laws P" and c: "wal_writer_create P os path sz foa = (Expected_value w, os')"
  shows "writer_log w [] \<and> writer_clean w \<and> writer_owns P os' path w \<and> mf_size (ww_file w) = sz"
proof -
  obtain e os1 where m: "mmap_create P os path sz default_MmapFileOptions = (e, os1)" by fastforce
  obtain f where f: "e = Expected_value f" "w = wal_writer_make f foa" "os' = os1"
    using c m by (auto simp: wal_writer_create_def Let_def split: if_splits Expected.splits)
  then show ?thesis
    using mmap_create_result [OF laws m]
    by (auto simp: acquired_def writer_log_def writer_clean_def writer_owns_def wal_writer_make_def
        wal_writer_default_def)
qed

lemma wal_writer_create_error:
  "wal_writer_create_config P os config = (Expected_status st, os') \<Longrightarrow> \<not> is_ok st"
  by (auto simp: wal_writer_create_config_def wal_writer_create_def expected_error_def Let_def
      split: if_splits prod.splits Expected.splits)

lemma writer_owns_put:
  assumes "writer_log w es" "writer_owns P os path w" "os_maps P os' = os_maps P os"
    and "length (wal_image es) + length (entry_image e) \<le> unat (mf_size (ww_file w))"
  shows "writer_owns P os' path (writer_put w e)"
    and "writer_owns P os' path (append_commit n (writer_put w e))"
proof -
  obtain tail where t: "mmap_bytes (ww_file w) = wal_image es @ tail"
    using assms(1) by (auto simp: writer_log_def)
  then have len: "length (entry_image e) \<le> length tail"
    using assms(4) writer_log_bounds(2) [OF assms(1)] by simp
  have b: "mmap_bytes (ww_file (writer_put w e)) =
      wal_image es @ entry_image e @ drop (length (entry_image e)) tail"
    using mmap_bytes_writer_put [OF assms(1) t len] by simp
  have "unat (ww_current_offset w) = length (wal_image es)" using assms(1) by (simp add: writer_log_def)
  then show o: "writer_owns P os' path (writer_put w e)"
    using assms(2,3) t
    by (auto simp: writer_owns_def b) (simp add: writer_put_def mmap_set_bytes_def Let_def)
  then show "writer_owns P os' path (append_commit n (writer_put w e))"
    by (simp add: writer_owns_def append_commit_def)
qed

lemma wal_writer_append_owns:
  assumes laws: "posix_laws P" and log: "writer_log w es" and own: "writer_owns P os path w"
    and r: "wal_writer_append P os now w m = Some (st, w', os')"
  shows "writer_owns P os' path w'"
proof -
  let ?e = "append_entry (length es) now m"
  have e: "length (entry_image ?e) = 40 + length (mv_payload m)" by (simp add: append_entry_def)
  obtain fst' os1 where fl: "mmap_flush P os (ww_file (writer_put w ?e)) = (fst', os1)" by fastforce
  show ?thesis
    using r own fl mmap_flush_post [OF laws fl] writer_owns_put [OF log own, of os ?e]
      writer_owns_put [OF log own, of os1 ?e] e
    by (auto simp: wal_writer_append_eq [OF log] Let_def split: if_splits)
qed

lemma wal_writer_session_owns:
  assumes "posix_laws P" "writer_log w es" "writer_owns P os path w"
    and "log_appends (wal_writer_append P) os w ms = Some (sts, w', os')"
  shows "writer_owns P os' path w'"
  using assms(2-4)
proof (induction ms arbitrary: os w es sts)
  case (Cons nm ms)
  obtain now m where nm: "nm = (now, m)" by fastforce
  obtain st w1 os1 sts' where a: "wal_writer_append P os now w m = Some (st, w1, os1)"
    and rest: "log_appends (wal_writer_append P) os1 w1 ms = Some (sts', w', os')"
    using Cons.prems(3) nm by (auto simp: bind_eq_Some_conv)
  have "\<exists>es'. writer_log w1 es'"
    using wal.append_ok [OF Cons.prems(1) a] wal.append_error [OF Cons.prems(1) a]
    by (cases "is_ok st") auto
  then show ?case
    using Cons.IH [OF _ wal_writer_append_owns [OF assms(1) Cons.prems(1,2) a] rest] by blast
qed simp

section \<open>Properties\<close>

text \<open>
  C11. Contract of \<open>append\<close>: it never copies outside the mapping. A message whose header lies about
  its payload size is refused with \<open>invalid_argument\<close>, one that does not fit is refused with
  \<open>out_of_space\<close>, both without changing anything. Otherwise the record is written, and on success the
  log has grown by exactly that record with the next sequence number; the only other outcome is an
  \<open>io_error\<close> of the flush that a writer with \<open>flush_on_append\<close> makes, which leaves the log as it was.
\<close>

theorem wal_append_contract:
  assumes "writer_log w es"
  shows "\<exists>st w' os'. wal_writer_append P os now w m = Some (st, w', os') \<and>
    (if unat (mh_payload_size (mv_header m)) \<noteq> length (mv_payload m)
     then st_code st = Invalid_argument \<and> w' = w \<and> os' = os
     else if unat (mf_size (ww_file w)) < length (wal_image es) + 40 + length (mv_payload m)
     then st_code st = Out_of_space \<and> w' = w \<and> os' = os
     else if is_ok st then writer_log w' (es @ [append_entry (length es) now m])
     else ww_flush_on_append w \<and> st_code st = Io_error \<and> writer_log w' es)"
proof -
  obtain st w' os' where r: "wal_writer_append P os now w m = Some (st, w', os')"
    using wal.append_defined [OF assms] by (metis prod_cases3)
  have bad: "unat (mh_payload_size (mv_header m)) \<noteq> length (mv_payload m) \<Longrightarrow>
      st_code st = Invalid_argument \<and> w' = w \<and> os' = os"
    using r by (auto simp: wal_writer_append_eq [OF assms] validate_message_view_def)
  have full: "unat (mh_payload_size (mv_header m)) = length (mv_payload m) \<Longrightarrow>
      unat (mf_size (ww_file w)) < length (wal_image es) + 40 + length (mv_payload m) \<Longrightarrow>
      st_code st = Out_of_space \<and> w' = w \<and> os' = os"
    using r by (auto simp: wal_writer_append_eq [OF assms])
  have flush: "unat (mh_payload_size (mv_header m)) = length (mv_payload m) \<Longrightarrow>
      \<not> unat (mf_size (ww_file w)) < length (wal_image es) + 40 + length (mv_payload m) \<Longrightarrow>
      \<not> is_ok st \<Longrightarrow> ww_flush_on_append w \<and> st_code st = Io_error"
    using r assms mmap_flush_ok_or_io_error
    by (fastforce simp: wal_writer_append_eq [OF assms] Let_def writer_log_def
        split: if_splits prod.splits)
  show ?thesis
    using r bad full flush wal.append_ok [OF assms r] wal.append_error [OF assms r] by auto
qed

text \<open>The writer on a file of 45 bytes and a message of two bytes, for the witnesses.\<close>

definition sample_writer :: WalWriter where
  "sample_writer = wal_writer_make (memfs_file 45 (replicate 45 0)) False"

definition sample_message :: MessageView where
  "sample_message = \<lparr>mv_header = \<lparr>mh_sequence = 0, mh_timestamp_ns = 0, mh_payload_size = 2, mh_flags = 0\<rparr>,
     mv_payload = [7, 8]\<rparr>"

lemma sample_writer_create:
  "wal_writer_create memfs_posix memfs_empty ''w'' 45 False =
     (Expected_value sample_writer, memfs_opened (replicate 45 0))"
  by (simp add: wal_writer_create_def wal_record_header_size_def memfs_create sample_writer_def)

lemma sample_writer_log: "writer_log sample_writer []"
  using wal_writer_create_log [OF memfs_laws sample_writer_create] by simp

lemma sample_append:
  "wal_writer_append memfs_posix os 5 sample_writer sample_message =
     Some (status_ok, append_commit 42 (writer_put sample_writer (append_entry 0 5 sample_message)), os)"
  by (simp add: wal_writer_append_eq [OF sample_writer_log] sample_message_def Let_def split_beta)
    (simp add: sample_writer_def wal_writer_make_def wal_writer_default_def memfs_file_def)

theorem wal_append_contract_witness:
  "\<exists>w'. wal_writer_append memfs_posix memfs_empty 5 sample_writer sample_message =
     Some (status_ok, w', memfs_empty) \<and> writer_log w' [append_entry 0 5 sample_message]"
proof -
  have "unat (mf_size (ww_file sample_writer)) = 45"
    by (simp add: sample_writer_def wal_writer_make_def memfs_file_def)
  then show ?thesis
    using wal_append_contract [OF sample_writer_log, of memfs_posix memfs_empty 5 sample_message]
    by (simp add: sample_append) (simp add: sample_message_def)
qed

end
