(* ===== verification/Wal_Roundtrip.thy ===== *)
theory Wal_Roundtrip
  imports Wal_Writer Wal_Corruption
begin

text \<open>
  The writer and the reader together, through the file system: what one process appends and another
  replays, and what a failed flush leaves in the file.
\<close>

section \<open>A reader on the file of a writer\<close>

lemma wal_reader_open_result:
  assumes "posix_laws P" "wal_reader_open P os path = (Expected_value r, os')"
  shows "reader_inv r \<and> wr_current_offset r = 0 \<and> os_files P os path = Some (reader_rest r)"
proof -
  obtain e os1 where m: "mmap_open_existing P os path \<lparr>mo_flush_on_destroy = False\<rparr> = (e, os1)"
    by fastforce
  obtain f where f: "e = Expected_value f" "r = wal_reader_make f"
    using assms(2) m by (auto simp: wal_reader_open_def expected_error_def split: Expected.splits)
  then show ?thesis
    using mmap_open_existing_result [OF assms(1) m]
    by (auto simp: acquired_def reader_inv_def reader_rest_def wal_reader_make_def
        wal_reader_default_def)
qed

text \<open>Closing the writer puts its bytes into the file that the reader opens.\<close>

lemma writer_close_reader_open:
  assumes laws: "posix_laws P" and log: "writer_log w es" and own: "writer_owns P os path w"
    and cl: "mmap_close P os (ww_file w) = (st, f', os1)" "is_ok st"
    and op: "wal_reader_open P os1 path = (Expected_value r, os2)"
  shows "reader_inv r \<and> wr_current_offset r = 0 \<and> reader_rest r = mmap_bytes (ww_file w)"
proof -
  obtain a where a: "mf_data (ww_file w) = Some (a, mmap_bytes (ww_file w))" "os_maps P os a = Some path"
    using own by (auto simp: writer_owns_def)
  have "os_files P os1 path = Some (mmap_bytes (ww_file w))"
    using mmap_close_result [OF laws _ _ a cl(1)] cl(2) log by (simp add: writer_log_def)
  then show ?thesis using wal_reader_open_result [OF laws op] by auto
qed

lemma writer_log_clean_bytes:
  assumes "writer_log w es" "writer_clean w"
  obtains tail where "mmap_bytes (ww_file w) = wal_image es @ tail" "is_zero_filled tail"
  using assms by (auto simp: writer_log_def writer_clean_def)

text \<open>What the entries of a session say of its accepted messages.\<close>

lemma append_entry_fields:
  "map snd (log_entries append_entry n sts ms) = map (\<lambda>(now, m). mv_payload m) (accepted_messages sts ms)"
  "map rh_flags (map fst (log_entries append_entry n sts ms)) =
     map (\<lambda>(now, m). mh_flags (mv_header m)) (accepted_messages sts ms)"
  "map rh_timestamp_ns (map fst (log_entries append_entry n sts ms)) =
     map (\<lambda>(now, m). if mh_timestamp_ns (mv_header m) \<noteq> 0 then mh_timestamp_ns (mv_header m) else now)
       (accepted_messages sts ms)"
  unfolding map_map by (rule map_log_entries; simp add: append_entry_def append_header_def Let_def)+

section \<open>Properties\<close>

text \<open>
  C3. Round trip of the write-ahead log. A writer is created, any messages are appended (some may
  be refused), the file is closed and opened again. If no flush failed and \<open>close\<close> reported success,
  then replay reports success and visits exactly the accepted messages, in the order in which they
  were appended, each with its payload and its flags, with its time stamp or, if it has none, the
  reading of the clock at its append, and with the sequence numbers 0, 1, 2, ...
\<close>

theorem wal_write_reopen_replay:
  assumes "posix_laws P"
    and "wal_writer_create P os path sz foa = (Expected_value w, os1)"
    and "log_appends (wal_writer_append P) os1 w ms = Some (sts, w', os2)"
    and "\<forall>st \<in> set sts. st_code st \<noteq> Io_error"
    and "mmap_close P os2 (ww_file w') = (st, f', os3)" "is_ok st"
    and "wal_reader_open P os3 path = (Expected_value r, os4)"
  shows "\<exists>views. wal_reader_replay collect r [] =
        Some (status_ok, reader_at r (log_entries append_entry 0 sts ms), views) \<and>
      views = wal_views 0 (log_entries append_entry 0 sts ms) \<and>
      map rv_payload views = map (\<lambda>(now, m). mv_payload m) (accepted_messages sts ms) \<and>
      map (rh_flags \<circ> rv_header) views = map (\<lambda>(now, m). mh_flags (mv_header m)) (accepted_messages sts ms) \<and>
      map (rh_timestamp_ns \<circ> rv_header) views =
        map (\<lambda>(now, m). if mh_timestamp_ns (mv_header m) \<noteq> 0 then mh_timestamp_ns (mv_header m) else now)
          (accepted_messages sts ms) \<and>
      map (rh_sequence \<circ> rv_header) views = map of_nat [0..<length (accepted_messages sts ms)]"
proof -
  let ?es = "log_entries append_entry 0 sts ms"
  have c: "writer_log w []" "writer_clean w" "writer_owns P os1 path w"
    using wal_writer_create_log [OF assms(1,2)] by simp_all
  have log: "writer_log w' ?es" "writer_clean w'"
    using wal.appends_log [OF c(1) assms(3)] c(2) assms(4) by simp_all
  have own: "writer_owns P os2 path w'"
    using wal_writer_session_owns [OF assms(1) c(1,3) assms(3)] .
  note r = writer_close_reader_open [OF assms(1) log(1) own assms(5-7)]
  obtain tail where "mmap_bytes (ww_file w') = wal_image ?es @ tail" "is_zero_filled tail"
    using writer_log_clean_bytes [OF log] .
  then have "parse_log (reader_rest r) = (?es, mk_status Empty [])"
    using r log(1) by (simp add: writer_log_def parse_log_image parse_log_zero)
  from wal_reader_replay_eq [OF _ this, of collect "[]"]
  have "wal_reader_replay collect r [] = Some (status_ok, reader_at r ?es, wal_views 0 ?es)"
    using r by (simp add: visit_all_collect replay_status_def)
  moreover have "map (rh_sequence \<circ> fst) ?es = map of_nat [0..<length ?es]"
    using log(1) by (simp add: writer_log_def)
  moreover have "length ?es = length (accepted_messages sts ms)"
    using map_log_entries [of "\<lambda>_. ()" append_entry "\<lambda>_ _. ()" 0 sts ms] by (metis length_map)
  ultimately show ?thesis
    using append_entry_fields [of 0 sts ms] by (simp flip: map_map)
qed

lemma memfs_written:
  assumes "sz \<noteq> 0"
  shows "ww_file (append_commit n (writer_put (wal_writer_make (memfs_file sz (replicate (unat sz) 0)) foa) e)) =
    memfs_file sz (entry_image e @ replicate (unat sz - length (entry_image e)) 0)"
proof -
  have "mmap_bytes (memfs_file sz (replicate (unat sz) 0)) = replicate (unat sz) 0"
    using assms by (simp add: mmap_bytes_def mmap_valid_def memfs_file_def)
  then show ?thesis
    by (simp add: append_commit_def writer_put_def wal_writer_make_def wal_writer_default_def)
qed

theorem wal_write_reopen_replay_witness:
  "\<exists>r os os' os'' f. log_appends (wal_writer_append memfs_posix) (memfs_opened (replicate 45 0)) sample_writer
      [(5, sample_message)] = Some ([status_ok], append_commit 42
        (writer_put sample_writer (append_entry 0 5 sample_message)), os) \<and>
     mmap_close memfs_posix os (ww_file (append_commit 42
        (writer_put sample_writer (append_entry 0 5 sample_message)))) = (status_ok, f, os') \<and>
     wal_reader_open memfs_posix os' ''w'' = (Expected_value r, os'') \<and>
     wal_reader_replay collect r [] = Some (status_ok, reader_at r [append_entry 0 5 sample_message],
       [\<lparr>rv_header = append_header 0 5 sample_message, rv_payload = [7, 8], rv_offset = 0\<rparr>])"
proof -
  let ?w = "append_commit 42 (writer_put sample_writer (append_entry 0 5 sample_message))"
  let ?bs = "entry_image (append_entry 0 5 sample_message) @ replicate 3 0"
  have e: "snd (append_entry 0 5 sample_message) = [7, 8]"
    by (simp add: append_entry_def sample_message_def)
  have run: "log_appends (wal_writer_append memfs_posix) (memfs_opened (replicate 45 0)) sample_writer
      [(5, sample_message)] = Some ([status_ok], ?w, memfs_opened (replicate 45 0))"
    by (simp add: sample_append)
  have cl: "mmap_close memfs_posix (memfs_opened (replicate 45 0)) (ww_file ?w) =
      (status_ok, mmap_default, memfs_closed ?bs)"
    using memfs_written [of 45 42 False "append_entry 0 5 sample_message"]
    by (simp add: sample_writer_def memfs_close_file e)
  obtain r os'' where op: "wal_reader_open memfs_posix (memfs_closed ?bs) ''w'' = (Expected_value r, os'')"
    using memfs_reopen [of ?bs] e by (simp add: wal_reader_open_def)
  have "wal_reader_replay collect r [] = Some (status_ok, reader_at r [append_entry 0 5 sample_message],
      [\<lparr>rv_header = append_header 0 5 sample_message, rv_payload = [7, 8], rv_offset = 0\<rparr>])"
    using wal_write_reopen_replay [OF memfs_laws sample_writer_create run _ cl _ op] e
    by (simp add: append_entry_def)
  then show ?thesis using run cl op by blast
qed

text \<open>
  C38. A failed append can be replayed. When the flush of an \<open>append\<close> fails, the caller is told
  \<open>io_error\<close> and the writer does not count the record, but its bytes are in the mapping: a reader of
  those bytes visits the refused record after the log, with a valid checksum and the next sequence
  number, and reports success.
\<close>

theorem wal_failed_append_is_replayed:
  assumes "writer_log w es" "writer_clean w"
    and "wal_writer_append P os now w m = Some (st, w', os')" "st_code st = Io_error"
    and "reader_inv r" "wr_current_offset r = 0" "reader_rest r = mmap_bytes (ww_file w')"
  shows "ww_records_written w' = of_nat (length es) \<and>
    wal_reader_replay collect r [] = Some (status_ok,
      reader_at r (es @ [append_entry (length es) now m]),
      wal_views 0 (es @ [append_entry (length es) now m]))"
proof -
  let ?e = "append_entry (length es) now m"
  have ok: "unat (mh_payload_size (mv_header m)) = length (mv_payload m)"
    and fit: "length (wal_image es) + 40 + length (mv_payload m) \<le> unat (mf_size (ww_file w))"
    and w': "w' = writer_put w ?e"
    using assms(3,4)
    by (auto simp: wal_writer_append_eq [OF assms(1)] validate_message_view_def Let_def
        split: if_splits prod.splits)
  obtain tail where t: "mmap_bytes (ww_file w) = wal_image es @ tail" "is_zero_filled tail"
    using writer_log_clean_bytes [OF assms(1,2)] .
  have len: "length (entry_image ?e) \<le> length tail"
    using fit t(1) writer_log_bounds(2) [OF assms(1)] by (simp add: append_entry_def)
  have "reader_rest r = wal_image (es @ [?e]) @ drop (length (entry_image ?e)) tail"
    using assms(7) w' mmap_bytes_writer_put [OF assms(1) t(1) len] by simp
  moreover have "is_zero_filled (drop (length (entry_image ?e)) tail)"
    using t(2) by (auto simp: is_zero_filled_iff dest: in_set_dropD)
  moreover have "\<forall>x \<in> set (es @ [?e]). entry_ok x"
    using assms(1) append_entry_ok [OF ok] by (simp add: writer_log_def)
  ultimately have "parse_log (reader_rest r) = (es @ [?e], mk_status Empty [])"
    by (simp only: parse_log_image parse_log_zero) simp
  from wal_reader_replay_eq [OF assms(5) this, of collect "[]"] show ?thesis
    using assms(1,6) w' by (simp add: visit_all_collect replay_status_def writer_log_def)
qed

theorem wal_failed_append_is_replayed_witness:
  "\<exists>w w'. wal_writer_append (memfs_posix\<lparr>sys_msync := \<lambda>os d n. (- 1, os)\<rparr>) memfs_empty 5 w sample_message =
     Some (mk_status Io_error ''failed to flush mmap file'', w', memfs_empty) \<and>
   ww_records_written w' = 0 \<and>
   wal_reader_replay collect (reader_on (mmap_bytes (ww_file w'))) [] =
     Some (status_ok, reader_at (reader_on (mmap_bytes (ww_file w'))) [append_entry 0 5 sample_message],
       wal_views 0 [append_entry 0 5 sample_message])"
proof -
  let ?P = "memfs_posix\<lparr>sys_msync := \<lambda>os d n. (- 1, os)\<rparr>" and ?e = "append_entry 0 5 sample_message"
  define w where "w = wal_writer_make (memfs_file 45 (replicate 45 0)) True"
  have "wal_writer_create memfs_posix memfs_empty ''w'' 45 True =
      (Expected_value w, memfs_opened (replicate 45 0))"
    by (simp add: wal_writer_create_def wal_record_header_size_def memfs_create w_def)
  then have log: "writer_log w []" "writer_clean w"
    using wal_writer_create_log [OF memfs_laws] by simp_all
  have put: "ww_file (writer_put w ?e) = memfs_file 45 (entry_image ?e @ replicate 3 0)"
    by (simp add: writer_put_def w_def wal_writer_make_def wal_writer_default_def mmap_bytes_def
        mmap_valid_def) (simp add: memfs_file_def append_entry_def sample_message_def)
  have run: "wal_writer_append ?P memfs_empty 5 w sample_message =
      Some (mk_status Io_error ''failed to flush mmap file'', writer_put w ?e, memfs_empty)"
    by (simp add: wal_writer_append_eq [OF log(1)] Let_def put mmap_flush_def mmap_data_def
        mmap_valid_def)
      (simp add: memfs_file_def sample_message_def w_def wal_writer_make_def)
  have bs: "mmap_bytes (ww_file (writer_put w ?e)) = entry_image ?e @ replicate 3 0"
    by (simp add: put mmap_bytes_def mmap_valid_def)
      (simp add: memfs_file_def append_entry_def sample_message_def)
  have "reader_inv (reader_on (mmap_bytes (ww_file (writer_put w ?e))))"
      "wr_current_offset (reader_on (mmap_bytes (ww_file (writer_put w ?e)))) = 0"
      "reader_rest (reader_on (mmap_bytes (ww_file (writer_put w ?e)))) =
        mmap_bytes (ww_file (writer_put w ?e))"
    unfolding bs by (rule reader_on; simp add: append_entry_def sample_message_def)+
  from wal_failed_append_is_replayed [OF log run _ this] run show ?thesis
    by (intro exI [of _ w] exI [of _ "writer_put w ?e"]) simp
qed

end
