(* ===== verification/Queue_Interface.thy ===== *)
theory Queue_Interface
  imports Aether_Prelude
begin

text \<open>
  The contract of a bounded FIFO queue, as the brokers rely on it and as
  \<open>docs/ring-buffer-design.md\<close> states it: a non-blocking push that fails exactly when the
  queue is full, a non-blocking pop that fails exactly when it is empty, order kept. An
  operation returns \<open>None\<close> where the C++ would have undefined behaviour, so every law also says
  that it has none. The abstract queue is a list with a capacity; a provider shows that its
  operations simulate it, and the client lemmas here are proved once for all providers.
\<close>

section \<open>The abstract queue\<close>

datatype 'a queue_op = Push 'a | Pop

datatype 'a queue_res = Pushed bool | Popped "'a option"

fun spec_step :: "nat \<Rightarrow> 'a list \<Rightarrow> 'a queue_op \<Rightarrow> 'a queue_res \<times> 'a list" where
  "spec_step n xs (Push v) =
     (if length xs < n then (Pushed True, xs @ [v]) else (Pushed False, xs))"
| "spec_step n xs Pop =
     (case xs of [] \<Rightarrow> (Popped None, []) | x # ys \<Rightarrow> (Popped (Some x), ys))"

fun spec_run :: "nat \<Rightarrow> 'a list \<Rightarrow> 'a queue_op list \<Rightarrow> 'a queue_res list \<times> 'a list" where
  "spec_run n xs [] = ([], xs)"
| "spec_run n xs (p # ps) =
     (case spec_step n xs p of (r, ys) \<Rightarrow>
        (case spec_run n ys ps of (rs, zs) \<Rightarrow> (r # rs, zs)))"

text \<open>The values accepted by, and delivered from, a run.\<close>

fun accepted :: "'a queue_op list \<Rightarrow> 'a queue_res list \<Rightarrow> 'a list" where
  "accepted (Push v # ps) (Pushed True # rs) = v # accepted ps rs"
| "accepted (p # ps) (r # rs) = accepted ps rs"
| "accepted _ _ = []"

fun delivered :: "'a queue_res list \<Rightarrow> 'a list" where
  "delivered [] = []"
| "delivered (Popped (Some x) # rs) = x # delivered rs"
| "delivered (r # rs) = delivered rs"

lemma spec_step_bounded:
  "length xs \<le> n \<Longrightarrow> spec_step n xs p = (r, ys) \<Longrightarrow> length ys \<le> n"
  by (cases p) (auto split: if_splits list.splits)

lemma spec_run_bounded:
  "length xs \<le> n \<Longrightarrow> spec_run n xs ps = (rs, ys) \<Longrightarrow> length ys \<le> n"
proof (induction ps arbitrary: xs rs)
  case (Cons p ps)
  then show ?case
    by (auto split: prod.splits dest: spec_step_bounded)
qed simp

text \<open>Nothing is lost, duplicated or reordered: what was in the queue, followed by what was
  accepted, is what was delivered followed by what is left.\<close>

lemma spec_run_fifo:
  "spec_run n xs ps = (rs, ys) \<Longrightarrow> xs @ accepted ps rs = delivered rs @ ys"
proof (induction ps arbitrary: xs rs)
  case (Cons p ps)
  obtain r zs where step: "spec_step n xs p = (r, zs)" by fastforce
  obtain rs' where run: "spec_run n zs ps = (rs', ys)" and rs: "rs = r # rs'"
    using Cons.prems step by (auto split: prod.splits)
  have IH: "zs @ accepted ps rs' = delivered rs' @ ys" by (rule Cons.IH [OF run])
  show ?case
    using step IH rs by (cases p) (auto split: if_splits list.splits)
qed simp

section \<open>Running an implementation\<close>

fun impl_step ::
    "('q \<Rightarrow> 'a \<Rightarrow> (bool \<times> 'q) option) \<Rightarrow> ('q \<Rightarrow> 'a \<Rightarrow> (bool \<times> 'a \<times> 'q) option) \<Rightarrow> 'a
      \<Rightarrow> 'q \<Rightarrow> 'a queue_op \<Rightarrow> ('a queue_res \<times> 'q) option" where
  "impl_step push pop out q (Push v) =
     map_option (\<lambda>(b, q'). (Pushed b, q')) (push q v)"
| "impl_step push pop out q Pop =
     map_option (\<lambda>(b, x, q'). (Popped (if b then Some x else None), q')) (pop q out)"

fun impl_run ::
    "('q \<Rightarrow> 'a \<Rightarrow> (bool \<times> 'q) option) \<Rightarrow> ('q \<Rightarrow> 'a \<Rightarrow> (bool \<times> 'a \<times> 'q) option) \<Rightarrow> 'a
      \<Rightarrow> 'q \<Rightarrow> 'a queue_op list \<Rightarrow> ('a queue_res list \<times> 'q) option" where
  "impl_run push pop out q [] = Some ([], q)"
| "impl_run push pop out q (p # ps) =
     do { (r, q') \<leftarrow> impl_step push pop out q p;
          (rs, q'') \<leftarrow> impl_run push pop out q' ps;
          Some (r # rs, q'') }"

section \<open>The contract\<close>

locale bounded_fifo =
  fixes invar :: "'q \<Rightarrow> bool"
    and contents :: "'q \<Rightarrow> 'a list"
    and cap :: "'q \<Rightarrow> nat"
    and push :: "'q \<Rightarrow> 'a \<Rightarrow> (bool \<times> 'q) option"
    and pop :: "'q \<Rightarrow> 'a \<Rightarrow> (bool \<times> 'a \<times> 'q) option"
  assumes within_cap: "invar q \<Longrightarrow> length (contents q) \<le> cap q"
    and push_room: "invar q \<Longrightarrow> length (contents q) < cap q \<Longrightarrow>
      \<exists>q'. push q v = Some (True, q') \<and> invar q' \<and> contents q' = contents q @ [v] \<and> cap q' = cap q"
    and push_full: "invar q \<Longrightarrow> length (contents q) = cap q \<Longrightarrow>
      \<exists>q'. push q v = Some (False, q') \<and> invar q' \<and> contents q' = contents q \<and> cap q' = cap q"
    and pop_some: "invar q \<Longrightarrow> contents q = x # xs \<Longrightarrow>
      \<exists>q'. pop q out = Some (True, x, q') \<and> invar q' \<and> contents q' = xs \<and> cap q' = cap q"
    and pop_empty: "invar q \<Longrightarrow> contents q = [] \<Longrightarrow>
      \<exists>q'. pop q out = Some (False, out, q') \<and> invar q' \<and> contents q' = [] \<and> cap q' = cap q"
begin

lemma push_defined:
  assumes "invar q"
  shows "\<exists>b q'. push q v = Some (b, q') \<and> invar q' \<and> cap q' = cap q \<and>
    b = (length (contents q) < cap q) \<and>
    contents q' = (if b then contents q @ [v] else contents q)"
proof (cases "length (contents q) < cap q")
  case True
  then show ?thesis using push_room [OF assms True, of v] by auto
next
  case False
  with within_cap [OF assms] have "length (contents q) = cap q" by simp
  then show ?thesis using push_full [OF assms, of v] by auto
qed

lemma pop_defined:
  assumes "invar q"
  shows "\<exists>b x q'. pop q out = Some (b, x, q') \<and> invar q' \<and> cap q' = cap q \<and>
    b = (contents q \<noteq> []) \<and> x = (if b then hd (contents q) else out) \<and>
    contents q' = (if b then tl (contents q) else [])"
proof (cases "contents q")
  case Nil
  then show ?thesis using pop_empty [OF assms Nil, of out] by auto
next
  case (Cons x xs)
  then show ?thesis using pop_some [OF assms Cons, of out] by auto
qed

lemma impl_step_simulates:
  assumes "invar q"
  shows "\<exists>r q'. impl_step push pop out q p = Some (r, q') \<and> invar q' \<and> cap q' = cap q \<and>
    spec_step (cap q) (contents q) p = (r, contents q')"
proof (cases p)
  case (Push v)
  then show ?thesis using push_defined [OF assms, of v] by (auto split: if_splits)
next
  case Pop
  obtain b x q' where "pop q out = Some (b, x, q')" "invar q'" "cap q' = cap q"
      "b = (contents q \<noteq> [])" "x = (if b then hd (contents q) else out)"
      "contents q' = (if b then tl (contents q) else [])"
    using pop_defined [OF assms, of out] by blast
  with Pop show ?thesis by (cases "contents q") simp_all
qed

text \<open>Every sequence of operations behaves as the abstract queue does on it.\<close>

lemma impl_run_simulates:
  assumes "invar q"
  shows "\<exists>rs q'. impl_run push pop out q ps = Some (rs, q') \<and> invar q' \<and> cap q' = cap q \<and>
    spec_run (cap q) (contents q) ps = (rs, contents q')"
  using assms
proof (induction ps arbitrary: q)
  case (Cons p ps)
  obtain r q1 where 1: "impl_step push pop out q p = Some (r, q1)" "invar q1" "cap q1 = cap q"
      "spec_step (cap q) (contents q) p = (r, contents q1)"
    using impl_step_simulates [OF Cons.prems] by blast
  obtain rs q2 where 2: "impl_run push pop out q1 ps = Some (rs, q2)" "invar q2" "cap q2 = cap q1"
      "spec_run (cap q1) (contents q1) ps = (rs, contents q2)"
    using Cons.IH [OF 1(2)] by blast
  show ?case using 1 2 by simp
qed simp

lemma impl_run_fifo:
  assumes "invar q"
  shows "\<exists>rs q'. impl_run push pop out q ps = Some (rs, q') \<and> invar q' \<and>
    contents q @ accepted ps rs = delivered rs @ contents q' \<and> length (contents q') \<le> cap q"
proof -
  obtain rs q' where run: "impl_run push pop out q ps = Some (rs, q')" "invar q'"
      "spec_run (cap q) (contents q) ps = (rs, contents q')"
    using impl_run_simulates [OF assms] by blast
  from spec_run_fifo [OF run(3)] spec_run_bounded [OF within_cap [OF assms] run(3)] run(1,2)
  show ?thesis by blast
qed

end

end
