(* ===== verification/Spsc_Ring_Buffer.thy ===== *)
theory Spsc_Ring_Buffer
  imports Core_Types Queue_Interface
begin

text \<open>
  \<open>include/aether/spsc_ring_buffer.hpp\<close>: \<open>SpscRingBuffer<T, Capacity>\<close>, called from one thread
  at a time. (The interleaving of a producer with a consumer, and the memory order of the
  atomics, are in \<open>Spsc_Concurrent\<close>.)

  The template argument is the field \<open>rb_capacity\<close>. A slot is raw storage (\<open>None\<close>) or holds a
  live object (\<open>Some v\<close>). \<open>construct_at\<close> on a live slot, and a read or a \<open>destroy_at\<close> on raw
  storage, are lifetime errors and give \<open>None\<close>. The counters are 64-bit words that wrap. The
  constructors of \<open>T\<close> are taken not to throw.
\<close>

section \<open>Slots\<close>

definition construct_at :: "'a option list \<Rightarrow> nat \<Rightarrow> 'a \<Rightarrow> 'a option list option" where
  "construct_at buf i v =
     (if i < length buf \<and> buf ! i = None then Some (buf[i := Some v]) else None)"

definition slot_value :: "'a option list \<Rightarrow> nat \<Rightarrow> 'a option" where
  "slot_value buf i = (if i < length buf then buf ! i else None)"

definition destroy_at :: "'a option list \<Rightarrow> nat \<Rightarrow> 'a option list option" where
  "destroy_at buf i =
     (if i < length buf \<and> buf ! i \<noteq> None then Some (buf[i := None]) else None)"

section \<open>The ring buffer\<close>

record 'a SpscRingBuffer =
  rb_capacity :: size_t
  rb_buffer :: "'a option list"
  rb_head :: size_t
  rb_tail :: size_t

definition static_capacity :: "size_t \<Rightarrow> bool" where
  "static_capacity C \<longleftrightarrow> C AND (C - 1) = 0 \<and> 2 \<le> C"

definition ring_init :: "size_t \<Rightarrow> 'a SpscRingBuffer" where
  "ring_init C = \<lparr>rb_capacity = C, rb_buffer = replicate (unat C) None, rb_head = 0, rb_tail = 0\<rparr>"

text \<open>\<open>slot_ptr\<close>: the index into \<open>buffer_\<close>.\<close>

definition slot_index :: "size_t \<Rightarrow> size_t \<Rightarrow> nat" where
  "slot_index C index = unat (index AND (C - 1))"

definition ring_try_emplace :: "'a SpscRingBuffer \<Rightarrow> 'a \<Rightarrow> (bool \<times> 'a SpscRingBuffer) option" where
  "ring_try_emplace q v =
     (let head = rb_head q; tail = rb_tail q in
      if head - tail \<ge> rb_capacity q then Some (False, q)
      else do {
        buf \<leftarrow> construct_at (rb_buffer q) (slot_index (rb_capacity q) head) v;
        Some (True, q\<lparr>rb_buffer := buf, rb_head := head + 1\<rparr>) })"

definition ring_try_push :: "'a SpscRingBuffer \<Rightarrow> 'a \<Rightarrow> (bool \<times> 'a SpscRingBuffer) option" where
  "ring_try_push q v = ring_try_emplace q v"

definition ring_try_pop ::
    "'a SpscRingBuffer \<Rightarrow> 'a \<Rightarrow> (bool \<times> 'a \<times> 'a SpscRingBuffer) option" where
  "ring_try_pop q out =
     (let tail = rb_tail q; head = rb_head q in
      if tail = head then Some (False, out, q)
      else do {
        let slot = slot_index (rb_capacity q) tail;
        v \<leftarrow> slot_value (rb_buffer q) slot;
        buf \<leftarrow> destroy_at (rb_buffer q) slot;
        Some (True, v, q\<lparr>rb_buffer := buf, rb_tail := tail + 1\<rparr>) })"

definition ring_empty :: "'a SpscRingBuffer \<Rightarrow> bool" where
  "ring_empty q \<longleftrightarrow> rb_head q = rb_tail q"

definition ring_size_approx :: "'a SpscRingBuffer \<Rightarrow> size_t" where
  "ring_size_approx q = rb_head q - rb_tail q"

definition ring_full :: "'a SpscRingBuffer \<Rightarrow> bool" where
  "ring_full q \<longleftrightarrow> ring_size_approx q \<ge> rb_capacity q"

definition ring_capacity :: "'a SpscRingBuffer \<Rightarrow> size_t" where
  "ring_capacity q = rb_capacity q"

text \<open>The destructor's loop \<open>while (tail != head) { destroy_at(slot_ptr(tail)); ++tail; }\<close>.\<close>

function destroy_loop ::
    "size_t \<Rightarrow> 'a option list \<Rightarrow> size_t \<Rightarrow> size_t \<Rightarrow> 'a option list option" where
  "destroy_loop C buf tail head =
     (if tail = head then Some buf
      else case destroy_at buf (slot_index C tail) of
             None \<Rightarrow> None
           | Some buf' \<Rightarrow> destroy_loop C buf' (tail + 1) head)"
  by pat_completeness auto
termination
proof (relation "measure (\<lambda>(C, buf, tail, head). unat (head - tail))")
  fix C :: size_t and buf buf' :: "'a option list" and tail head :: size_t
  assume "tail \<noteq> head"
  then have "unat (head - tail - 1) < unat (head - tail)"
    by (simp add: unat_minus_1 unat_gt_0)
  then show "((C, buf', tail + 1, head), (C, buf, tail, head))
      \<in> measure (\<lambda>(C, buf, tail, head). unat (head - tail))"
    by (simp add: diff_diff_eq)
qed simp

declare destroy_loop.simps [simp del]

definition ring_destroy :: "'a SpscRingBuffer \<Rightarrow> 'a option list option" where
  "ring_destroy q = destroy_loop (rb_capacity q) (rb_buffer q) (rb_tail q) (rb_head q)"

section \<open>Abstraction and invariant\<close>

text \<open>
  \<open>ring_rep q xs\<close>: the ring holds the queue \<open>xs\<close>. Counted from \<open>tail\<close>, the first \<open>length xs\<close>
  slots hold the elements of \<open>xs\<close> in order and every other slot is raw storage.
\<close>

definition ring_rep :: "'a SpscRingBuffer \<Rightarrow> 'a list \<Rightarrow> bool" where
  "ring_rep q xs \<longleftrightarrow>
     static_capacity (rb_capacity q) \<and>
     length (rb_buffer q) = unat (rb_capacity q) \<and>
     length xs \<le> unat (rb_capacity q) \<and>
     rb_head q = rb_tail q + of_nat (length xs) \<and>
     (\<forall>k < unat (rb_capacity q).
        rb_buffer q ! slot_index (rb_capacity q) (rb_tail q + of_nat k) =
          (if k < length xs then Some (xs ! k) else None))"

definition ring_contents :: "'a SpscRingBuffer \<Rightarrow> 'a list" where
  "ring_contents q =
     map (\<lambda>k. the (rb_buffer q ! slot_index (rb_capacity q) (rb_tail q + of_nat k)))
       [0..<unat (rb_head q - rb_tail q)]"

definition ring_inv :: "'a SpscRingBuffer \<Rightarrow> bool" where
  "ring_inv q \<longleftrightarrow> ring_rep q (ring_contents q)"

subsection \<open>Indices\<close>

lemma static_capacity_exponent:
  assumes "static_capacity C"
  shows "\<exists>k < 64. unat C = 2 ^ k"
proof -
  have "C \<noteq> 0" using assms by (auto simp: static_capacity_def)
  then show ?thesis
    using assms word_and_pred_eq_0_iff [of C] by (auto simp: static_capacity_def)
qed

lemma static_capacity_bounds:
  assumes "static_capacity C"
  shows "2 \<le> unat C" "unat C \<le> 2 ^ 63"
proof -
  show "2 \<le> unat C" using assms by (simp add: static_capacity_def word_le_nat_alt)
  obtain k where "k < 64" "unat C = 2 ^ k" using static_capacity_exponent [OF assms] by blast
  then show "unat C \<le> 2 ^ 63" using power_increasing [of k 63 "2::nat"] by simp
qed

lemma slot_index_mod:
  assumes "static_capacity C"
  shows "slot_index C i = unat i mod unat C"
  using static_capacity_exponent [OF assms] by (auto simp: slot_index_def unat_and_mask_mod)

lemma slot_index_offset:
  assumes "static_capacity C"
  shows "slot_index C (t + of_nat k) = (unat t + k) mod unat C"
proof -
  obtain e where e: "e < 64" "unat C = 2 ^ e" using static_capacity_exponent [OF assms] by blast
  have "unat (t + of_nat k) mod unat C = (unat t + k) mod unat C"
    by (rule unat_add_of_nat_mod [OF e(2)]) (use e(1) in simp)
  then show ?thesis using slot_index_mod [OF assms] by simp
qed

lemma slot_index_less:
  assumes "static_capacity C"
  shows "slot_index C i < unat C"
  using static_capacity_bounds(1) [OF assms] by (simp add: slot_index_mod [OF assms])

lemma slot_index_inj:
  assumes "static_capacity C" "j < unat C" "k < unat C"
  shows "slot_index C (t + of_nat j) = slot_index C (t + of_nat k) \<longleftrightarrow> j = k"
  using assms by (auto simp: slot_index_offset intro: mod_add_inj_below)

lemma slot_index_wrap:
  assumes "static_capacity C"
  shows "slot_index C (t + of_nat (unat C)) = slot_index C t"
  using slot_index_offset [OF assms, of t "unat C"] by (simp add: slot_index_mod [OF assms])

subsection \<open>The representation determines the queue\<close>

lemma unat_of_nat_le_cap:
  assumes "static_capacity C" "n \<le> unat C"
  shows "unat (of_nat n :: size_t) = n"
proof -
  have "n < 2 ^ 64" using static_capacity_bounds(2) [OF assms(1)] assms(2) by simp
  then show ?thesis by (simp add: unsigned_of_nat take_bit_eq_mod)
qed

lemma ring_rep_size:
  assumes "ring_rep q xs"
  shows "unat (rb_head q - rb_tail q) = length xs"
  using assms unat_of_nat_le_cap by (auto simp: ring_rep_def)

lemma ring_rep_contents:
  assumes "ring_rep q xs"
  shows "ring_contents q = xs"
proof -
  have "ring_contents q = map ((!) xs) [0..<length xs]"
    using assms unfolding ring_contents_def ring_rep_size [OF assms]
    by (auto simp: ring_rep_def)
  then show ?thesis by (simp add: map_nth)
qed

lemma ring_inv_iff_rep: "ring_inv q \<and> ring_contents q = xs \<longleftrightarrow> ring_rep q xs"
  using ring_rep_contents by (auto simp: ring_inv_def)

lemma ring_invI: "ring_rep q xs \<Longrightarrow> ring_inv q"
  using ring_inv_iff_rep by blast

lemma ring_rep_full_iff:
  assumes "ring_rep q xs"
  shows "rb_capacity q \<le> rb_head q - rb_tail q \<longleftrightarrow> length xs = unat (rb_capacity q)"
  using assms ring_rep_size [OF assms] by (auto simp: word_le_nat_alt ring_rep_def)

lemma ring_rep_empty_iff:
  assumes "ring_rep q xs"
  shows "rb_head q = rb_tail q \<longleftrightarrow> xs = []"
  using ring_rep_size [OF assms] by (metis diff_self eq_iff_diff_eq_0 length_0_conv unat_eq_0)

lemma rb_capacity_ring_init [simp]: "rb_capacity (ring_init C) = C"
  by (simp add: ring_init_def)

lemma ring_init_rep: "static_capacity C \<Longrightarrow> ring_rep (ring_init C) []"
  by (simp add: ring_rep_def ring_init_def slot_index_less)

subsection \<open>Operations\<close>

lemma ring_try_push_full:
  assumes "ring_rep q xs" "length xs = unat (rb_capacity q)"
  shows "ring_try_push q v = Some (False, q)"
  using ring_rep_full_iff [OF assms(1)] assms(2)
  by (simp add: ring_try_push_def ring_try_emplace_def Let_def)

lemma ring_try_push_room:
  assumes rep: "ring_rep q xs" and room: "length xs < unat (rb_capacity q)"
  shows "\<exists>q'. ring_try_push q v = Some (True, q') \<and> ring_rep q' (xs @ [v]) \<and>
    rb_capacity q' = rb_capacity q"
proof -
  let ?C = "rb_capacity q" and ?t = "rb_tail q"
  let ?i = "slot_index ?C (rb_head q)"
  have C: "static_capacity ?C" and len: "length (rb_buffer q) = unat ?C"
    and head: "rb_head q = ?t + of_nat (length xs)"
    and slots: "\<And>k. k < unat ?C \<Longrightarrow> rb_buffer q ! slot_index ?C (?t + of_nat k) =
          (if k < length xs then Some (xs ! k) else None)"
    using rep by (auto simp: ring_rep_def)
  have i: "?i < length (rb_buffer q)" "rb_buffer q ! ?i = None"
    using slots [OF room] slot_index_less [OF C] by (simp_all add: len head)
  let ?q' = "q\<lparr>rb_buffer := (rb_buffer q)[?i := Some v], rb_head := rb_head q + 1\<rparr>"
  have "ring_try_push q v = Some (True, ?q')"
    using ring_rep_full_iff [OF rep] room i
    by (simp add: ring_try_push_def ring_try_emplace_def construct_at_def Let_def)
  moreover have "ring_rep ?q' (xs @ [v])"
  proof -
    have "(rb_buffer q)[?i := Some v] ! slot_index ?C (?t + of_nat k) =
        (if k < length (xs @ [v]) then Some ((xs @ [v]) ! k) else None)" if "k < unat ?C" for k
    proof (cases "k = length xs")
      case True
      then show ?thesis using i by (simp add: head)
    next
      case False
      then have "slot_index ?C (?t + of_nat k) \<noteq> ?i"
        using slot_index_inj [OF C that room] by (simp add: head)
      then show ?thesis using False slots [OF that] by (auto simp: nth_append)
    qed
    then show ?thesis using C len room head by (simp add: ring_rep_def add.assoc)
  qed
  ultimately show ?thesis by auto
qed

lemma ring_try_pop_empty:
  assumes "ring_rep q []"
  shows "ring_try_pop q out = Some (False, out, q)"
  using ring_rep_empty_iff [OF assms] by (simp add: ring_try_pop_def)

lemma ring_try_pop_some:
  assumes rep: "ring_rep q (x # xs)"
  shows "\<exists>q'. ring_try_pop q out = Some (True, x, q') \<and> ring_rep q' xs \<and>
    rb_capacity q' = rb_capacity q"
proof -
  let ?C = "rb_capacity q" and ?t = "rb_tail q"
  let ?i = "slot_index ?C ?t"
  have C: "static_capacity ?C" and len: "length (rb_buffer q) = unat ?C"
    and head: "rb_head q = ?t + of_nat (length (x # xs))" and le: "length (x # xs) \<le> unat ?C"
    and slots: "\<And>k. k < unat ?C \<Longrightarrow> rb_buffer q ! slot_index ?C (?t + of_nat k) =
          (if k < length (x # xs) then Some ((x # xs) ! k) else None)"
    using rep by (auto simp: ring_rep_def)
  have pos: "0 < unat ?C" using le by simp
  have i: "?i < length (rb_buffer q)" "rb_buffer q ! ?i = Some x"
    using slots [OF pos] slot_index_less [OF C] by (simp_all add: len)
  let ?q' = "q\<lparr>rb_buffer := (rb_buffer q)[?i := None], rb_tail := ?t + 1\<rparr>"
  have "ring_try_pop q out = Some (True, x, ?q')"
    using ring_rep_empty_iff [OF rep] i
    by (auto simp: ring_try_pop_def slot_value_def destroy_at_def Let_def)
  moreover have "ring_rep ?q' xs"
  proof -
    have "(rb_buffer q)[?i := None] ! slot_index ?C (?t + 1 + of_nat k) =
        (if k < length xs then Some (xs ! k) else None)" if k: "k < unat ?C" for k
    proof (cases "Suc k = unat ?C")
      case True
      then have "?t + 1 + of_nat k = ?t + of_nat (unat ?C)"
        by (metis of_nat_Suc add.assoc)
      then have "slot_index ?C (?t + 1 + of_nat k) = ?i"
        by (simp only: slot_index_wrap [OF C])
      then show ?thesis using True i le by simp
    next
      case False
      with k have Sk: "Suc k < unat ?C" by simp
      have eq: "?t + 1 + of_nat k = ?t + of_nat (Suc k)" by (simp add: add.assoc)
      have "slot_index ?C (?t + of_nat (Suc k)) \<noteq> ?i"
        using slot_index_inj [OF C Sk pos, of ?t] by simp
      then show ?thesis using slots [OF Sk] unfolding eq by simp
    qed
    then show ?thesis using C len le head by (simp add: ring_rep_def add.assoc)
  qed
  ultimately show ?thesis by auto
qed

text \<open>What the operations do not touch.\<close>

lemma ring_try_push_tail:
  "ring_try_push q v = Some (b, q') \<Longrightarrow> rb_tail q' = rb_tail q \<and> rb_capacity q' = rb_capacity q"
  by (auto simp: ring_try_push_def ring_try_emplace_def Let_def bind_eq_Some_conv split: if_splits)

lemma ring_try_pop_head:
  "ring_try_pop q out = Some (b, x, q') \<Longrightarrow> rb_head q' = rb_head q \<and> rb_capacity q' = rb_capacity q"
  by (auto simp: ring_try_pop_def Let_def bind_eq_Some_conv split: if_splits)

interpretation ring: bounded_fifo ring_inv ring_contents "\<lambda>q. unat (rb_capacity q)"
  ring_try_push ring_try_pop
proof unfold_locales
  fix q :: "'a SpscRingBuffer" and v out :: 'a and x xs
  assume inv: "ring_inv q"
  then have rep: "ring_rep q (ring_contents q)" by (simp add: ring_inv_def)
  show "length (ring_contents q) \<le> unat (rb_capacity q)" using rep by (simp add: ring_rep_def)
  show "\<exists>q'. ring_try_push q v = Some (True, q') \<and> ring_inv q' \<and>
      ring_contents q' = ring_contents q @ [v] \<and> unat (rb_capacity q') = unat (rb_capacity q)"
    if "length (ring_contents q) < unat (rb_capacity q)"
    using ring_try_push_room [OF rep that, of v] by (auto simp: ring_inv_iff_rep [symmetric])
  show "\<exists>q'. ring_try_push q v = Some (False, q') \<and> ring_inv q' \<and>
      ring_contents q' = ring_contents q \<and> unat (rb_capacity q') = unat (rb_capacity q)"
    if "length (ring_contents q) = unat (rb_capacity q)"
    using ring_try_push_full [OF rep that] inv by simp
  show "\<exists>q'. ring_try_pop q out = Some (True, x, q') \<and> ring_inv q' \<and> ring_contents q' = xs \<and>
      unat (rb_capacity q') = unat (rb_capacity q)" if "ring_contents q = x # xs"
    using ring_try_pop_some [of q x xs out] rep that by (auto simp: ring_inv_iff_rep [symmetric])
  show "\<exists>q'. ring_try_pop q out = Some (False, out, q') \<and> ring_inv q' \<and>
      ring_contents q' = [] \<and> unat (rb_capacity q') = unat (rb_capacity q)" if "ring_contents q = []"
    using ring_try_pop_empty [of q out] rep that inv by simp
qed

subsection \<open>Destruction\<close>

lemma slot_index_surj:
  assumes C: "static_capacity C" and "i < unat C"
  shows "\<exists>k < unat C. i = slot_index C (t + of_nat k)"
proof -
  let ?f = "\<lambda>k. slot_index C (t + of_nat k)"
  have "inj_on ?f {..<unat C}" using slot_index_inj [OF C] by (auto simp: inj_on_def)
  moreover have "?f ` {..<unat C} \<subseteq> {..<unat C}" using slot_index_less [OF C] by auto
  ultimately have "?f ` {..<unat C} = {..<unat C}" by (simp add: endo_inj_surj)
  with assms(2) show ?thesis by (metis (no_types, lifting) imageE lessThan_iff)
qed

lemma ring_rep_Nil_buffer:
  assumes rep: "ring_rep q []"
  shows "rb_buffer q = replicate (unat (rb_capacity q)) None"
proof (rule nth_equalityI)
  show "length (rb_buffer q) = length (replicate (unat (rb_capacity q)) None)"
    using rep by (simp add: ring_rep_def)
  fix i assume "i < length (rb_buffer q)"
  then have i: "i < unat (rb_capacity q)" using rep by (simp add: ring_rep_def)
  then obtain k where "k < unat (rb_capacity q)"
      "i = slot_index (rb_capacity q) (rb_tail q + of_nat k)"
    using slot_index_surj [of "rb_capacity q" i "rb_tail q"] rep by (auto simp: ring_rep_def)
  then show "rb_buffer q ! i = replicate (unat (rb_capacity q)) None ! i"
    using rep i by (auto simp: ring_rep_def)
qed

lemma ring_destroy_step:
  assumes "ring_try_pop q out = Some (True, x, q')" "rb_tail q \<noteq> rb_head q"
  shows "ring_destroy q = ring_destroy q'"
  using assms
  by (auto simp: ring_try_pop_def ring_destroy_def Let_def Option.bind_eq_Some_conv
      destroy_loop.simps [of "rb_capacity q" "rb_buffer q" "rb_tail q" "rb_head q"])

lemma ring_rep_destroy:
  "ring_rep q xs \<Longrightarrow> ring_destroy q = Some (replicate (unat (rb_capacity q)) None)"
proof (induction xs arbitrary: q)
  case Nil
  then show ?case
    using ring_rep_empty_iff [OF Nil] ring_rep_Nil_buffer [OF Nil]
    by (simp add: ring_destroy_def destroy_loop.simps)
next
  case (Cons x xs)
  obtain q' where q': "ring_try_pop q x = Some (True, x, q')" "ring_rep q' xs"
      "rb_capacity q' = rb_capacity q"
    using ring_try_pop_some [OF Cons.prems] by blast
  have "rb_tail q \<noteq> rb_head q" using ring_rep_empty_iff [OF Cons.prems] by auto
  then show ?case using ring_destroy_step [OF q'(1)] Cons.IH [OF q'(2)] q'(3) by simp
qed

lemma ring_init_inv:
  "static_capacity C \<Longrightarrow> ring_inv (ring_init C)"
  "static_capacity C \<Longrightarrow> ring_contents (ring_init C) = []"
  using ring_init_rep ring_inv_iff_rep by blast+

lemma ring_full_iff: "ring_inv q \<Longrightarrow> ring_full q \<longleftrightarrow> length (ring_contents q) = unat (rb_capacity q)"
  using ring_rep_full_iff by (auto simp: ring_inv_def ring_full_def ring_size_approx_def)

lemma ring_empty_iff: "ring_inv q \<Longrightarrow> ring_empty q \<longleftrightarrow> ring_contents q = []"
  using ring_rep_empty_iff by (auto simp: ring_inv_def ring_empty_def)

lemma ring_size_approx_exact:
  "ring_inv q \<Longrightarrow> unat (ring_size_approx q) = length (ring_contents q)"
  using ring_rep_size by (auto simp: ring_inv_def ring_size_approx_def)

section \<open>Properties\<close>

text \<open>
  C4. Functional refinement. From any well-formed ring, wherever its 64-bit counters stand, every
  sequence of \<open>try_push\<close> and \<open>try_pop\<close> calls runs without a lifetime error or an access outside
  the buffer, gives exactly the results the abstract bounded queue gives, and ends in a
  well-formed ring that holds the abstract queue's contents.
\<close>
theorem ring_refines_bounded_queue:
  assumes "ring_inv q"
  shows "\<exists>q'. impl_run ring_try_push ring_try_pop out q ps =
      Some (fst (spec_run (unat (rb_capacity q)) (ring_contents q) ps), q') \<and>
    ring_inv q' \<and> rb_capacity q' = rb_capacity q \<and>
    ring_contents q' = snd (spec_run (unat (rb_capacity q)) (ring_contents q) ps)"
  using ring.impl_run_simulates [OF assms, of out ps] by (auto simp: word_unat_eq_iff)

text \<open>A ring of capacity 4 whose counters stand at the end of the 64-bit range, holding one value:
  the next push wraps \<open>head_\<close> to 0.\<close>

definition wrapping_ring :: "nat SpscRingBuffer" where
  "wrapping_ring = \<lparr>rb_capacity = 4, rb_buffer = [None, None, Some 7, None],
     rb_head = 2 ^ 64 - 1, rb_tail = 2 ^ 64 - 2\<rparr>"

lemma wrapping_ring_rep: "ring_rep wrapping_ring [7]"
proof -
  have "(\<forall>k < 4. P k) \<longleftrightarrow> P 0 \<and> P 1 \<and> P 2 \<and> P 3" for P :: "nat \<Rightarrow> bool"
    by (auto simp: numeral_eq_Suc All_less_Suc)
  then show ?thesis
    by (simp add: ring_rep_def wrapping_ring_def static_capacity_def slot_index_def)
qed

theorem ring_refines_bounded_queue_witness:
  "ring_inv wrapping_ring \<and>
   (\<exists>q'. impl_run ring_try_push ring_try_pop 0 wrapping_ring [Push 8, Push 9, Pop, Pop, Pop, Pop] =
      Some ([Pushed True, Pushed True, Popped (Some 7), Popped (Some 8), Popped (Some 9),
             Popped None], q') \<and> ring_contents q' = [])"
proof -
  have inv: "ring_inv wrapping_ring" "ring_contents wrapping_ring = [7]"
    using wrapping_ring_rep ring_inv_iff_rep by blast+
  have cap: "unat (rb_capacity wrapping_ring) = 4" by (simp add: wrapping_ring_def)
  show ?thesis
    using ring_refines_bounded_queue [OF inv(1), of 0 "[Push 8, Push 9, Pop, Pop, Pop, Pop]"] inv
    by (auto simp: cap)
qed

text \<open>
  C19. FIFO delivery without loss or duplication. From a newly constructed queue of any admissible
  template capacity, the values \<open>try_push\<close> accepted are exactly, and in order, the values
  \<open>try_pop\<close> delivered followed by those still in the queue, which never holds more than \<open>Capacity\<close>.
\<close>
theorem ring_fifo:
  assumes "static_capacity C"
  shows "\<exists>rs q'. impl_run ring_try_push ring_try_pop out (ring_init C) ps = Some (rs, q') \<and>
    accepted ps rs = delivered rs @ ring_contents q' \<and> length (ring_contents q') \<le> unat C"
  using ring.impl_run_fifo [OF ring_init_inv(1) [OF assms], of out ps]
  by (auto simp: ring_init_inv(2) [OF assms])

theorem ring_fifo_witness:
  "static_capacity 2 \<and>
   (\<exists>rs q'. impl_run ring_try_push ring_try_pop 0 (ring_init 2)
      [Push 1, Push 2, Push (3::nat), Pop, Push 4] = Some (rs, q') \<and>
    accepted [Push 1, Push 2, Push 3, Pop, Push 4] rs = delivered rs @ ring_contents q')"
proof -
  have C: "static_capacity 2" by (simp add: static_capacity_def)
  show ?thesis
    using ring_fifo [OF C, of 0 "[Push 1, Push 2, Push 3, Pop, Push 4]"] C by blast
qed

text \<open>
  The destructor ends the lifetime of exactly the live objects: on every well-formed ring the
  loop of \<open>destroy_remaining\<close> terminates, destroys no slot twice and no raw slot, and leaves all
  slots raw.
\<close>
theorem ring_destroy_all:
  assumes "ring_inv q"
  shows "ring_destroy q = Some (replicate (unat (rb_capacity q)) None)"
  using assms by (auto simp: ring_inv_def intro: ring_rep_destroy)

theorem ring_destroy_all_witness:
  "ring_inv wrapping_ring \<and> ring_destroy wrapping_ring = Some [None, None, None, None]"
proof -
  have inv: "ring_inv wrapping_ring" using wrapping_ring_rep by (rule ring_invI)
  have cap: "unat (rb_capacity wrapping_ring) = 4" by (simp add: wrapping_ring_def)
  have "replicate 4 None = [None, None, None, None]" by (simp add: numeral_eq_Suc)
  then show ?thesis using inv ring_destroy_all [OF inv] by (simp add: cap)
qed

text \<open>
  The observers are exact when the queue is quiescent: \<open>empty()\<close>, \<open>full()\<close> and
  \<open>size_approx()\<close> report on the abstract contents, although they compute on wrapping counters.
\<close>
theorem ring_observers_exact:
  assumes "ring_inv q"
  shows "(ring_empty q \<longleftrightarrow> ring_contents q = []) \<and>
    (ring_full q \<longleftrightarrow> length (ring_contents q) = unat (rb_capacity q)) \<and>
    unat (ring_size_approx q) = length (ring_contents q)"
  using assms by (simp_all add: ring_empty_iff ring_full_iff ring_size_approx_exact)

theorem ring_observers_exact_witness:
  "ring_inv wrapping_ring \<and> \<not> ring_empty wrapping_ring \<and> \<not> ring_full wrapping_ring \<and>
   unat (ring_size_approx wrapping_ring) = 1"
proof -
  have inv: "ring_inv wrapping_ring" "ring_contents wrapping_ring = [7]"
    using wrapping_ring_rep ring_inv_iff_rep by blast+
  have cap: "unat (rb_capacity wrapping_ring) = 4" by (simp add: wrapping_ring_def)
  show ?thesis using ring_observers_exact [OF inv(1)] inv cap by simp
qed

end
