(* ===== verification/Metrics_Counters.thy ===== *)
theory Metrics_Counters
  imports Aether_Prelude
begin

text \<open>
  \<open>include/aether/metrics/counters.hpp\<close> and \<open>snapshot.hpp\<close>: the counters of a broker. A relaxed
  \<open>fetch_add\<close> on a \<open>std::atomic<std::uint64_t>\<close> that one thread updates is an addition modulo
  \<open>2 ^ 64\<close>.
\<close>

record BrokerMetricsSnapshot =
  ms_published :: u64
  ms_consumed :: u64
  ms_publish_failed_full :: u64
  ms_consume_failed_empty :: u64
  ms_publish_failed_invalid :: u64
  ms_consume_failed_invalid :: u64
  ms_wal_bytes_written :: u64
  ms_wal_records_written :: u64
  ms_wal_flushes :: u64
  ms_wal_failures :: u64
  ms_recovered_records :: u64
  ms_recovery_failures :: u64

record BrokerCounters =
  ct_published :: u64
  ct_consumed :: u64
  ct_publish_failed_full :: u64
  ct_consume_failed_empty :: u64
  ct_publish_failed_invalid :: u64
  ct_consume_failed_invalid :: u64
  ct_wal_bytes_written :: u64
  ct_wal_records_written :: u64
  ct_wal_flushes :: u64
  ct_wal_failures :: u64
  ct_recovered_records :: u64
  ct_recovery_failures :: u64

definition counters_init :: BrokerCounters where
  "counters_init = \<lparr>ct_published = 0, ct_consumed = 0,
     ct_publish_failed_full = 0, ct_consume_failed_empty = 0,
     ct_publish_failed_invalid = 0, ct_consume_failed_invalid = 0,
     ct_wal_bytes_written = 0, ct_wal_records_written = 0,
     ct_wal_flushes = 0, ct_wal_failures = 0,
     ct_recovered_records = 0, ct_recovery_failures = 0\<rparr>"

definition increment :: "u64 \<Rightarrow> u64" where
  "increment counter = counter + 1"

definition record_published :: "BrokerCounters \<Rightarrow> BrokerCounters" where
  "record_published c = c\<lparr>ct_published := increment (ct_published c)\<rparr>"

definition record_consumed :: "BrokerCounters \<Rightarrow> BrokerCounters" where
  "record_consumed c = c\<lparr>ct_consumed := increment (ct_consumed c)\<rparr>"

definition record_publish_failed_full :: "BrokerCounters \<Rightarrow> BrokerCounters" where
  "record_publish_failed_full c = c\<lparr>ct_publish_failed_full := increment (ct_publish_failed_full c)\<rparr>"

definition record_consume_failed_empty :: "BrokerCounters \<Rightarrow> BrokerCounters" where
  "record_consume_failed_empty c = c\<lparr>ct_consume_failed_empty := increment (ct_consume_failed_empty c)\<rparr>"

definition record_publish_failed_invalid :: "BrokerCounters \<Rightarrow> BrokerCounters" where
  "record_publish_failed_invalid c = c\<lparr>ct_publish_failed_invalid := increment (ct_publish_failed_invalid c)\<rparr>"

definition record_consume_failed_invalid :: "BrokerCounters \<Rightarrow> BrokerCounters" where
  "record_consume_failed_invalid c = c\<lparr>ct_consume_failed_invalid := increment (ct_consume_failed_invalid c)\<rparr>"

definition record_wal_write :: "u64 \<Rightarrow> BrokerCounters \<Rightarrow> BrokerCounters" where
  "record_wal_write bytes c = c\<lparr>ct_wal_records_written := increment (ct_wal_records_written c),
     ct_wal_bytes_written := ct_wal_bytes_written c + bytes\<rparr>"

definition record_wal_flush :: "BrokerCounters \<Rightarrow> BrokerCounters" where
  "record_wal_flush c = c\<lparr>ct_wal_flushes := increment (ct_wal_flushes c)\<rparr>"

definition record_wal_failure :: "BrokerCounters \<Rightarrow> BrokerCounters" where
  "record_wal_failure c = c\<lparr>ct_wal_failures := increment (ct_wal_failures c)\<rparr>"

definition record_recovered_record :: "BrokerCounters \<Rightarrow> BrokerCounters" where
  "record_recovered_record c = c\<lparr>ct_recovered_records := increment (ct_recovered_records c)\<rparr>"

definition record_recovery_failure :: "BrokerCounters \<Rightarrow> BrokerCounters" where
  "record_recovery_failure c = c\<lparr>ct_recovery_failures := increment (ct_recovery_failures c)\<rparr>"

definition counters_snapshot :: "BrokerCounters \<Rightarrow> BrokerMetricsSnapshot" where
  "counters_snapshot c = \<lparr>ms_published = ct_published c,
     ms_consumed = ct_consumed c,
     ms_publish_failed_full = ct_publish_failed_full c,
     ms_consume_failed_empty = ct_consume_failed_empty c,
     ms_publish_failed_invalid = ct_publish_failed_invalid c,
     ms_consume_failed_invalid = ct_consume_failed_invalid c,
     ms_wal_bytes_written = ct_wal_bytes_written c,
     ms_wal_records_written = ct_wal_records_written c,
     ms_wal_flushes = ct_wal_flushes c,
     ms_wal_failures = ct_wal_failures c,
     ms_recovered_records = ct_recovered_records c,
     ms_recovery_failures = ct_recovery_failures c\<rparr>"

definition counters_reset :: "BrokerCounters \<Rightarrow> BrokerCounters" where
  "counters_reset c = c\<lparr>ct_published := 0, ct_consumed := 0,
     ct_publish_failed_full := 0, ct_consume_failed_empty := 0,
     ct_publish_failed_invalid := 0, ct_consume_failed_invalid := 0,
     ct_wal_bytes_written := 0, ct_wal_records_written := 0,
     ct_wal_flushes := 0, ct_wal_failures := 0,
     ct_recovered_records := 0, ct_recovery_failures := 0\<rparr>"

lemmas counter_ops [counter_simps] = increment_def record_published_def record_consumed_def
  record_publish_failed_full_def record_consume_failed_empty_def record_publish_failed_invalid_def
  record_consume_failed_invalid_def record_wal_write_def record_wal_flush_def record_wal_failure_def
  record_recovered_record_def record_recovery_failure_def

lemma counters_reset_init [simp]: "counters_reset c = counters_init"
  by (simp add: counters_reset_def counters_init_def)

lemma counters_init_simps [simp]:
  "ct_published counters_init = 0" "ct_consumed counters_init = 0"
  "ct_publish_failed_full counters_init = 0" "ct_consume_failed_empty counters_init = 0"
  "ct_wal_bytes_written counters_init = 0" "ct_wal_records_written counters_init = 0"
  "ct_wal_failures counters_init = 0" "ct_recovered_records counters_init = 0"
  "ct_recovery_failures counters_init = 0"
  by (simp_all add: counters_init_def)

end
