(* ===== verification/Broker_Interface.thy ===== *)
theory Broker_Interface
  imports Queue_Interface Core_Types Metrics_Counters
begin

text \<open>
  The contract that the in-memory brokers share: a bounded FIFO queue whose operations report
  their outcome as a status and count it. It extends the queue contract (\<open>bounded_fifo\<close>), so what
  is proved there of every sequence of operations holds of every broker; what is added here is the
  meaning of the counters.
\<close>

section \<open>A broker seen as a queue\<close>

definition status_push ::
    "('b \<Rightarrow> 'a \<Rightarrow> (Status \<times> 'b) option) \<Rightarrow> 'b \<Rightarrow> 'a \<Rightarrow> (bool \<times> 'b) option" where
  "status_push publish b v = map_option (\<lambda>(st, b'). (is_ok st, b')) (publish b v)"

definition status_pop ::
    "('b \<Rightarrow> 'a \<Rightarrow> (Status \<times> 'a \<times> 'b) option) \<Rightarrow> 'b \<Rightarrow> 'a \<Rightarrow> (bool \<times> 'a \<times> 'b) option" where
  "status_pop consume b out = map_option (\<lambda>(st, x, b'). (is_ok st, x, b')) (consume b out)"

text \<open>What a run of operations should have counted.\<close>

fun count_result :: "'a queue_res \<Rightarrow> BrokerCounters \<Rightarrow> BrokerCounters" where
  "count_result (Pushed True) c = record_published c"
| "count_result (Pushed False) c = record_publish_failed_full c"
| "count_result (Popped (Some x)) c = record_consumed c"
| "count_result (Popped None) c = record_consume_failed_empty c"

definition count_results :: "'a queue_res list \<Rightarrow> BrokerCounters \<Rightarrow> BrokerCounters" where
  "count_results rs c = fold count_result rs c"

lemma count_results_simps [simp]:
  "count_results [] c = c" "count_results (r # rs) c = count_results rs (count_result r c)"
  by (simp_all add: count_results_def)

lemma count_results_totals:
  "ct_published (count_results rs c) = ct_published c + of_nat (count_list rs (Pushed True)) \<and>
   ct_consumed (count_results rs c) = ct_consumed c + of_nat (length (delivered rs)) \<and>
   ct_publish_failed_full (count_results rs c) =
     ct_publish_failed_full c + of_nat (count_list rs (Pushed False)) \<and>
   ct_consume_failed_empty (count_results rs c) =
     ct_consume_failed_empty c + of_nat (count_list rs (Popped None))"
proof (induction rs arbitrary: c)
  case (Cons r rs)
  consider "r = Pushed True" | "r = Pushed False" | x where "r = Popped (Some x)" | "r = Popped None"
    by (metis (full_types) queue_res.exhaust option.exhaust)
  then show ?case using Cons.IH [of "count_result r c"] by cases (simp_all add: counter_simps)
qed simp

text \<open>The number of successful pushes is the number of accepted values.\<close>

lemma count_pushed_accepted:
  "spec_run n xs ps = (rs, ys) \<Longrightarrow> count_list rs (Pushed True) = length (accepted ps rs)"
proof (induction ps arbitrary: xs rs)
  case (Cons p ps)
  obtain r zs where step: "spec_step n xs p = (r, zs)" by fastforce
  obtain rs' where run: "spec_run n zs ps = (rs', ys)" and rs: "rs = r # rs'"
    using Cons.prems step by (auto split: prod.splits)
  show ?case
    using step Cons.IH [OF run] rs by (cases p) (auto split: if_splits list.splits)
qed simp

section \<open>The contract\<close>

locale message_broker =
  fixes invar :: "'b \<Rightarrow> bool"
    and contents :: "'b \<Rightarrow> 'a list"
    and cap :: "'b \<Rightarrow> nat"
    and counters :: "'b \<Rightarrow> BrokerCounters"
    and publish :: "'b \<Rightarrow> 'a \<Rightarrow> (Status \<times> 'b) option"
    and consume :: "'b \<Rightarrow> 'a \<Rightarrow> (Status \<times> 'a \<times> 'b) option"
  assumes fill: "invar b \<Longrightarrow> length (contents b) \<le> cap b"
    and publish_room: "invar b \<Longrightarrow> length (contents b) < cap b \<Longrightarrow>
      \<exists>b'. publish b v = Some (status_ok, b') \<and> invar b' \<and> contents b' = contents b @ [v] \<and>
        cap b' = cap b \<and> counters b' = record_published (counters b)"
    and publish_full: "invar b \<Longrightarrow> length (contents b) = cap b \<Longrightarrow>
      \<exists>st b'. publish b v = Some (st, b') \<and> st_code st = Full \<and> invar b' \<and>
        contents b' = contents b \<and> cap b' = cap b \<and>
        counters b' = record_publish_failed_full (counters b)"
    and consume_some: "invar b \<Longrightarrow> contents b = x # xs \<Longrightarrow>
      \<exists>b'. consume b out = Some (status_ok, x, b') \<and> invar b' \<and> contents b' = xs \<and>
        cap b' = cap b \<and> counters b' = record_consumed (counters b)"
    and consume_empty: "invar b \<Longrightarrow> contents b = [] \<Longrightarrow>
      \<exists>st b'. consume b out = Some (st, out, b') \<and> st_code st = Empty \<and> invar b' \<and>
        contents b' = [] \<and> cap b' = cap b \<and> counters b' = record_consume_failed_empty (counters b)"

sublocale message_broker \<subseteq> bounded_fifo invar contents cap "status_push publish" "status_pop consume"
proof unfold_locales
  fix b v out x xs
  assume inv: "invar b"
  show "length (contents b) \<le> cap b" by (rule fill [OF inv])
  show "\<exists>b'. status_push publish b v = Some (True, b') \<and> invar b' \<and> contents b' = contents b @ [v] \<and>
      cap b' = cap b" if "length (contents b) < cap b"
    using publish_room [OF inv that, of v] by (auto simp: status_push_def)
  show "\<exists>b'. status_push publish b v = Some (False, b') \<and> invar b' \<and> contents b' = contents b \<and>
      cap b' = cap b" if "length (contents b) = cap b"
    using publish_full [OF inv that, of v] by (auto simp: status_push_def is_ok_def)
  show "\<exists>b'. status_pop consume b out = Some (True, x, b') \<and> invar b' \<and> contents b' = xs \<and>
      cap b' = cap b" if "contents b = x # xs"
    using consume_some [OF inv that, of out] by (auto simp: status_pop_def)
  show "\<exists>b'. status_pop consume b out = Some (False, out, b') \<and> invar b' \<and> contents b' = [] \<and>
      cap b' = cap b" if "contents b = []"
    using consume_empty [OF inv that, of out] by (auto simp: status_pop_def is_ok_def)
qed

context message_broker
begin

lemma step_counts:
  assumes "invar b" "impl_step (status_push publish) (status_pop consume) out b p = Some (r, b')"
  shows "counters b' = count_result r (counters b)"
proof (cases p)
  case (Push v)
  then show ?thesis
    using assms fill [OF assms(1)] publish_room [OF assms(1), of v] publish_full [OF assms(1), of v]
    by (cases "length (contents b) < cap b") (auto simp: status_push_def is_ok_def)
next
  case Pop
  then show ?thesis
    using assms consume_some [OF assms(1), of _ _ out] consume_empty [OF assms(1), of out]
    by (cases "contents b") (fastforce simp: status_pop_def is_ok_def)+
qed

text \<open>The counters of a run: one count per operation, under its outcome.\<close>

lemma run_counts:
  assumes "invar b" "impl_run (status_push publish) (status_pop consume) out b ps = Some (rs, b')"
  shows "counters b' = count_results rs (counters b)"
  using assms
proof (induction ps arbitrary: b rs)
  case (Cons p ps)
  obtain r b1 where step: "impl_step (status_push publish) (status_pop consume) out b p = Some (r, b1)"
      "invar b1"
    using impl_step_simulates [OF Cons.prems(1)] by blast
  obtain rs' where "impl_run (status_push publish) (status_pop consume) out b1 ps = Some (rs', b')"
      "rs = r # rs'"
    using Cons.prems(2) step(1) by (auto simp: bind_eq_Some_conv)
  then show ?case using Cons.IH [OF step(2)] step_counts [OF Cons.prems(1) step(1)] by simp
qed simp

lemma run_accounting:
  assumes "invar b"
  shows "\<exists>rs b'. impl_run (status_push publish) (status_pop consume) out b ps = Some (rs, b') \<and>
    invar b' \<and> counters b' = count_results rs (counters b) \<and>
    contents b @ accepted ps rs = delivered rs @ contents b' \<and>
    ct_published (counters b') = ct_published (counters b) + of_nat (length (accepted ps rs)) \<and>
    ct_consumed (counters b') = ct_consumed (counters b) + of_nat (length (delivered rs))"
proof -
  obtain rs b' where run: "impl_run (status_push publish) (status_pop consume) out b ps = Some (rs, b')"
      "invar b'" "spec_run (cap b) (contents b) ps = (rs, contents b')"
    using impl_run_simulates [OF assms] by blast
  then show ?thesis
    using run_counts [OF assms run(1)] spec_run_fifo [OF run(3)] count_pushed_accepted [OF run(3)]
      count_results_totals [of rs "counters b"] by auto
qed

end

end
