(* ===== verification/Broker.thy ===== *)
theory Broker
  imports Spsc_Ring_Buffer Broker_Interface Wal_Record
begin

text \<open>
  \<open>include/aether/broker.hpp\<close> and \<open>src/broker.cpp\<close>: the in-memory broker, a ring buffer with
  status codes and counters, and the checks of configurations against a broker's template
  parameters. \<open>try_publish(const T&)\<close> and \<open>try_publish(T&&)\<close> have one body and act on
  the value; \<open>try_emplace\<close> is given the value its arguments construct.
\<close>

section \<open>Configuration checks\<close>

datatype BrokerDurabilityMode = In_memory | Wal_before_queue

fun broker_durability_mode_name :: "BrokerDurabilityMode \<Rightarrow> string" where
  "broker_durability_mode_name In_memory = ''in_memory''"
| "broker_durability_mode_name Wal_before_queue = ''wal_before_queue''"

definition validate_queue_config_for_capacity :: "QueueConfig \<Rightarrow> size_t \<Rightarrow> Status" where
  "validate_queue_config_for_capacity config static_cap =
     (let status = validate_queue_config config in
      if \<not> is_ok status then status
      else if qc_capacity config \<noteq> static_cap then
        mk_status Invalid_argument ''queue config capacity does not match broker template capacity''
      else status_ok)"

definition validate_wal_config_for_payload :: "WalConfig \<Rightarrow> size_t \<Rightarrow> Status" where
  "validate_wal_config_for_payload config payload_size =
     (let status = validate_wal_config config in
      if \<not> is_ok status then status
      else if payload_size > ucast max_payload_size then
        mk_status Invalid_argument ''broker payload too large for WAL record''
      else if wc_file_size_bytes config < ucast wal_record_header_size + payload_size then
        mk_status Invalid_argument ''wal file size must fit at least one broker record''
      else status_ok)"

section \<open>Model\<close>

record 'a Broker =
  bk_config_status :: Status
  bk_queue :: "'a SpscRingBuffer"
  bk_counters :: BrokerCounters

definition broker_init :: "size_t \<Rightarrow> 'a Broker" where
  "broker_init C =
     \<lparr>bk_config_status = status_ok, bk_queue = ring_init C, bk_counters = counters_init\<rparr>"

definition broker_init_config :: "size_t \<Rightarrow> QueueConfig \<Rightarrow> 'a Broker" where
  "broker_init_config C config =
     (broker_init C)\<lparr>bk_config_status := validate_queue_config_for_capacity config C\<rparr>"

definition broker_valid :: "'a Broker \<Rightarrow> bool" where
  "broker_valid b \<longleftrightarrow> is_ok (bk_config_status b)"

definition broker_metrics_snapshot :: "'a Broker \<Rightarrow> BrokerMetricsSnapshot" where
  "broker_metrics_snapshot b = counters_snapshot (bk_counters b)"

definition broker_reset_metrics :: "'a Broker \<Rightarrow> 'a Broker" where
  "broker_reset_metrics b = b\<lparr>bk_counters := counters_reset (bk_counters b)\<rparr>"

definition broker_try_publish :: "'a Broker \<Rightarrow> 'a \<Rightarrow> (Status \<times> 'a Broker) option" where
  "broker_try_publish b v =
     (if \<not> broker_valid b then
        Some (bk_config_status b, b\<lparr>bk_counters := record_publish_failed_invalid (bk_counters b)\<rparr>)
      else do {
        (pushed, q) \<leftarrow> ring_try_push (bk_queue b) v;
        let b = b\<lparr>bk_queue := q\<rparr>;
        if \<not> pushed then
          Some (mk_status Full ''broker queue is full'',
                b\<lparr>bk_counters := record_publish_failed_full (bk_counters b)\<rparr>)
        else Some (status_ok, b\<lparr>bk_counters := record_published (bk_counters b)\<rparr>) })"

definition broker_try_emplace :: "'a Broker \<Rightarrow> 'a \<Rightarrow> (Status \<times> 'a Broker) option" where
  "broker_try_emplace b v =
     (if \<not> broker_valid b then
        Some (bk_config_status b, b\<lparr>bk_counters := record_publish_failed_invalid (bk_counters b)\<rparr>)
      else do {
        (pushed, q) \<leftarrow> ring_try_emplace (bk_queue b) v;
        let b = b\<lparr>bk_queue := q\<rparr>;
        if \<not> pushed then
          Some (mk_status Full ''broker queue is full'',
                b\<lparr>bk_counters := record_publish_failed_full (bk_counters b)\<rparr>)
        else Some (status_ok, b\<lparr>bk_counters := record_published (bk_counters b)\<rparr>) })"

definition broker_try_consume :: "'a Broker \<Rightarrow> 'a \<Rightarrow> (Status \<times> 'a \<times> 'a Broker) option" where
  "broker_try_consume b out =
     (if \<not> broker_valid b then
        Some (bk_config_status b, out,
              b\<lparr>bk_counters := record_consume_failed_invalid (bk_counters b)\<rparr>)
      else do {
        (popped, out, q) \<leftarrow> ring_try_pop (bk_queue b) out;
        let b = b\<lparr>bk_queue := q\<rparr>;
        if \<not> popped then
          Some (mk_status Empty ''broker queue is empty'', out,
                b\<lparr>bk_counters := record_consume_failed_empty (bk_counters b)\<rparr>)
        else Some (status_ok, out, b\<lparr>bk_counters := record_consumed (bk_counters b)\<rparr>) })"

definition broker_empty :: "'a Broker \<Rightarrow> bool" where
  "broker_empty b = ring_empty (bk_queue b)"

definition broker_full :: "'a Broker \<Rightarrow> bool" where
  "broker_full b = ring_full (bk_queue b)"

definition broker_size_approx :: "'a Broker \<Rightarrow> size_t" where
  "broker_size_approx b = ring_size_approx (bk_queue b)"

definition broker_durability_mode :: BrokerDurabilityMode where
  "broker_durability_mode = In_memory"

section \<open>The broker fulfils the broker contract\<close>

lemma ring_cap_eq: "unat (rb_capacity q) = unat (rb_capacity q') \<longleftrightarrow> rb_capacity q = rb_capacity q'"
  by (simp add: word_unat_eq_iff)

definition broker_ok :: "'a Broker \<Rightarrow> bool" where
  "broker_ok b \<longleftrightarrow> broker_valid b \<and> ring_inv (bk_queue b)"

definition broker_contents :: "'a Broker \<Rightarrow> 'a list" where
  "broker_contents b = ring_contents (bk_queue b)"

definition broker_capacity :: "'a Broker \<Rightarrow> nat" where
  "broker_capacity b = unat (rb_capacity (bk_queue b))"

lemmas broker_defs = broker_ok_def broker_contents_def broker_capacity_def broker_valid_def

interpretation broker: message_broker broker_ok broker_contents broker_capacity bk_counters
  broker_try_publish broker_try_consume
proof unfold_locales
  fix b :: "'a Broker" and v out :: 'a and x xs
  assume ok: "broker_ok b"
  then have inv: "ring_inv (bk_queue b)" and v: "broker_valid b" by (simp_all add: broker_ok_def)
  show "length (broker_contents b) \<le> broker_capacity b"
    using ring.within_cap [OF inv] by (simp add: broker_defs)
  show "\<exists>b'. broker_try_publish b v = Some (status_ok, b') \<and> broker_ok b' \<and>
      broker_contents b' = broker_contents b @ [v] \<and> broker_capacity b' = broker_capacity b \<and>
      bk_counters b' = record_published (bk_counters b)"
    if "length (broker_contents b) < broker_capacity b"
    using ring.push_room [OF inv, of v] that v by (auto simp: broker_try_publish_def broker_defs)
  show "\<exists>st b'. broker_try_publish b v = Some (st, b') \<and> st_code st = Full \<and> broker_ok b' \<and>
      broker_contents b' = broker_contents b \<and> broker_capacity b' = broker_capacity b \<and>
      bk_counters b' = record_publish_failed_full (bk_counters b)"
    if "length (broker_contents b) = broker_capacity b"
    using ring.push_full [OF inv, of v] that v by (auto simp: broker_try_publish_def broker_defs)
  show "\<exists>b'. broker_try_consume b out = Some (status_ok, x, b') \<and> broker_ok b' \<and>
      broker_contents b' = xs \<and> broker_capacity b' = broker_capacity b \<and>
      bk_counters b' = record_consumed (bk_counters b)" if "broker_contents b = x # xs"
    using ring.pop_some [OF inv, of x xs out] that v by (auto simp: broker_try_consume_def broker_defs)
  show "\<exists>st b'. broker_try_consume b out = Some (st, out, b') \<and> st_code st = Empty \<and> broker_ok b' \<and>
      broker_contents b' = [] \<and> broker_capacity b' = broker_capacity b \<and>
      bk_counters b' = record_consume_failed_empty (bk_counters b)" if "broker_contents b = []"
    using ring.pop_empty [OF inv, of out] that v by (auto simp: broker_try_consume_def broker_defs)
qed

lemma bk_counters_init [simp]: "bk_counters (broker_init C) = counters_init"
  by (simp add: broker_init_def)

lemma broker_init_ok:
  assumes "static_capacity C"
  shows "broker_ok (broker_init C)" "broker_contents (broker_init C) = []"
    "broker_capacity (broker_init C) = unat C"
  using ring_init_inv [OF assms] by (simp_all add: broker_defs broker_init_def)

lemma validate_queue_config_for_capacity_ok_iff [status_simps]:
  assumes "static_capacity C"
  shows "is_ok (validate_queue_config_for_capacity config C) \<longleftrightarrow> qc_capacity config = C"
proof -
  have "is_power_of_two C" using assms by (auto simp: is_power_of_two_def static_capacity_def)
  then show ?thesis by (auto simp: validate_queue_config_for_capacity_def Let_def status_simps)
qed

lemma broker_size_exact:
  assumes "broker_ok b"
  shows "broker_size_approx b = of_nat (length (broker_contents b))"
proof -
  have "unat (broker_size_approx b) = length (broker_contents b)"
    using ring_size_approx_exact [of "bk_queue b"] assms
    by (simp add: broker_size_approx_def broker_defs)
  from arg_cong [OF this, of "of_nat :: nat \<Rightarrow> u64"] show ?thesis by simp
qed

section \<open>Properties\<close>

text \<open>
  C20. Broker accounting. From a new broker, any sequence of \<open>try_publish\<close> and \<open>try_consume\<close> calls
  runs without undefined behaviour; the messages published with \<open>ok\<close> are exactly, in order, those
  consumed followed by those still queued; the counters have counted every call under its outcome,
  modulo \<open>2 ^ 64\<close>; and \<open>size_approx()\<close> is the published count minus the consumed count.
\<close>

theorem broker_accounting:
  assumes "static_capacity C"
  shows "\<exists>rs b'. impl_run (status_push broker_try_publish) (status_pop broker_try_consume) out
      (broker_init C) ps = Some (rs, b') \<and>
    accepted ps rs = delivered rs @ broker_contents b' \<and>
    bk_counters b' = count_results rs counters_init \<and>
    ct_published (bk_counters b') = of_nat (length (accepted ps rs)) \<and>
    ct_consumed (bk_counters b') = of_nat (length (delivered rs)) \<and>
    broker_size_approx b' = ct_published (bk_counters b') - ct_consumed (bk_counters b')"
proof -
  note ok = broker_init_ok [OF assms]
  obtain rs b' where "impl_run (status_push broker_try_publish) (status_pop broker_try_consume) out
      (broker_init C) ps = Some (rs, b')" "broker_ok b'"
      "bk_counters b' = count_results rs counters_init"
      "accepted ps rs = delivered rs @ broker_contents b'"
      "ct_published (bk_counters b') = of_nat (length (accepted ps rs))"
      "ct_consumed (bk_counters b') = of_nat (length (delivered rs))"
    using broker.run_accounting [OF ok(1), of out ps] by (auto simp: ok(2))
  then show ?thesis using broker_size_exact [of b'] by auto
qed

theorem broker_accounting_witness:
  "\<exists>rs b'. impl_run (status_push broker_try_publish) (status_pop broker_try_consume) 0
      (broker_init 2) [Push 1, Push 2, Push (3::nat), Pop] = Some (rs, b') \<and>
    accepted [Push 1, Push 2, Push 3, Pop] rs = delivered rs @ broker_contents b'"
proof -
  have C: "static_capacity 2" by (simp add: static_capacity_def)
  show ?thesis using broker_accounting [OF C, of 0 "[Push 1, Push 2, Push (3::nat), Pop]"] by blast
qed

text \<open>
  A broker constructed with a queue configuration accepts messages only if the configured
  capacity is the template capacity. Otherwise every \<open>try_publish\<close>, \<open>try_emplace\<close> and
  \<open>try_consume\<close> returns the configuration error, leaves the queue and the caller's variable
  untouched, and counts exactly one invalid call.
\<close>

theorem broker_config_gate:
  assumes "static_capacity C"
  shows "(broker_valid (broker_init_config C config) \<longleftrightarrow> qc_capacity config = C) \<and>
    (\<not> broker_valid b \<longrightarrow>
      \<not> is_ok (bk_config_status b) \<and>
      broker_try_publish b v = Some (bk_config_status b,
        b\<lparr>bk_counters := record_publish_failed_invalid (bk_counters b)\<rparr>) \<and>
      broker_try_emplace b v = Some (bk_config_status b,
        b\<lparr>bk_counters := record_publish_failed_invalid (bk_counters b)\<rparr>) \<and>
      broker_try_consume b out = Some (bk_config_status b, out,
        b\<lparr>bk_counters := record_consume_failed_invalid (bk_counters b)\<rparr>))"
  using assms
  by (simp add: broker_valid_def broker_init_config_def status_simps broker_try_publish_def
      broker_try_emplace_def broker_try_consume_def)

theorem broker_config_gate_witness:
  "\<not> broker_valid (broker_init_config 4 default_QueueConfig) \<and>
   broker_try_publish (broker_init_config 4 default_QueueConfig) (7::nat) =
     Some (bk_config_status (broker_init_config 4 default_QueueConfig :: nat Broker),
       (broker_init_config 4 default_QueueConfig)\<lparr>bk_counters :=
         record_publish_failed_invalid counters_init\<rparr>)"
proof -
  have "static_capacity 4" by (simp add: static_capacity_def)
  moreover have "qc_capacity default_QueueConfig \<noteq> 4"
    by (simp add: default_QueueConfig_def default_queue_capacity_def)
  moreover have "bk_counters (broker_init_config 4 default_QueueConfig :: nat Broker) = counters_init"
    by (simp add: broker_init_config_def broker_init_def)
  ultimately show ?thesis
    using broker_config_gate [of 4 default_QueueConfig
        "broker_init_config 4 default_QueueConfig :: nat Broker" 7]
    by (auto simp: broker_valid_def broker_init_config_def)
qed

end
