(* ===== verification/Batch_Broker.thy ===== *)
theory Batch_Broker
  imports Broker
begin

text \<open>
  \<open>include/aether/batch_broker.hpp\<close>: the in-memory broker with batch operations. The loops over the
  spans \<open>messages\<close> and \<open>out\<close> are recursions over the lists; a partially filled output span keeps
  the caller's values in the positions that were not filled.
\<close>

section \<open>Model\<close>

record 'a BatchBroker =
  bb_config_status :: Status
  bb_queue :: "'a SpscRingBuffer"
  bb_counters :: BrokerCounters

definition batch_init :: "size_t \<Rightarrow> 'a BatchBroker" where
  "batch_init C =
     \<lparr>bb_config_status = status_ok, bb_queue = ring_init C, bb_counters = counters_init\<rparr>"

definition batch_init_config :: "size_t \<Rightarrow> QueueConfig \<Rightarrow> 'a BatchBroker" where
  "batch_init_config C config =
     (batch_init C)\<lparr>bb_config_status := validate_queue_config_for_capacity config C\<rparr>"

definition batch_valid :: "'a BatchBroker \<Rightarrow> bool" where
  "batch_valid b \<longleftrightarrow> is_ok (bb_config_status b)"

definition batch_metrics_snapshot :: "'a BatchBroker \<Rightarrow> BrokerMetricsSnapshot" where
  "batch_metrics_snapshot b = counters_snapshot (bb_counters b)"

definition batch_reset_metrics :: "'a BatchBroker \<Rightarrow> 'a BatchBroker" where
  "batch_reset_metrics b = b\<lparr>bb_counters := counters_reset (bb_counters b)\<rparr>"

definition batch_try_publish :: "'a BatchBroker \<Rightarrow> 'a \<Rightarrow> (Status \<times> 'a BatchBroker) option" where
  "batch_try_publish b v =
     (if \<not> batch_valid b then
        Some (bb_config_status b, b\<lparr>bb_counters := record_publish_failed_invalid (bb_counters b)\<rparr>)
      else do {
        (pushed, q) \<leftarrow> ring_try_push (bb_queue b) v;
        let b = b\<lparr>bb_queue := q\<rparr>;
        if \<not> pushed then
          Some (mk_status Full ''batch broker queue is full'',
                b\<lparr>bb_counters := record_publish_failed_full (bb_counters b)\<rparr>)
        else Some (status_ok, b\<lparr>bb_counters := record_published (bb_counters b)\<rparr>) })"

definition batch_try_consume :: "'a BatchBroker \<Rightarrow> 'a \<Rightarrow> (Status \<times> 'a \<times> 'a BatchBroker) option" where
  "batch_try_consume b out =
     (if \<not> batch_valid b then
        Some (bb_config_status b, out,
              b\<lparr>bb_counters := record_consume_failed_invalid (bb_counters b)\<rparr>)
      else do {
        (popped, out, q) \<leftarrow> ring_try_pop (bb_queue b) out;
        let b = b\<lparr>bb_queue := q\<rparr>;
        if \<not> popped then
          Some (mk_status Empty ''batch broker queue is empty'', out,
                b\<lparr>bb_counters := record_consume_failed_empty (bb_counters b)\<rparr>)
        else Some (status_ok, out, b\<lparr>bb_counters := record_consumed (bb_counters b)\<rparr>) })"

fun publish_loop :: "'a BatchBroker \<Rightarrow> 'a list \<Rightarrow> size_t \<Rightarrow> (size_t \<times> 'a BatchBroker) option" where
  "publish_loop b [] published = Some (published, b)"
| "publish_loop b (message # messages) published =
     do { (pushed, q) \<leftarrow> ring_try_push (bb_queue b) message;
          let b = b\<lparr>bb_queue := q\<rparr>;
          if \<not> pushed then
            Some (published, b\<lparr>bb_counters := record_publish_failed_full (bb_counters b)\<rparr>)
          else publish_loop (b\<lparr>bb_counters := record_published (bb_counters b)\<rparr>) messages
                 (published + 1) }"

definition try_publish_batch :: "'a BatchBroker \<Rightarrow> 'a list \<Rightarrow> (size_t \<times> 'a BatchBroker) option" where
  "try_publish_batch b messages =
     (if messages = [] then Some (0, b)
      else if \<not> batch_valid b then
        Some (0, b\<lparr>bb_counters := record_publish_failed_invalid (bb_counters b)\<rparr>)
      else publish_loop b messages 0)"

fun consume_loop ::
    "'a BatchBroker \<Rightarrow> 'a list \<Rightarrow> size_t \<Rightarrow> (size_t \<times> 'a list \<times> 'a BatchBroker) option" where
  "consume_loop b [] consumed = Some (consumed, [], b)"
| "consume_loop b (value # out) consumed =
     do { (popped, value, q) \<leftarrow> ring_try_pop (bb_queue b) value;
          let b = b\<lparr>bb_queue := q\<rparr>;
          if \<not> popped then Some (consumed, value # out, b)
          else do {
            (consumed, out, b) \<leftarrow>
              consume_loop (b\<lparr>bb_counters := record_consumed (bb_counters b)\<rparr>) out (consumed + 1);
            Some (consumed, value # out, b) } }"

definition try_consume_batch ::
    "'a BatchBroker \<Rightarrow> 'a list \<Rightarrow> (size_t \<times> 'a list \<times> 'a BatchBroker) option" where
  "try_consume_batch b out =
     (if out = [] then Some (0, out, b)
      else if \<not> batch_valid b then
        Some (0, out, b\<lparr>bb_counters := record_consume_failed_invalid (bb_counters b)\<rparr>)
      else do {
        (consumed, out, b) \<leftarrow> consume_loop b out 0;
        if consumed = 0 then
          Some (consumed, out, b\<lparr>bb_counters := record_consume_failed_empty (bb_counters b)\<rparr>)
        else Some (consumed, out, b) })"

definition batch_empty :: "'a BatchBroker \<Rightarrow> bool" where
  "batch_empty b = ring_empty (bb_queue b)"

definition batch_full :: "'a BatchBroker \<Rightarrow> bool" where
  "batch_full b = ring_full (bb_queue b)"

definition batch_size_approx :: "'a BatchBroker \<Rightarrow> size_t" where
  "batch_size_approx b = ring_size_approx (bb_queue b)"

section \<open>The broker contract\<close>

definition batch_ok :: "'a BatchBroker \<Rightarrow> bool" where
  "batch_ok b \<longleftrightarrow> batch_valid b \<and> ring_inv (bb_queue b)"

definition batch_contents :: "'a BatchBroker \<Rightarrow> 'a list" where
  "batch_contents b = ring_contents (bb_queue b)"

definition batch_capacity :: "'a BatchBroker \<Rightarrow> nat" where
  "batch_capacity b = unat (rb_capacity (bb_queue b))"

lemmas batch_defs = batch_ok_def batch_contents_def batch_capacity_def batch_valid_def

interpretation batch: message_broker batch_ok batch_contents batch_capacity bb_counters
  batch_try_publish batch_try_consume
proof unfold_locales
  fix b :: "'a BatchBroker" and v out :: 'a and x xs
  assume ok: "batch_ok b"
  then have inv: "ring_inv (bb_queue b)" and v: "batch_valid b" by (simp_all add: batch_ok_def)
  show "length (batch_contents b) \<le> batch_capacity b"
    using ring.within_cap [OF inv] by (simp add: batch_defs)
  show "\<exists>b'. batch_try_publish b v = Some (status_ok, b') \<and> batch_ok b' \<and>
      batch_contents b' = batch_contents b @ [v] \<and> batch_capacity b' = batch_capacity b \<and>
      bb_counters b' = record_published (bb_counters b)"
    if "length (batch_contents b) < batch_capacity b"
    using ring.push_room [OF inv, of v] that v by (auto simp: batch_try_publish_def batch_defs)
  show "\<exists>st b'. batch_try_publish b v = Some (st, b') \<and> st_code st = Full \<and> batch_ok b' \<and>
      batch_contents b' = batch_contents b \<and> batch_capacity b' = batch_capacity b \<and>
      bb_counters b' = record_publish_failed_full (bb_counters b)"
    if "length (batch_contents b) = batch_capacity b"
    using ring.push_full [OF inv, of v] that v by (auto simp: batch_try_publish_def batch_defs)
  show "\<exists>b'. batch_try_consume b out = Some (status_ok, x, b') \<and> batch_ok b' \<and>
      batch_contents b' = xs \<and> batch_capacity b' = batch_capacity b \<and>
      bb_counters b' = record_consumed (bb_counters b)" if "batch_contents b = x # xs"
    using ring.pop_some [OF inv, of x xs out] that v by (auto simp: batch_try_consume_def batch_defs)
  show "\<exists>st b'. batch_try_consume b out = Some (st, out, b') \<and> st_code st = Empty \<and> batch_ok b' \<and>
      batch_contents b' = [] \<and> batch_capacity b' = batch_capacity b \<and>
      bb_counters b' = record_consume_failed_empty (bb_counters b)" if "batch_contents b = []"
    using ring.pop_empty [OF inv, of out] that v by (auto simp: batch_try_consume_def batch_defs)
qed

section \<open>The batch loops as sequences of single operations\<close>

lemma publish_loop_step:
  "batch_valid b \<Longrightarrow> publish_loop b (m # ms) n =
     batch_try_publish b m \<bind> (\<lambda>(st, b'). if is_ok st then publish_loop b' ms (n + 1) else Some (n, b'))"
  by (cases "ring_try_push (bb_queue b) m") (auto simp: batch_try_publish_def Let_def)

declare publish_loop.simps(2) [simp del]

lemma publish_loop_result:
  assumes "batch_ok b"
  shows "\<exists>b'. publish_loop b ms n =
      Some (n + of_nat (min (length ms) (batch_capacity b - length (batch_contents b))), b') \<and>
    batch_ok b' \<and> batch_capacity b' = batch_capacity b \<and>
    batch_contents b' = batch_contents b @ take (batch_capacity b - length (batch_contents b)) ms \<and>
    bb_counters b' =
      (if batch_capacity b - length (batch_contents b) < length ms
       then record_publish_failed_full else id)
      ((record_published ^^ min (length ms) (batch_capacity b - length (batch_contents b)))
        (bb_counters b))"
  using assms
proof (induction ms arbitrary: b n)
  case (Cons m ms)
  have v: "batch_valid b" using Cons.prems by (simp add: batch_ok_def)
  show ?case
  proof (cases "length (batch_contents b) < batch_capacity b")
    case True
    obtain b1 where b1: "batch_try_publish b m = Some (status_ok, b1)" "batch_ok b1"
        "batch_contents b1 = batch_contents b @ [m]" "batch_capacity b1 = batch_capacity b"
        "bb_counters b1 = record_published (bb_counters b)"
      using batch.publish_room [OF Cons.prems True, of m] by blast
    obtain k where k: "batch_capacity b - length (batch_contents b) = Suc k"
        "batch_capacity b1 - length (batch_contents b1) = k"
      using True b1(3,4) by (metis Suc_diff_Suc length_append_singleton)
    show ?thesis
      using Cons.IH [OF b1(2), of "n + 1"] b1 k
      by (auto simp: publish_loop_step [OF v] funpow_swap1)
  next
    case False
    then have full: "length (batch_contents b) = batch_capacity b"
      using batch.fill [OF Cons.prems] by simp
    then show ?thesis
      using batch.publish_full [OF Cons.prems full, of m]
      by (auto simp: publish_loop_step [OF v] is_ok_def)
  qed
qed simp

lemma consume_loop_step:
  "batch_valid b \<Longrightarrow> consume_loop b (v # out) n =
     batch_try_consume b v \<bind> (\<lambda>(st, x, b').
       if is_ok st then consume_loop b' out (n + 1) \<bind> (\<lambda>(n, out, b). Some (n, x # out, b))
       else Some (n, x # out, b'\<lparr>bb_counters := bb_counters b\<rparr>))"
  by (cases "ring_try_pop (bb_queue b) v") (auto simp: batch_try_consume_def Let_def)

declare consume_loop.simps(2) [simp del]

lemma consume_loop_result:
  assumes "batch_ok b"
  shows "\<exists>b'. consume_loop b out n =
      Some (n + of_nat (min (length out) (length (batch_contents b))),
        take (length out) (batch_contents b) @ drop (length (batch_contents b)) out, b') \<and>
    batch_ok b' \<and> batch_capacity b' = batch_capacity b \<and>
    batch_contents b' = drop (length out) (batch_contents b) \<and>
    bb_counters b' =
      (record_consumed ^^ min (length out) (length (batch_contents b))) (bb_counters b)"
  using assms
proof (induction out arbitrary: b n)
  case (Cons v out)
  have ok: "batch_valid b" using Cons.prems by (simp add: batch_ok_def)
  show ?case
  proof (cases "batch_contents b")
    case Nil
    obtain st b1 where b1: "batch_try_consume b v = Some (st, v, b1)" "st_code st = Empty" "batch_ok b1"
        "batch_contents b1 = []" "batch_capacity b1 = batch_capacity b"
      using batch.consume_empty [OF Cons.prems Nil, of v] by blast
    then show ?thesis
      using Nil by (simp add: consume_loop_step [OF ok] is_ok_def)
        (simp add: batch_defs)
  next
    case (Cons x xs)
    obtain b1 where b1: "batch_try_consume b v = Some (status_ok, x, b1)" "batch_ok b1"
        "batch_contents b1 = xs" "batch_capacity b1 = batch_capacity b"
        "bb_counters b1 = record_consumed (bb_counters b)"
      using batch.consume_some [OF Cons.prems Cons, of v] by blast
    show ?thesis
      using Cons.IH [OF b1(2), of "n + 1"] b1 Cons
      by (auto simp: consume_loop_step [OF ok] funpow_swap1)
  qed
qed simp

lemma funpow_record [simp]:
  "ct_published ((record_published ^^ k) c) = ct_published c + of_nat k"
  "ct_publish_failed_full ((record_published ^^ k) c) = ct_publish_failed_full c"
  "ct_consumed ((record_consumed ^^ k) c) = ct_consumed c + of_nat k"
  "ct_consume_failed_empty ((record_consumed ^^ k) c) = ct_consume_failed_empty c"
  by (induction k) (simp_all add: counter_simps)

lemma unat_of_nat_capacity: "k \<le> batch_capacity b \<Longrightarrow> unat (of_nat k :: size_t) = k"
  using unat_lt2p [of "rb_capacity (bb_queue b)"]
  by (simp add: batch_capacity_def unsigned_of_nat take_bit_nat_eq_self)

lemma bb_counters_init [simp]: "bb_counters (batch_init C) = counters_init"
  by (simp add: batch_init_def)

lemma batch_init_ok:
  assumes "static_capacity C"
  shows "batch_ok (batch_init C)" "batch_contents (batch_init C) = []"
    "batch_capacity (batch_init C) = unat C"
  using ring_init_inv [OF assms] by (simp_all add: batch_defs batch_init_def)

section \<open>Properties\<close>

text \<open>
  C23. \<open>try_publish_batch\<close> publishes the longest prefix of the batch that fits: it returns the
  number of messages that had room, appends exactly those in order, counts each of them as
  published, and counts one full failure if and only if some message was left out.
\<close>

theorem batch_publish_longest_prefix:
  assumes "batch_ok b"
  shows "\<exists>n b'. try_publish_batch b ms = Some (n, b') \<and> batch_ok b' \<and>
    unat n = min (length ms) (batch_capacity b - length (batch_contents b)) \<and>
    batch_contents b' = batch_contents b @ take (unat n) ms \<and>
    ct_published (bb_counters b') = ct_published (bb_counters b) + n \<and>
    ct_publish_failed_full (bb_counters b') =
      ct_publish_failed_full (bb_counters b) + (if unat n < length ms then 1 else 0)"
proof (cases "ms = []")
  case True
  then show ?thesis using assms by (simp add: try_publish_batch_def)
next
  case False
  let ?room = "batch_capacity b - length (batch_contents b)"
  let ?k = "min (length ms) ?room"
  have k: "unat (of_nat ?k :: size_t) = ?k" by (rule unat_of_nat_capacity [of _ b]) simp
  obtain b' where r: "publish_loop b ms 0 = Some (of_nat ?k, b')" "batch_ok b'"
      "batch_contents b' = batch_contents b @ take ?room ms"
      "bb_counters b' = (if ?room < length ms then record_publish_failed_full else id)
        ((record_published ^^ ?k) (bb_counters b))"
    using publish_loop_result [OF assms, of ms 0] by (elim exE conjE) simp
  show ?thesis
  proof (intro exI conjI)
    show "try_publish_batch b ms = Some (of_nat ?k, b')"
      using False assms r(1) by (simp add: try_publish_batch_def batch_ok_def)
    show "batch_contents b' = batch_contents b @ take (unat (of_nat ?k :: size_t)) ms"
      unfolding k r(3) by (simp add: min_def)
    show "ct_published (bb_counters b') = ct_published (bb_counters b) + of_nat ?k"
      unfolding r(4) by (simp add: counter_simps)
    show "ct_publish_failed_full (bb_counters b') = ct_publish_failed_full (bb_counters b) +
        (if unat (of_nat ?k :: size_t) < length ms then 1 else 0)"
      unfolding r(4) k by (simp add: counter_simps)
  qed (use r(2) k in simp_all)
qed

theorem batch_publish_longest_prefix_witness:
  "\<exists>n b'. try_publish_batch (batch_init 2) [1, 2, 3 :: nat] = Some (n, b') \<and>
    unat n = 2 \<and> batch_contents b' = [1, 2] \<and> ct_publish_failed_full (bb_counters b') = 1"
proof -
  have C: "static_capacity 2" by (simp add: static_capacity_def)
  show ?thesis
    using batch_publish_longest_prefix [OF batch_init_ok(1) [OF C], of "[1, 2, 3 :: nat]"]
    by (auto simp: batch_init_ok [OF C])
qed

text \<open>
  C24. \<open>try_consume_batch\<close> fills the longest prefix of the output span that the queue can fill: it
  returns the number of messages delivered, writes the oldest messages in order into the front of
  the span and leaves the rest of the span as it was, removes exactly those messages, and counts an
  empty failure if and only if it delivered none to a non-empty span.
\<close>

theorem batch_consume_longest_prefix:
  assumes "batch_ok b"
  shows "\<exists>n out' b'. try_consume_batch b out = Some (n, out', b') \<and> batch_ok b' \<and>
    unat n = min (length out) (length (batch_contents b)) \<and>
    out' = take (unat n) (batch_contents b) @ drop (unat n) out \<and>
    batch_contents b' = drop (unat n) (batch_contents b) \<and>
    ct_consumed (bb_counters b') = ct_consumed (bb_counters b) + n \<and>
    ct_consume_failed_empty (bb_counters b') =
      ct_consume_failed_empty (bb_counters b) + (if n = 0 \<and> out \<noteq> [] then 1 else 0)"
proof (cases "out = []")
  case True
  then show ?thesis using assms by (simp add: try_consume_batch_def)
next
  case False
  let ?k = "min (length out) (length (batch_contents b))"
  have "?k \<le> batch_capacity b" using batch.fill [OF assms] by simp
  then have k: "unat (of_nat ?k :: size_t) = ?k" by (rule unat_of_nat_capacity)
  let ?out = "take (length out) (batch_contents b) @ drop (length (batch_contents b)) out"
  obtain b' where r: "consume_loop b out 0 = Some (of_nat ?k, ?out, b')" "batch_ok b'"
      "batch_contents b' = drop (length out) (batch_contents b)"
      "bb_counters b' = (record_consumed ^^ ?k) (bb_counters b)"
    using consume_loop_result [OF assms, of out 0] by (elim exE conjE) simp
  let ?b' = "if (of_nat ?k :: size_t) = 0
    then b'\<lparr>bb_counters := record_consume_failed_empty (bb_counters b')\<rparr> else b'"
  show ?thesis
  proof (intro exI conjI)
    show "try_consume_batch b out = Some (of_nat ?k, ?out, ?b')"
      using False assms r(1) by (simp add: try_consume_batch_def batch_ok_def)
    show "batch_ok ?b'" using r(2) by (simp add: batch_defs)
    show "?out = take (unat (of_nat ?k :: size_t)) (batch_contents b) @ drop (unat (of_nat ?k :: size_t)) out"
      unfolding k by (simp add: min_def)
    have "batch_contents ?b' = batch_contents b'" by (simp add: batch_contents_def)
    then show "batch_contents ?b' = drop (unat (of_nat ?k :: size_t)) (batch_contents b)"
      unfolding k r(3) by (simp add: min_def)
    show "ct_consumed (bb_counters ?b') = ct_consumed (bb_counters b) + of_nat ?k"
      using r(4) by (simp add: counter_simps)
    show "ct_consume_failed_empty (bb_counters ?b') = ct_consume_failed_empty (bb_counters b) +
        (if (of_nat ?k :: size_t) = 0 \<and> out \<noteq> [] then 1 else 0)"
      using r(4) False by (simp add: counter_simps)
  qed (rule k)
qed

theorem batch_consume_longest_prefix_witness:
  "\<exists>n out' b'. try_consume_batch (batch_init 2) [9, 9 :: nat] = Some (n, out', b') \<and>
    unat n = 0 \<and> out' = [9, 9]"
proof -
  have C: "static_capacity 2" by (simp add: static_capacity_def)
  show ?thesis
    using batch_consume_longest_prefix [OF batch_init_ok(1) [OF C], of "[9, 9 :: nat]"]
    by (auto simp: batch_init_ok [OF C])
qed

end
