(* ===== verification/Persistent_Broker.thy ===== *)
theory Persistent_Broker
  imports Broker Wal_Roundtrip
begin

text \<open>
  \<open>include/aether/persistent_broker.hpp\<close>: the broker that writes each message to the log before it
  puts it into the queue, and the typed replay of such a log.

  The object representation of the trivially copyable payload type \<open>T\<close> is a parameter: its size, the
  bytes of a value, and the value with given bytes. \<open>trivially_copyable\<close> states what the
  language guarantees of it. The clock value that \<open>append\<close> may read is the argument \<open>now\<close>.
\<close>

section \<open>Object representation\<close>

record 'a object_rep =
  or_sizeof :: size_t
  or_bytes :: "'a \<Rightarrow> byte list"
  or_of_bytes :: "byte list \<Rightarrow> 'a"

definition trivially_copyable :: "'a object_rep \<Rightarrow> bool" where
  "trivially_copyable R \<longleftrightarrow>
     (\<forall>v. length (or_bytes R v) = unat (or_sizeof R) \<and> or_of_bytes R (or_bytes R v) = v)"

section \<open>Model\<close>

record 'a PersistentBroker =
  pb_broker :: "'a Broker"
  pb_writer :: WalWriter
  pb_open_status :: Status
  pb_counters :: BrokerCounters

definition persistent_init :: "size_t \<Rightarrow> 'a PersistentBroker" where
  "persistent_init C = \<lparr>pb_broker = broker_init C, pb_writer = wal_writer_default,
     pb_open_status = mk_status Invalid_argument ''persistent broker is not open'',
     pb_counters = counters_init\<rparr>"

definition persistent_open ::
    "'os posix \<Rightarrow> 'os \<Rightarrow> 'a object_rep \<Rightarrow> size_t \<Rightarrow> 'a PersistentBroker \<Rightarrow> BrokerConfig \<Rightarrow>
     Status \<times> 'a PersistentBroker \<times> 'os" where
  "persistent_open P os R C b config =
     (let fail = (\<lambda>st os. (st, b\<lparr>pb_open_status := st\<rparr>, os));
          queue_status = validate_queue_config_for_capacity (bc_queue config) C;
          wal_status = validate_wal_config_for_payload (bc_wal config) (or_sizeof R) in
      if wal_writer_valid (pb_writer b) then
        fail (mk_status Invalid_argument ''persistent broker is already open'') os
      else if \<not> is_ok queue_status then fail queue_status os
      else if \<not> bc_enable_wal config then
        fail (mk_status Invalid_argument ''persistent broker requires WAL to be enabled'') os
      else if \<not> is_ok wal_status then fail wal_status os
      else let (writer_result, os) = wal_writer_create_config P os (bc_wal config) in
        (case writer_result of
           Expected_status st \<Rightarrow> fail st os
         | Expected_value w \<Rightarrow>
             let (file, _, os) = mmap_move_assign P os (ww_file (pb_writer b)) (ww_file w) in
             (status_ok, b\<lparr>pb_writer := w\<lparr>ww_file := file\<rparr>, pb_open_status := status_ok\<rparr>, os)))"

definition persistent_open_wal ::
    "'os posix \<Rightarrow> 'os \<Rightarrow> 'a object_rep \<Rightarrow> size_t \<Rightarrow> 'a PersistentBroker \<Rightarrow> WalConfig \<Rightarrow>
     Status \<times> 'a PersistentBroker \<times> 'os" where
  "persistent_open_wal P os R C b wal_config =
     persistent_open P os R C b
       (default_BrokerConfig\<lparr>bc_queue := default_QueueConfig\<lparr>qc_capacity := C\<rparr>,
          bc_wal := wal_config, bc_enable_wal := True\<rparr>)"

definition persistent_valid :: "'a PersistentBroker \<Rightarrow> bool" where
  "persistent_valid b \<longleftrightarrow> is_ok (pb_open_status b) \<and> wal_writer_valid (pb_writer b)"

definition persistent_metrics_snapshot :: "'a PersistentBroker \<Rightarrow> BrokerMetricsSnapshot" where
  "persistent_metrics_snapshot b = counters_snapshot (pb_counters b)"

definition persistent_reset_metrics :: "'a PersistentBroker \<Rightarrow> 'a PersistentBroker" where
  "persistent_reset_metrics b = b\<lparr>pb_counters := counters_reset (pb_counters b)\<rparr>"

definition object_message :: "'a object_rep \<Rightarrow> 'a \<Rightarrow> u32 \<Rightarrow> MessageView" where
  "object_message R v flags =
     \<lparr>mv_header = \<lparr>mh_sequence = 0, mh_timestamp_ns = 0, mh_payload_size = ucast (or_sizeof R),
        mh_flags = flags\<rparr>,
      mv_payload = or_bytes R v\<rparr>"

definition append_to_wal ::
    "'os posix \<Rightarrow> 'os \<Rightarrow> u64 \<Rightarrow> 'a object_rep \<Rightarrow> WalWriter \<Rightarrow> 'a \<Rightarrow> u32 \<Rightarrow>
     (Status \<times> WalWriter \<times> 'os) option" where
  "append_to_wal P os now R w v flags = wal_writer_append P os now w (object_message R v flags)"

definition persistent_try_publish ::
    "'os posix \<Rightarrow> 'os \<Rightarrow> u64 \<Rightarrow> 'a object_rep \<Rightarrow> 'a PersistentBroker \<Rightarrow> 'a \<Rightarrow> u32 \<Rightarrow>
     (Status \<times> 'a PersistentBroker \<times> 'os) option" where
  "persistent_try_publish P os now R b v flags =
     (if \<not> persistent_valid b then
        Some (pb_open_status b,
              b\<lparr>pb_counters := record_publish_failed_invalid (pb_counters b)\<rparr>, os)
      else if broker_full (pb_broker b) then
        Some (mk_status Full ''broker queue is full'',
              b\<lparr>pb_counters := record_publish_failed_full (pb_counters b)\<rparr>, os)
      else do {
        let before_offset = ww_current_offset (pb_writer b);
        (wal_status, w, os) \<leftarrow> append_to_wal P os now R (pb_writer b) v flags;
        let b = b\<lparr>pb_writer := w\<rparr>;
        if \<not> is_ok wal_status then
          Some (wal_status, b\<lparr>pb_counters := record_wal_failure (pb_counters b)\<rparr>, os)
        else do {
          let after_offset = ww_current_offset w;
          let b = b\<lparr>pb_counters := record_wal_write
            (if after_offset \<ge> before_offset then after_offset - before_offset else 0) (pb_counters b)\<rparr>;
          (publish_status, bk) \<leftarrow> broker_try_publish (pb_broker b) v;
          let b = b\<lparr>pb_broker := bk\<rparr>;
          if \<not> is_ok publish_status then
            Some (mk_status Unknown ''queue publish failed after WAL append'',
                  b\<lparr>pb_counters := record_wal_failure (pb_counters b)\<rparr>, os)
          else Some (status_ok, b\<lparr>pb_counters := record_published (pb_counters b)\<rparr>, os) } })"

definition persistent_try_consume ::
    "'a PersistentBroker \<Rightarrow> 'a \<Rightarrow> (Status \<times> 'a \<times> 'a PersistentBroker) option" where
  "persistent_try_consume b out =
     (if \<not> persistent_valid b then
        Some (pb_open_status b, out,
              b\<lparr>pb_counters := record_consume_failed_invalid (pb_counters b)\<rparr>)
      else do {
        (status, out, bk) \<leftarrow> broker_try_consume (pb_broker b) out;
        let b = b\<lparr>pb_broker := bk\<rparr>;
        if is_ok status then
          Some (status, out, b\<lparr>pb_counters := record_consumed (pb_counters b)\<rparr>)
        else if st_code status = Empty then
          Some (status, out, b\<lparr>pb_counters := record_consume_failed_empty (pb_counters b)\<rparr>)
        else Some (status, out, b) })"

definition persistent_flush ::
    "'os posix \<Rightarrow> 'os \<Rightarrow> 'a PersistentBroker \<Rightarrow> Status \<times> 'a PersistentBroker \<times> 'os" where
  "persistent_flush P os b =
     (if \<not> persistent_valid b then
        (pb_open_status b, b\<lparr>pb_counters := record_wal_failure (pb_counters b)\<rparr>, os)
      else let (status, os) = wal_writer_flush P os (pb_writer b) in
        if is_ok status then (status, b\<lparr>pb_counters := record_wal_flush (pb_counters b)\<rparr>, os)
        else (status, b\<lparr>pb_counters := record_wal_failure (pb_counters b)\<rparr>, os))"

text \<open>The lambda that \<open>replay_with_metrics\<close> hands to the reader, over the state of the user's
  visitor, the counters and \<open>failure_recorded\<close>.\<close>

definition replay_record ::
    "'a object_rep \<Rightarrow> ('s \<Rightarrow> 'a \<Rightarrow> WalRecordHeader \<Rightarrow> Status \<times> 's) \<Rightarrow>
     's \<times> BrokerCounters \<times> bool \<Rightarrow> WalRecordView \<Rightarrow> (Status \<times> 's \<times> BrokerCounters \<times> bool) option" where
  "replay_record R visitor st record =
     (case st of (s, counters, failure_recorded) \<Rightarrow>
        if length (rv_payload record) \<noteq> unat (or_sizeof R) then
          Some (mk_status Corrupted_record
                  ''WAL payload size does not match persistent broker value type'',
                s, record_recovery_failure counters, True)
        else do {
          bytes \<leftarrow> subspan (rv_payload record) 0 (unat (or_sizeof R));
          let (status, s) = visitor s (or_of_bytes R bytes) (rv_header record);
          if is_ok status then Some (status, s, record_recovered_record counters, failure_recorded)
          else Some (status, s, record_recovery_failure counters, True) })"

definition replay_with_metrics ::
    "'os posix \<Rightarrow> 'os \<Rightarrow> 'a object_rep \<Rightarrow> path \<Rightarrow> ('s \<Rightarrow> 'a \<Rightarrow> WalRecordHeader \<Rightarrow> Status \<times> 's) \<Rightarrow> 's \<Rightarrow>
     BrokerCounters \<Rightarrow> (Status \<times> 's \<times> BrokerCounters \<times> 'os) option" where
  "replay_with_metrics P os R path visitor s counters =
     (let (reader_result, os) = wal_reader_open P os path in
      case reader_result of
        Expected_status st \<Rightarrow> Some (st, s, record_recovery_failure counters, os)
      | Expected_value reader \<Rightarrow> do {
          (replay_status, reader, s, counters, failure_recorded) \<leftarrow>
            wal_reader_replay (replay_record R visitor) reader (s, counters, False);
          let counters = (if \<not> is_ok replay_status \<and> \<not> failure_recorded
            then record_recovery_failure counters else counters);
          let os = mmap_destroy P os (wr_file reader);
          Some (replay_status, s, counters, os) })"

definition persistent_replay ::
    "'os posix \<Rightarrow> 'os \<Rightarrow> 'a object_rep \<Rightarrow> path \<Rightarrow> ('s \<Rightarrow> 'a \<Rightarrow> WalRecordHeader \<Rightarrow> Status \<times> 's) \<Rightarrow> 's \<Rightarrow>
     (Status \<times> 's \<times> 'os) option" where
  "persistent_replay P os R path visitor s =
     map_option (\<lambda>(st, s, _, os). (st, s, os))
       (replay_with_metrics P os R path visitor s counters_init)"

text \<open>The constructors that open at once, and the observers.\<close>

definition persistent_construct_wal ::
    "'os posix \<Rightarrow> 'os \<Rightarrow> 'a object_rep \<Rightarrow> size_t \<Rightarrow> WalConfig \<Rightarrow> 'a PersistentBroker \<times> 'os" where
  "persistent_construct_wal P os R C wal_config =
     snd (persistent_open_wal P os R C (persistent_init C) wal_config)"

definition persistent_construct ::
    "'os posix \<Rightarrow> 'os \<Rightarrow> 'a object_rep \<Rightarrow> size_t \<Rightarrow> BrokerConfig \<Rightarrow> 'a PersistentBroker \<times> 'os" where
  "persistent_construct P os R C config = snd (persistent_open P os R C (persistent_init C) config)"

definition persistent_empty :: "'a PersistentBroker \<Rightarrow> bool" where
  "persistent_empty b = broker_empty (pb_broker b)"

definition persistent_full :: "'a PersistentBroker \<Rightarrow> bool" where
  "persistent_full b = broker_full (pb_broker b)"

definition persistent_size_approx :: "'a PersistentBroker \<Rightarrow> size_t" where
  "persistent_size_approx b = broker_size_approx (pb_broker b)"

definition persistent_wal_remaining_space :: "'a PersistentBroker \<Rightarrow> u64" where
  "persistent_wal_remaining_space b = wal_writer_remaining_space (pb_writer b)"

definition persistent_durability_mode :: BrokerDurabilityMode where
  "persistent_durability_mode = Wal_before_queue"

section \<open>Sessions\<close>

text \<open>The calls a producer and a consumer make on one broker, with the clock values of the publishes.\<close>

datatype 'a pb_call = Publish u64 'a u32 | Consume

datatype 'a pb_result = Published Status | Consumed Status 'a

fun persistent_call ::
    "'os posix \<Rightarrow> 'a object_rep \<Rightarrow> 'a \<Rightarrow> 'os \<Rightarrow> 'a PersistentBroker \<Rightarrow> 'a pb_call \<Rightarrow>
     ('a pb_result \<times> 'a PersistentBroker \<times> 'os) option" where
  "persistent_call P R out os b (Publish now v flags) =
     map_option (\<lambda>(st, b, os). (Published st, b, os)) (persistent_try_publish P os now R b v flags)"
| "persistent_call P R out os b Consume =
     map_option (\<lambda>(st, x, b). (Consumed st x, b, os)) (persistent_try_consume b out)"

fun persistent_session ::
    "'os posix \<Rightarrow> 'a object_rep \<Rightarrow> 'a \<Rightarrow> 'os \<Rightarrow> 'a PersistentBroker \<Rightarrow> 'a pb_call list \<Rightarrow>
     ('a pb_result list \<times> 'a PersistentBroker \<times> 'os) option" where
  "persistent_session P R out os b [] = Some ([], b, os)"
| "persistent_session P R out os b (c # cs) =
     do { (r, b, os) \<leftarrow> persistent_call P R out os b c;
          (rs, b, os) \<leftarrow> persistent_session P R out os b cs;
          Some (r # rs, b, os) }"

text \<open>What was published with \<open>ok\<close>, what was consumed with \<open>ok\<close>, and whether an append failed to
  flush.\<close>

fun published_log :: "'a pb_call list \<Rightarrow> 'a pb_result list \<Rightarrow> (u64 \<times> 'a \<times> u32) list" where
  "published_log (Publish now v flags # cs) (Published st # rs) =
     (if is_ok st then [(now, v, flags)] else []) @ published_log cs rs"
| "published_log (c # cs) (r # rs) = published_log cs rs"
| "published_log _ _ = []"

fun consumed_values :: "'a pb_result list \<Rightarrow> 'a list" where
  "consumed_values [] = []"
| "consumed_values (Consumed st x # rs) = (if is_ok st then [x] else []) @ consumed_values rs"
| "consumed_values (Published st # rs) = consumed_values rs"

fun flush_failed :: "'a pb_result \<Rightarrow> bool" where
  "flush_failed (Published st) \<longleftrightarrow> st_code st = Io_error"
| "flush_failed (Consumed st x) \<longleftrightarrow> False"

definition logged_value :: "u64 \<times> 'a \<times> u32 \<Rightarrow> 'a" where
  "logged_value x = fst (snd x)"

fun object_entries :: "'a object_rep \<Rightarrow> nat \<Rightarrow> (u64 \<times> 'a \<times> u32) list \<Rightarrow> wal_entry list" where
  "object_entries R n [] = []"
| "object_entries R n ((now, v, flags) # xs) =
     append_entry n now (object_message R v flags) # object_entries R (Suc n) xs"

lemma object_entries_snoc:
  "object_entries R n (xs @ [(now, v, flags)]) =
     object_entries R n xs @ [append_entry (n + length xs) now (object_message R v flags)]"
  by (induction R n xs rule: object_entries.induct) auto

lemma length_object_entries [simp]: "length (object_entries R n xs) = length xs"
  by (induction R n xs rule: object_entries.induct) auto

section \<open>The invariant of an open broker\<close>

text \<open>
  \<open>persistent_state R b consumed log\<close>: the log in the file is \<open>log\<close>, what was consumed followed by
  what is queued is the values of \<open>log\<close>, and the counters agree with both.
\<close>

definition persistent_state ::
    "'a object_rep \<Rightarrow> 'a PersistentBroker \<Rightarrow> 'a list \<Rightarrow> (u64 \<times> 'a \<times> u32) list \<Rightarrow> bool" where
  "persistent_state R b consumed log \<longleftrightarrow>
     is_ok (pb_open_status b) \<and> broker_ok (pb_broker b) \<and>
     writer_log (pb_writer b) (object_entries R 0 log) \<and>
     map logged_value log = consumed @ broker_contents (pb_broker b) \<and>
     ct_published (pb_counters b) = of_nat (length log) \<and>
     ct_consumed (pb_counters b) = of_nat (length consumed) \<and>
     ct_wal_records_written (pb_counters b) = of_nat (length log) \<and>
     ct_wal_bytes_written (pb_counters b) = ww_current_offset (pb_writer b)"

lemma persistent_state_valid: "persistent_state R b consumed log \<Longrightarrow> persistent_valid b"
  by (simp add: persistent_state_def persistent_valid_def writer_log_def wal_writer_valid_def)

lemma writer_log_offset_mono:
  assumes "writer_log w es" "writer_log w' (es @ [e])"
  shows "ww_current_offset w \<le> ww_current_offset w'"
  using assms by (simp add: writer_log_def word_le_nat_alt)

lemma persistent_publish_cases:
  assumes st: "persistent_state R b consumed log"
  shows "\<exists>s b' os'. persistent_try_publish P os now R b v flags = Some (s, b', os') \<and>
    st_code s \<noteq> Unknown \<and>
    (writer_clean (pb_writer b) \<and> st_code s \<noteq> Io_error \<longrightarrow> writer_clean (pb_writer b')) \<and>
    persistent_state R b' consumed (if is_ok s then log @ [(now, v, flags)] else log)"
proof (cases "broker_full (pb_broker b)")
  case True
  then show ?thesis
    using st persistent_state_valid [OF st]
    by (simp add: persistent_try_publish_def persistent_state_def counter_simps)
next
  case False
  let ?m = "object_message R v flags" and ?w = "pb_writer b" and ?es = "object_entries R 0 log"
  have log: "writer_log ?w ?es" and ok: "broker_ok (pb_broker b)"
    using st by (simp_all add: persistent_state_def)
  have room: "length (broker_contents (pb_broker b)) < broker_capacity (pb_broker b)"
    using False broker.fill [OF ok] ring_full_iff [of "bk_queue (pb_broker b)"] ok
    by (auto simp: broker_full_def broker_defs)
  obtain s w os1 where app: "wal_writer_append P os now ?w ?m = Some (s, w, os1)"
    using wal.append_defined [OF log, of P os now ?m] by auto
  show ?thesis
  proof (cases "is_ok s")
    case True
    note w = wal.append_ok [OF log app True]
    obtain bk where bk: "broker_try_publish (pb_broker b) v = Some (status_ok, bk)" "broker_ok bk"
        "broker_contents bk = broker_contents (pb_broker b) @ [v]"
      using broker.publish_room [OF ok room, of v] by blast
    show ?thesis
      using True w bk app st persistent_state_valid [OF st] False writer_log_offset_mono [OF log conjunct1 [OF w]]
      by (simp add: persistent_try_publish_def append_to_wal_def Let_def persistent_state_def
          object_entries_snoc logged_value_def counter_simps)
  next
    case err: False
    have "st_code s \<noteq> Unknown"
      using wal_append_status [OF log app] err by (auto simp: is_ok_def)
    then show ?thesis
      using err wal.append_error [OF log app] app st persistent_state_valid [OF st] False
        wal_append_error_offset [OF log app]
      by (auto simp: persistent_try_publish_def append_to_wal_def Let_def persistent_state_def
          counter_simps)
  qed
qed

lemma persistent_consume_cases:
  assumes st: "persistent_state R b consumed log"
  shows "\<exists>s x b'. persistent_try_consume b out = Some (s, x, b') \<and> pb_writer b' = pb_writer b \<and>
    (is_ok s \<longleftrightarrow> broker_contents (pb_broker b) \<noteq> []) \<and> st_code s \<in> {Ok, Empty} \<and>
    persistent_state R b' (if is_ok s then consumed @ [x] else consumed) log"
proof (cases "broker_contents (pb_broker b)")
  case Nil
  have ok: "broker_ok (pb_broker b)" using st by (simp add: persistent_state_def)
  obtain s bk where bk: "broker_try_consume (pb_broker b) out = Some (s, out, bk)" "st_code s = Empty"
      "broker_ok bk" "broker_contents bk = []"
    using broker.consume_empty [OF ok Nil, of out] by blast
  then have "\<not> is_ok s" by (simp add: is_ok_def)
  then show ?thesis
    using bk st persistent_state_valid [OF st] Nil
    by (simp add: persistent_try_consume_def persistent_state_def Let_def counter_simps)
next
  case (Cons x xs)
  have ok: "broker_ok (pb_broker b)" using st by (simp add: persistent_state_def)
  obtain bk where "broker_try_consume (pb_broker b) out = Some (status_ok, x, bk)"
      "broker_ok bk" "broker_contents bk = xs"
    using broker.consume_some [OF ok Cons, of out] by blast
  then show ?thesis
    using st persistent_state_valid [OF st] Cons
    by (simp add: persistent_try_consume_def persistent_state_def Let_def counter_simps)
qed

lemma persistent_call_cases:
  assumes st: "persistent_state R b consumed log"
  shows "\<exists>r b' os'. persistent_call P R out os b c = Some (r, b', os') \<and>
    r \<notin> range (\<lambda>d. Published (mk_status Unknown d)) \<and>
    (writer_clean (pb_writer b) \<and> \<not> flush_failed r \<longrightarrow> writer_clean (pb_writer b')) \<and>
    persistent_state R b' (consumed @ consumed_values [r]) (log @ published_log [c] [r])"
proof (cases c)
  case (Publish now v flags)
  then show ?thesis
    using persistent_publish_cases [OF st, of P os now v flags] by (auto split: if_splits)
next
  case Consume
  then show ?thesis
    using persistent_consume_cases [OF st, of out] by (auto split: if_splits)
qed

lemma published_log_Cons: "published_log (c # cs) (r # rs) = published_log [c] [r] @ published_log cs rs"
  by (cases c; cases r) auto

lemma consumed_values_Cons: "consumed_values (r # rs) = consumed_values [r] @ consumed_values rs"
  by (cases r) auto

lemma persistent_session_state:
  assumes "persistent_state R b consumed log"
  shows "\<exists>rs b' os'. persistent_session P R out os b cs = Some (rs, b', os') \<and>
    set rs \<inter> range (\<lambda>d. Published (mk_status Unknown d)) = {} \<and>
    (writer_clean (pb_writer b) \<and> (\<forall>r \<in> set rs. \<not> flush_failed r) \<longrightarrow> writer_clean (pb_writer b')) \<and>
    persistent_state R b' (consumed @ consumed_values rs) (log @ published_log cs rs)"
  using assms
proof (induction cs arbitrary: b os consumed log)
  case (Cons c cs)
  obtain r b1 os1 where 1: "persistent_call P R out os b c = Some (r, b1, os1)"
      "writer_clean (pb_writer b) \<and> \<not> flush_failed r \<longrightarrow> writer_clean (pb_writer b1)"
      and u1: "r \<notin> range (\<lambda>d. Published (mk_status Unknown d))"
      and s1: "persistent_state R b1 (consumed @ consumed_values [r]) (log @ published_log [c] [r])"
    using persistent_call_cases [OF Cons.prems, of P out os c] by (elim exE conjE) blast
  obtain rs b2 os2 where 2: "persistent_session P R out os1 b1 cs = Some (rs, b2, os2)"
      "writer_clean (pb_writer b1) \<and> (\<forall>r \<in> set rs. \<not> flush_failed r) \<longrightarrow> writer_clean (pb_writer b2)"
      "set rs \<inter> range (\<lambda>d. Published (mk_status Unknown d)) = {}"
      "persistent_state R b2 ((consumed @ consumed_values [r]) @ consumed_values rs)
        ((log @ published_log [c] [r]) @ published_log cs rs)"
    using Cons.IH [OF s1, of os1] by (elim exE conjE) blast
  have "persistent_session P R out os b (c # cs) = Some (r # rs, b2, os2)" using 1(1) 2(1) by simp
  moreover have "persistent_state R b2 (consumed @ consumed_values (r # rs))
      (log @ published_log (c # cs) (r # rs))"
    using 2(4) unfolding published_log_Cons [of c cs r rs] consumed_values_Cons [of r rs] by simp
  ultimately show ?case using 1(2) u1 2(2,3) by auto
qed simp

text \<open>A publish reaches the writer through one append at most; the mapping stays the writer's.\<close>

lemma persistent_publish_writer:
  assumes "persistent_try_publish P os now R b v flags = Some (s, b', os')"
  shows "pb_writer b' = pb_writer b \<and> os' = os \<or>
    (\<exists>st. wal_writer_append P os now (pb_writer b) (object_message R v flags) = Some (st, pb_writer b', os'))"
proof (cases "\<not> persistent_valid b \<or> broker_full (pb_broker b)")
  case True
  then show ?thesis using assms by (auto simp: persistent_try_publish_def split: if_splits)
next
  case False
  then obtain st w os1 where app: "wal_writer_append P os now (pb_writer b) (object_message R v flags) =
      Some (st, w, os1)"
    using assms by (auto simp: persistent_try_publish_def append_to_wal_def bind_eq_Some_conv Let_def)
  then have "pb_writer b' = w \<and> os' = os1"
    using assms False
    by (cases "is_ok st") (auto simp: persistent_try_publish_def append_to_wal_def bind_eq_Some_conv
        Let_def split: if_splits)
  then show ?thesis using app by blast
qed

lemma persistent_call_owns:
  assumes "posix_laws P" "persistent_state R b consumed log" "writer_owns P os path (pb_writer b)"
    and "persistent_call P R out os b c = Some (r, b', os')"
  shows "writer_owns P os' path (pb_writer b')"
proof (cases c)
  case (Publish now v flags)
  then obtain s where "persistent_try_publish P os now R b v flags = Some (s, b', os')"
    using assms(4) by auto
  from persistent_publish_writer [OF this] show ?thesis
    using assms(3) wal_writer_append_owns [OF assms(1) _ assms(3)] assms(2)
    by (auto simp: persistent_state_def)
next
  case Consume
  then show ?thesis using assms persistent_consume_cases [OF assms(2), of out] by auto
qed

lemma persistent_session_owns:
  assumes "posix_laws P" "persistent_state R b consumed log" "writer_owns P os path (pb_writer b)"
    and "persistent_session P R out os b cs = Some (rs, b', os')"
  shows "writer_owns P os' path (pb_writer b')"
  using assms(2-4)
proof (induction cs arbitrary: b os consumed log rs)
  case (Cons c cs)
  obtain r b1 os1 rs' where c: "persistent_call P R out os b c = Some (r, b1, os1)"
    and rest: "persistent_session P R out os1 b1 cs = Some (rs', b', os')"
    using Cons.prems(3) by (auto simp: bind_eq_Some_conv)
  have "\<exists>consumed' log'. persistent_state R b1 consumed' log'"
    using persistent_call_cases [OF Cons.prems(1), of P out os c] c by auto
  then show ?case
    using Cons.IH [OF _ persistent_call_owns [OF assms(1) Cons.prems(1,2) c] rest] by blast
qed simp

text \<open>Opening a broker that is not open.\<close>

lemma mmap_close_default: "mmap_close P os mmap_default = (status_ok, mmap_default, os)"
  by (simp add: mmap_close_def mmap_default_def mmap_valid_def mmap_reset_def Let_def)

lemma persistent_init_writer [simp]:
  "ww_file (pb_writer (persistent_init C)) = mmap_default"
  "\<not> wal_writer_valid (pb_writer (persistent_init C))"
  by (simp_all add: persistent_init_def wal_writer_valid_def wal_writer_default_def mmap_inv_default)

lemma persistent_open_state:
  assumes laws: "posix_laws P" and C: "static_capacity C"
    and op: "persistent_open P os R C (persistent_init C) config = (st, b, os')" and ok: "is_ok st"
  shows "persistent_state R b [] [] \<and> writer_clean (pb_writer b) \<and>
    writer_owns P os' (wc_path (bc_wal config)) (pb_writer b) \<and>
    mf_size (ww_file (pb_writer b)) = wc_file_size_bytes (bc_wal config) \<and>
    qc_capacity (bc_queue config) = C"
proof -
  let ?wal = "bc_wal config"
  obtain w os1 where c: "wal_writer_create_config P os ?wal = (Expected_value w, os1)"
      and cap: "is_ok (validate_queue_config_for_capacity (bc_queue config) C)"
      and b: "os' = os1" "b = (persistent_init C)\<lparr>pb_writer := w, pb_open_status := status_ok\<rparr>"
  proof -
    obtain e os1 where c: "wal_writer_create_config P os ?wal = (e, os1)" by fastforce
    show ?thesis
      using op ok c that wal_writer_create_error [of P os ?wal] unfolding persistent_open_def Let_def
      by (cases e) (auto simp: mmap_move_assign_def mmap_close_default mmap_move_def
          split: if_splits)
  qed
  have "wal_writer_create P os (wc_path ?wal) (wc_file_size_bytes ?wal) (wc_flush_on_commit ?wal) =
      (Expected_value w, os1)"
    using c by (auto simp: wal_writer_create_config_def Let_def split: if_splits)
  from wal_writer_create_log [OF laws this] show ?thesis
    using b cap C
    by (simp add: persistent_state_def persistent_init_def writer_log_def status_simps
        broker_init_ok [OF C] unsigned_eq_0_iff)
qed

lemma persistent_open_fields:
  assumes op: "persistent_open P os R C (persistent_init C) config = (st, b, os')" and ok: "is_ok st"
  shows "pb_broker b = broker_init C" "ww_flush_on_append (pb_writer b) = wc_flush_on_commit (bc_wal config)"
    "pb_counters b = counters_init"
proof -
  let ?wal = "bc_wal config"
  obtain e os1 where c: "wal_writer_create_config P os ?wal = (e, os1)" by fastforce
  then obtain w where w: "e = Expected_value w" "pb_broker b = broker_init C" "pb_counters b = counters_init"
      "ww_flush_on_append (pb_writer b) = ww_flush_on_append w"
    using op ok wal_writer_create_error [of P os ?wal] unfolding persistent_open_def Let_def
    by (cases e) (auto simp: persistent_init_def split: if_splits prod.splits)
  then show "pb_broker b = broker_init C" "ww_flush_on_append (pb_writer b) = wc_flush_on_commit ?wal"
      "pb_counters b = counters_init"
    using c by (auto simp: wal_writer_create_config_def wal_writer_create_def wal_writer_make_def expected_error_def Let_def
        split: if_splits Expected.splits prod.splits)
qed

text \<open>A broker that a constructor has opened.\<close>

lemma persistent_construct_wal_state:
  assumes laws: "posix_laws P" and C: "static_capacity C"
    and con: "persistent_construct_wal P os R C config = (b, os1)" and valid: "persistent_valid b"
  shows "persistent_state R b [] []" "writer_owns P os1 (wc_path config) (pb_writer b)" "writer_clean (pb_writer b)"
    "mf_size (ww_file (pb_writer b)) = wc_file_size_bytes config" "pb_broker b = broker_init C"
    "ww_flush_on_append (pb_writer b) = wc_flush_on_commit config"
proof -
  obtain st where op: "persistent_open_wal P os R C (persistent_init C) config = (st, b, os1)"
    using con by (auto simp: persistent_construct_wal_def prod_eq_iff)
  have ok: "is_ok st"
  proof (rule ccontr)
    assume "\<not> is_ok st"
    then have "\<not> persistent_valid b"
      using op unfolding persistent_open_wal_def persistent_open_def Let_def
      by (auto simp: persistent_valid_def split: if_splits Expected.splits prod.splits)
    then show False using valid by blast
  qed
  note op' = op [unfolded persistent_open_wal_def]
  show "persistent_state R b [] []" "writer_owns P os1 (wc_path config) (pb_writer b)" "writer_clean (pb_writer b)"
    "mf_size (ww_file (pb_writer b)) = wc_file_size_bytes config" "pb_broker b = broker_init C"
    "ww_flush_on_append (pb_writer b) = wc_flush_on_commit config"
    using persistent_open_state [OF laws C op' ok] persistent_open_fields [OF op' ok] by simp_all
qed

lemma persistent_publish_ok:
  assumes st: "persistent_state R b consumed log" and tc: "trivially_copyable R" "unat (or_sizeof R) < 2 ^ 32"
    and room: "length (broker_contents (pb_broker b)) < broker_capacity (pb_broker b)"
    and fit: "length (wal_image (object_entries R 0 log)) + 40 + unat (or_sizeof R) \<le> unat (mf_size (ww_file (pb_writer b)))"
    and nf: "\<not> ww_flush_on_append (pb_writer b)"
  shows "\<exists>b'. persistent_try_publish P os now R b v flags = Some (status_ok, b', os) \<and>
    persistent_state R b' consumed (log @ [(now, v, flags)]) \<and> broker_capacity (pb_broker b') = broker_capacity (pb_broker b) \<and>
    mf_size (ww_file (pb_writer b')) = mf_size (ww_file (pb_writer b)) \<and> \<not> ww_flush_on_append (pb_writer b')"
proof -
  let ?m = "object_message R v flags" and ?w = "pb_writer b"
  have log: "writer_log ?w (object_entries R 0 log)" and ok: "broker_ok (pb_broker b)"
    using st by (simp_all add: persistent_state_def)
  have sz: "unat (mh_payload_size (mv_header ?m)) = length (mv_payload ?m)" "length (mv_payload ?m) = unat (or_sizeof R)"
    using tc by (simp_all add: object_message_def trivially_copyable_def unsigned_ucast_eq take_bit_nat_eq_self)
  obtain w where app: "wal_writer_append P os now ?w ?m = Some (status_ok, w, os)"
      and w: "mf_size (ww_file w) = mf_size (ww_file ?w)" "ww_flush_on_append w = ww_flush_on_append ?w"
    using fit nf sz by (simp add: wal_writer_append_eq [OF log] Let_def split_beta append_commit_def)
  have nfull: "\<not> broker_full (pb_broker b)"
    using room ring_full_iff [of "bk_queue (pb_broker b)"] ok by (auto simp: broker_full_def broker_defs)
  obtain bk where bk: "broker_try_publish (pb_broker b) v = Some (status_ok, bk)"
      "broker_capacity bk = broker_capacity (pb_broker b)"
    using broker.publish_room [OF ok room, of v] by blast
  obtain s b' os' where p: "persistent_try_publish P os now R b v flags = Some (s, b', os')"
      "persistent_state R b' consumed (if is_ok s then log @ [(now, v, flags)] else log)"
    using persistent_publish_cases [OF st, of P os now v flags] by blast
  have "s = status_ok" "os' = os" "pb_writer b' = w" "pb_broker b' = bk"
    using p(1) app bk nfull persistent_state_valid [OF st]
    by (auto simp: persistent_try_publish_def append_to_wal_def Let_def)
  then show ?thesis using p w nf bk(2) by simp
qed

lemma length_wal_image_objects:
  assumes "trivially_copyable R"
  shows "length (wal_image (object_entries R n log)) = (40 + unat (or_sizeof R)) * length log"
  using assms
  by (induction R n log rule: object_entries.induct)
    (simp_all add: append_entry_def object_message_def trivially_copyable_def)

section \<open>Typed replay\<close>

text \<open>A visitor that accepts every value and keeps it with its header.\<close>

definition collect_value ::
    "('a \<times> WalRecordHeader) list \<Rightarrow> 'a \<Rightarrow> WalRecordHeader \<Rightarrow> Status \<times> ('a \<times> WalRecordHeader) list" where
  "collect_value acc v h = (status_ok, acc @ [(v, h)])"

fun logged_records :: "'a object_rep \<Rightarrow> nat \<Rightarrow> (u64 \<times> 'a \<times> u32) list \<Rightarrow> ('a \<times> WalRecordHeader) list" where
  "logged_records R n [] = []"
| "logged_records R n ((now, v, flags) # xs) =
     (v, append_header (of_nat n) now (object_message R v flags)) # logged_records R (Suc n) xs"

lemma map_fst_logged_records: "map fst (logged_records R n xs) = map logged_value xs"
  by (induction R n xs rule: logged_records.induct) (auto simp: logged_value_def)

lemma map_sequence_logged_records:
  "map (rh_sequence \<circ> snd) (logged_records R n xs) = map of_nat [n..<n + length xs]"
  by (induction R n xs rule: logged_records.induct) (simp_all add: upt_conv_Cons del: upt_Suc)

lemma visit_object_entries:
  assumes "trivially_copyable R"
  shows "visit_all (replay_record R collect_value) (wal_views off (object_entries R n xs)) (acc, c, f) =
    Some (status_ok, length xs, acc @ logged_records R n xs, (record_recovered_record ^^ length xs) c, f)"
  using assms
proof (induction R n xs arbitrary: off acc c rule: object_entries.induct)
  case (2 R n now v flags xs)
  have "length (or_bytes R v) = unat (or_sizeof R)" "or_of_bytes R (or_bytes R v) = v"
    using 2(2) by (auto simp: trivially_copyable_def)
  then show ?case
    using 2(1) [OF 2(2)]
    by (simp add: replay_record_def append_entry_def object_message_def subspan_def collect_value_def
        funpow_swap1)
qed simp

lemma funpow_recovered [simp]:
  "ct_recovered_records ((record_recovered_record ^^ k) c) = ct_recovered_records c + of_nat k"
  "ct_recovery_failures ((record_recovered_record ^^ k) c) = ct_recovery_failures c"
  by (induction k) (simp_all add: counter_simps)

lemma replay_with_metrics_log:
  assumes tc: "trivially_copyable R" and op: "wal_reader_open P os path = (Expected_value r, os')"
    and inv: "reader_inv r" and log: "parse_log (reader_rest r) = (object_entries R 0 xs, mk_status Empty [])"
  shows "\<exists>os''. replay_with_metrics P os R path collect_value [] c =
    Some (status_ok, logged_records R 0 xs, (record_recovered_record ^^ length xs) c, os'')"
proof -
  have "wal_reader_replay (replay_record R collect_value) r ([], c, False) =
      Some (status_ok, reader_at r (object_entries R 0 xs), logged_records R 0 xs,
        (record_recovered_record ^^ length xs) c, False)"
    using wal_reader_replay_eq [OF inv log, of "replay_record R collect_value" "([], c, False)"]
    by (simp add: visit_object_entries [OF tc] replay_status_def)
  then show ?thesis using op by (simp add: replay_with_metrics_def Let_def)
qed

section \<open>The payload type of the applications\<close>

text \<open>\<open>OrderEvent\<close> of \<open>aether_pub\<close> and \<open>aether_sub\<close> on the LP64 platform: 8 bytes for the
  identifier, 8 for the \<open>double\<close> (held as its bit pattern), 4 for the quantity and 4 of padding.\<close>

record OrderEvent =
  oe_id :: u64
  oe_price_bits :: u64
  oe_quantity :: u32

definition order_event_rep :: "OrderEvent object_rep" where
  "order_event_rep = \<lparr>or_sizeof = 24,
     or_bytes = (\<lambda>e. le_bytes 8 (oe_id e) @ le_bytes 8 (oe_price_bits e) @ le_bytes 4 (oe_quantity e) @
       [0, 0, 0, 0]),
     or_of_bytes = (\<lambda>bs. \<lparr>oe_id = read_u64_le bs 0, oe_price_bits = read_u64_le bs 8,
       oe_quantity = read_u32_le bs 16\<rparr>)\<rparr>"

lemma order_event_trivially_copyable: "trivially_copyable order_event_rep"
proof -
  have "read_u64_le (le_bytes 8 a @ le_bytes 8 b @ le_bytes 4 c @ [0, 0, 0, 0]) 0 = a"
      "read_u64_le (le_bytes 8 a @ le_bytes 8 b @ le_bytes 4 c @ [0, 0, 0, 0]) 8 = b"
      "read_u32_le (le_bytes 8 a @ le_bytes 8 b @ le_bytes 4 c @ [0, 0, 0, 0]) 16 = c"
    for a b :: u64 and c :: u32
    by (rule read_u64_le_eq read_u32_le_eq; simp)+
  then show ?thesis by (simp add: trivially_copyable_def order_event_rep_def)
qed

text \<open>An open broker of capacity 2 on a file of 256 bytes, for the witnesses.\<close>

definition sample_config :: BrokerConfig where
  "sample_config = \<lparr>bc_queue = default_QueueConfig\<lparr>qc_capacity := 2\<rparr>,
     bc_wal = \<lparr>wc_path = ''w'', wc_file_size_bytes = 256, wc_flush_on_commit = False\<rparr>,
     bc_enable_wal = True\<rparr>"

definition sample_broker :: "OrderEvent PersistentBroker" where
  "sample_broker = (persistent_init 2)\<lparr>pb_writer :=
     wal_writer_make (memfs_file 256 (replicate 256 0)) False, pb_open_status := status_ok\<rparr>"

lemma sample_open:
  "persistent_open memfs_posix memfs_empty order_event_rep 2 (persistent_init 2) sample_config =
     (status_ok, sample_broker, memfs_opened (replicate 256 0))"
proof -
  have "static_capacity 2" by (simp add: static_capacity_def)
  then have "is_ok (validate_queue_config_for_capacity (bc_queue sample_config) 2)"
    by (simp add: status_simps sample_config_def)
  moreover have "validate_wal_config_for_payload (bc_wal sample_config) (or_sizeof order_event_rep) = status_ok"
    by (simp add: validate_wal_config_for_payload_def status_simps sample_config_def order_event_rep_def
        ucast_max_payload_size wal_record_header_size_def)
  moreover have "wal_writer_create_config memfs_posix memfs_empty (bc_wal sample_config) =
      (Expected_value (wal_writer_make (memfs_file 256 (replicate 256 0)) False),
       memfs_opened (replicate 256 0))"
    by (simp add: wal_writer_create_config_def wal_writer_create_def status_simps sample_config_def
        wal_record_header_size_def memfs_create)
  moreover have "bc_enable_wal sample_config" by (simp add: sample_config_def)
  ultimately show ?thesis
    by (simp add: persistent_open_def sample_broker_def mmap_move_assign_def mmap_close_default
        mmap_move_def Let_def)
qed

definition sample_event :: OrderEvent where
  "sample_event = \<lparr>oe_id = 1, oe_price_bits = 0x4059000000000000, oe_quantity = 1\<rparr>"

lemma sample_publish:
  "\<exists>b'. persistent_session memfs_posix order_event_rep sample_event (memfs_opened (replicate 256 0))
      sample_broker [Publish 5 sample_event 0] =
      Some ([Published status_ok], b', memfs_opened (replicate 256 0)) \<and>
    ww_file (pb_writer b') = memfs_file 256 (entry_image (append_entry 0 5
      (object_message order_event_rep sample_event 0)) @ replicate 192 0)"
proof -
  let ?m = "object_message order_event_rep sample_event 0" and ?w = "pb_writer sample_broker"
  have C: "static_capacity 2" by (simp add: static_capacity_def)
  have st: "persistent_state order_event_rep sample_broker [] []"
    using persistent_open_state [OF memfs_laws C sample_open] by simp
  then have log: "writer_log ?w []" and ok: "broker_ok (pb_broker sample_broker)"
    by (simp_all add: persistent_state_def)
  have m: "length (mv_payload ?m) = 24" "mh_payload_size (mv_header ?m) = 24"
    by (simp_all add: object_message_def order_event_rep_def)
  have app: "append_to_wal memfs_posix os 5 order_event_rep ?w sample_event 0 =
      Some (status_ok, append_commit 64 (writer_put ?w (append_entry 0 5 ?m)), os)" for os
    using m by (simp add: append_to_wal_def wal_writer_append_eq [OF log] Let_def split_beta)
      (simp add: sample_broker_def wal_writer_make_def memfs_file_def wal_writer_default_def)
  have bk: "pb_broker sample_broker = broker_init 2" by (simp add: sample_broker_def persistent_init_def)
  obtain bk' where pub: "broker_try_publish (broker_init 2) sample_event = Some (status_ok, bk')"
    using broker.publish_room [OF ok, of sample_event] by (auto simp: bk broker_init_ok [OF C])
  have "\<not> broker_full (broker_init 2 :: OrderEvent Broker)"
    by (simp add: broker_full_def ring_full_def ring_size_approx_def broker_init_def ring_init_def)
  then obtain b' where "persistent_try_publish memfs_posix (memfs_opened (replicate 256 0)) 5
      order_event_rep sample_broker sample_event 0 = Some (status_ok, b', memfs_opened (replicate 256 0))"
      "pb_writer b' = append_commit 64 (writer_put ?w (append_entry 0 5 ?m))"
    using persistent_state_valid [OF st] app pub that
    by (simp add: persistent_try_publish_def bk Let_def)
  moreover have "ww_file (append_commit 64 (writer_put ?w (append_entry 0 5 ?m))) =
      memfs_file 256 (entry_image (append_entry 0 5 ?m) @ replicate 192 0)"
    using memfs_written [of 256 64 False "append_entry 0 5 ?m"] m
    by (simp add: sample_broker_def append_entry_def)
  ultimately show ?thesis by simp
qed

section \<open>Properties\<close>

text \<open>
  C1. Log before queue. After a successful \<open>open\<close>, any sequence of \<open>try_publish\<close> and
  \<open>try_consume\<close> calls, with any failures of the file system, runs without undefined behaviour. The
  log in the file consists of exactly the messages that were published with \<open>ok\<close>, in order; the
  values of those messages are what was consumed followed by what is still queued; so every message
  a consumer ever sees is in the log. The state "logged but not queued" that the code reports as
  \<open>unknown\<close> never occurs, and the counters of messages, records and bytes agree with the log.
\<close>

theorem persistent_log_before_queue:
  assumes "posix_laws P" "static_capacity C"
    and "persistent_open P os R C (persistent_init C) config = (st, b, os1)" "is_ok st"
  shows "\<exists>rs b' os2. persistent_session P R out os1 b cs = Some (rs, b', os2) \<and>
    writer_log (pb_writer b') (object_entries R 0 (published_log cs rs)) \<and>
    map logged_value (published_log cs rs) = consumed_values rs @ broker_contents (pb_broker b') \<and>
    set rs \<inter> range (\<lambda>d. Published (mk_status Unknown d)) = {} \<and>
    ct_published (pb_counters b') = of_nat (length (published_log cs rs)) \<and>
    ct_wal_records_written (pb_counters b') = of_nat (length (published_log cs rs)) \<and>
    ct_wal_bytes_written (pb_counters b') = ww_current_offset (pb_writer b')"
proof -
  have "persistent_state R b [] []" using persistent_open_state [OF assms] by simp
  from persistent_session_state [OF this, of P out os1 cs] show ?thesis
    by (auto simp: persistent_state_def)
qed

theorem persistent_log_before_queue_witness:
  "\<exists>rs b' os2. persistent_session memfs_posix order_event_rep sample_event
      (memfs_opened (replicate 256 0)) sample_broker [Publish 5 sample_event 0, Consume] =
      Some (rs, b', os2) \<and>
    map logged_value (published_log [Publish 5 sample_event 0, Consume] rs) =
      consumed_values rs @ broker_contents (pb_broker b')"
proof -
  have C: "static_capacity 2" by (simp add: static_capacity_def)
  show ?thesis
    using persistent_log_before_queue [OF memfs_laws C sample_open, of sample_event
        "[Publish 5 sample_event 0, Consume]"]
    by (simp del: persistent_session.simps published_log.simps) blast
qed

text \<open>
  C6. Recovery. If no flush failed during the session, the writer's file was closed successfully and
  the file can be opened again, then \<open>replay_with_metrics\<close> reports success and hands the visitor
  exactly the values that were published with \<open>ok\<close>, in order, with the sequence numbers
  0, 1, 2, ...; it counts each of them as recovered and no failure.
\<close>

theorem persistent_replay_recovers:
  assumes "posix_laws P" "static_capacity C" "trivially_copyable R"
    and "persistent_open P os R C (persistent_init C) config = (st, b, os1)" "is_ok st"
    and "persistent_session P R out os1 b cs = Some (rs, b', os2)" "\<forall>r \<in> set rs. \<not> flush_failed r"
    and "mmap_close P os2 (ww_file (pb_writer b')) = (st', f, os3)" "is_ok st'"
    and "wal_reader_open P os3 (wc_path (bc_wal config)) = (Expected_value r, os4)"
  shows "\<exists>vs c os5. replay_with_metrics P os3 R (wc_path (bc_wal config)) collect_value [] counters_init =
      Some (status_ok, vs, c, os5) \<and>
    map fst vs = map logged_value (published_log cs rs) \<and>
    map (rh_sequence \<circ> snd) vs = map of_nat [0..<length (published_log cs rs)] \<and>
    ct_recovered_records c = of_nat (length (published_log cs rs)) \<and> ct_recovery_failures c = 0"
proof -
  let ?xs = "published_log cs rs"
  have o: "persistent_state R b [] []" "writer_clean (pb_writer b)"
      "writer_owns P os1 (wc_path (bc_wal config)) (pb_writer b)"
    using persistent_open_state [OF assms(1,2,4,5)] by simp_all
  have log: "writer_log (pb_writer b') (object_entries R 0 ?xs)" "writer_clean (pb_writer b')"
    using persistent_session_state [OF o(1), of P out os1 cs] assms(6,7) o(2)
    by (auto simp: persistent_state_def)
  note own = persistent_session_owns [OF assms(1) o(1,3) assms(6)]
  note r = writer_close_reader_open [OF assms(1) log(1) own assms(8-10)]
  obtain tail where "mmap_bytes (ww_file (pb_writer b')) = wal_image (object_entries R 0 ?xs) @ tail"
      "is_zero_filled tail"
    using writer_log_clean_bytes [OF log] .
  then have "parse_log (reader_rest r) = (object_entries R 0 ?xs, mk_status Empty [])"
    using r log(1) by (simp add: writer_log_def parse_log_image parse_log_zero)
  from replay_with_metrics_log [OF assms(3,10) _ this, of counters_init] r
  show ?thesis
    by (auto simp: map_fst_logged_records map_sequence_logged_records)
qed

theorem persistent_replay_recovers_witness:
  "\<exists>os3 vs c os5. replay_with_metrics memfs_posix os3 order_event_rep ''w'' collect_value [] counters_init =
      Some (status_ok, vs, c, os5) \<and> map fst vs = [sample_event] \<and> ct_recovered_records c = 1"
proof -
  let ?bs = "entry_image (append_entry 0 5 (object_message order_event_rep sample_event 0)) @ replicate 192 0"
  have C: "static_capacity 2" by (simp add: static_capacity_def)
  obtain b' where run: "persistent_session memfs_posix order_event_rep sample_event
      (memfs_opened (replicate 256 0)) sample_broker [Publish 5 sample_event 0] =
      Some ([Published status_ok], b', memfs_opened (replicate 256 0))"
    and w: "ww_file (pb_writer b') = memfs_file 256 ?bs"
    using sample_publish by blast
  have cl: "mmap_close memfs_posix (memfs_opened (replicate 256 0)) (ww_file (pb_writer b')) =
      (status_ok, mmap_default, memfs_closed ?bs)"
    by (simp add: w memfs_close_file)
  have len: "length ?bs < 2 ^ 63"
    by (simp add: append_entry_def object_message_def order_event_rep_def)
  have path: "wc_path (bc_wal sample_config) = ''w''" by (simp add: sample_config_def)
  obtain r os4 where op: "wal_reader_open memfs_posix (memfs_closed ?bs) ''w'' = (Expected_value r, os4)"
    using memfs_reopen [OF _ len] by (simp add: wal_reader_open_def)
  obtain vs c os5 where "replay_with_metrics memfs_posix (memfs_closed ?bs) order_event_rep ''w''
      collect_value [] counters_init = Some (status_ok, vs, c, os5)" "map fst vs = [sample_event]"
      "ct_recovered_records c = 1"
    using persistent_replay_recovers [OF memfs_laws C order_event_trivially_copyable sample_open _ run _ cl,
        unfolded path, OF _ _ _ op]
    by (auto simp: logged_value_def)
  then show ?thesis by (intro exI conjI)
qed

text \<open>The calls that a broker may receive after it has been opened, with the status each returns.\<close>

datatype 'a pb_request = Req_open BrokerConfig | Req_publish u64 'a u32 | Req_consume | Req_flush

fun persistent_request ::
    "'os posix \<Rightarrow> 'a object_rep \<Rightarrow> size_t \<Rightarrow> 'a \<Rightarrow> 'os \<Rightarrow> 'a PersistentBroker \<Rightarrow> 'a pb_request \<Rightarrow>
     (Status \<times> 'a PersistentBroker \<times> 'os) option" where
  "persistent_request P R C out os b (Req_open config) = Some (persistent_open P os R C b config)"
| "persistent_request P R C out os b (Req_publish now v flags) = persistent_try_publish P os now R b v flags"
| "persistent_request P R C out os b Req_consume =
     map_option (\<lambda>(st, _, b). (st, b, os)) (persistent_try_consume b out)"
| "persistent_request P R C out os b Req_flush = Some (persistent_flush P os b)"

fun persistent_requests ::
    "'os posix \<Rightarrow> 'a object_rep \<Rightarrow> size_t \<Rightarrow> 'a \<Rightarrow> 'os \<Rightarrow> 'a PersistentBroker \<Rightarrow> 'a pb_request list \<Rightarrow>
     (Status list \<times> 'a PersistentBroker \<times> 'os) option" where
  "persistent_requests P R C out os b [] = Some ([], b, os)"
| "persistent_requests P R C out os b (c # cs) =
     do { (st, b, os) \<leftarrow> persistent_request P R C out os b c;
          (sts, b, os) \<leftarrow> persistent_requests P R C out os b cs;
          Some (st # sts, b, os) }"

abbreviation already_open :: Status where
  "already_open \<equiv> mk_status Invalid_argument ''persistent broker is already open''"

lemma poisoned_request:
  assumes "wal_writer_valid (pb_writer b)" "pb_open_status b = already_open"
  shows "\<exists>b'. persistent_request P R C out os b c = Some (already_open, b', os) \<and> pb_broker b' = pb_broker b \<and>
    pb_writer b' = pb_writer b \<and> pb_open_status b' = already_open"
  using assms
  by (cases c) (auto simp: persistent_open_def persistent_try_publish_def persistent_try_consume_def persistent_flush_def
      persistent_valid_def Let_def)

lemma poisoned_requests:
  assumes "wal_writer_valid (pb_writer b)" "pb_open_status b = already_open"
  shows "\<exists>b'. persistent_requests P R C out os b cs = Some (replicate (length cs) already_open, b', os) \<and>
    pb_broker b' = pb_broker b \<and> pb_writer b' = pb_writer b \<and> pb_open_status b' = already_open"
  using assms
proof (induction cs arbitrary: b)
  case (Cons c cs)
  obtain b1 where b1: "persistent_request P R C out os b c = Some (already_open, b1, os)" "pb_broker b1 = pb_broker b"
      "pb_writer b1 = pb_writer b" "pb_open_status b1 = already_open"
    using poisoned_request [OF Cons.prems, of P R C out os c] by auto
  with Cons.IH [of b1] Cons.prems show ?case by auto
qed simp

text \<open>
  C39. Opening twice. Calling \<open>open\<close> on an open broker is refused, but it overwrites the stored open
  status: the broker, whose file and queue are untouched, is from then on not valid. Publishing and
  consuming are refused, and whatever calls follow (\<open>open\<close>, \<open>try_publish\<close>, \<open>try_consume\<close> and \<open>flush\<close>, with
  any arguments, in any order and number), each of them returns the same error and leaves the log, the
  queue and the system as they are: queued messages can no longer be consumed.
\<close>

theorem persistent_open_twice_poisons:
  assumes "persistent_valid b" "persistent_open P os R C b config = (st, b', os')"
  shows "st = mk_status Invalid_argument ''persistent broker is already open'' \<and> os' = os \<and>
    b' = b\<lparr>pb_open_status := st\<rparr> \<and> \<not> persistent_valid b' \<and>
    persistent_try_publish P os now R b' v flags =
      Some (st, b'\<lparr>pb_counters := record_publish_failed_invalid (pb_counters b)\<rparr>, os) \<and>
    persistent_try_consume b' out =
      Some (st, out, b'\<lparr>pb_counters := record_consume_failed_invalid (pb_counters b)\<rparr>) \<and>
    (\<forall>calls. \<exists>b''. persistent_requests P R C out os b' calls = Some (replicate (length calls) st, b'', os) \<and>
       pb_broker b'' = pb_broker b \<and> pb_writer b'' = pb_writer b \<and> \<not> persistent_valid b'')"
proof -
  have w: "wal_writer_valid (pb_writer b)" using assms(1) by (simp add: persistent_valid_def)
  have o: "st = already_open" "os' = os" "b' = b\<lparr>pb_open_status := already_open\<rparr>"
    using assms(2) w by (auto simp: persistent_open_def Let_def)
  have "\<exists>b''. persistent_requests P R C out os b' calls = Some (replicate (length calls) st, b'', os) \<and>
      pb_broker b'' = pb_broker b \<and> pb_writer b'' = pb_writer b \<and> \<not> persistent_valid b''" for calls
    using poisoned_requests [of b' P R C out os calls] w by (auto simp: o persistent_valid_def)
  then show ?thesis
    using o by (simp add: persistent_valid_def persistent_try_publish_def persistent_try_consume_def)
qed

theorem persistent_open_twice_poisons_witness:
  "\<exists>st b'. persistent_open memfs_posix memfs_empty order_event_rep 2 sample_broker sample_config = (st, b', memfs_empty) \<and>
     \<not> is_ok st \<and> fst (the (persistent_try_publish memfs_posix memfs_empty 5 order_event_rep b' sample_event 0)) = st"
proof -
  have valid: "persistent_valid sample_broker"
    by (simp add: persistent_valid_def sample_broker_def wal_writer_valid_def wal_writer_make_def
        mmap_valid_def memfs_file_def)
  obtain st b' os where op: "persistent_open memfs_posix memfs_empty order_event_rep 2 sample_broker sample_config = (st, b', os)"
    by (rule prod_cases3)
  show ?thesis
    using persistent_open_twice_poisons [OF valid op, of 5 sample_event 0 sample_event] op by auto
qed

end
