(* ===== verification/Spsc_Concurrent.thy ===== *)
theory Spsc_Concurrent
  imports Spsc_Ring_Buffer
begin

text \<open>
  The ring buffer under concurrency: one producer thread in \<open>try_emplace\<close>, one consumer thread in
  \<open>try_pop\<close>, interleaved at every access to shared memory, under the release/acquire rules of the
  C++ memory model.

  \<^item> \<open>head_\<close> and \<open>tail_\<close> have one writer each. The modification order of each is a list of
    messages, oldest first: the value stored and, for the release store, the writer's clock. A
    thread reads its own variable up to date; an acquire load of the other variable may return any
    message that is not older than the one it returned before, and then makes visible what the
    writer did before that store.
  \<^item> The slots are not atomic. A thread's clock counts its accesses to slots; each slot remembers
    the clock of the last access of either thread. An access is a data race when the other thread's
    last access to the slot is later than what this thread has been made aware of. A race, a
    construction on a live object and an access to an object that is not alive are undefined
    behaviour: the step leads to \<open>None\<close>.
  \<^item> \<open>cq_pushed\<close> and \<open>cq_popped\<close> record the values of the operations that returned \<open>true\<close>.
\<close>

section \<open>Model\<close>

datatype 'a producer_pc =
    P_idle
  | P_head_loaded 'a size_t
  | P_has_room 'a size_t
  | P_constructed 'a size_t

datatype 'a consumer_pc =
    C_idle
  | C_tail_loaded size_t
  | C_nonempty size_t
  | C_moved 'a size_t
  | C_destroyed 'a size_t

type_synonym atomic_history = "(size_t \<times> nat) list"

record 'a spsc_conc =
  cq_capacity :: size_t
  cq_slots :: "'a option list"
  cq_heads :: atomic_history
  cq_tails :: atomic_history
  cq_ppc :: "'a producer_pc"
  cq_cpc :: "'a consumer_pc"
  cq_p_clock :: nat
  cq_c_clock :: nat
  cq_p_access :: "nat list"
  cq_c_access :: "nat list"
  cq_p_read :: nat
  cq_c_read :: nat
  cq_p_aware :: nat
  cq_c_aware :: nat
  cq_pushed :: "'a list"
  cq_popped :: "'a list"

definition spsc_init :: "size_t \<Rightarrow> 'a spsc_conc" where
  "spsc_init C = \<lparr>cq_capacity = C, cq_slots = replicate (unat C) None,
     cq_heads = [(0, 0)], cq_tails = [(0, 0)], cq_ppc = P_idle, cq_cpc = C_idle,
     cq_p_clock = 0, cq_c_clock = 0,
     cq_p_access = replicate (unat C) 0, cq_c_access = replicate (unat C) 0,
     cq_p_read = 0, cq_c_read = 0, cq_p_aware = 0, cq_c_aware = 0,
     cq_pushed = [], cq_popped = []\<rparr>"

text \<open>\<open>tail_.load(acquire)\<close> by the producer and \<open>head_.load(acquire)\<close> by the consumer, reading
  message \<open>j\<close>.\<close>

definition acquire_tail :: "nat \<Rightarrow> 'a spsc_conc \<Rightarrow> 'a spsc_conc" where
  "acquire_tail j s =
     s\<lparr>cq_p_read := j, cq_p_aware := max (cq_p_aware s) (snd (cq_tails s ! j))\<rparr>"

definition acquire_head :: "nat \<Rightarrow> 'a spsc_conc \<Rightarrow> 'a spsc_conc" where
  "acquire_head j s =
     s\<lparr>cq_c_read := j, cq_c_aware := max (cq_c_aware s) (snd (cq_heads s ! j))\<rparr>"

text \<open>Accesses to the slot of a counter value, with the check for a race.\<close>

definition producer_access :: "size_t \<Rightarrow> 'a spsc_conc \<Rightarrow> 'a spsc_conc option" where
  "producer_access index s =
     (let i = slot_index (cq_capacity s) index in
      if cq_c_access s ! i \<le> cq_p_aware s
      then Some (s\<lparr>cq_p_clock := Suc (cq_p_clock s),
                   cq_p_access := (cq_p_access s)[i := Suc (cq_p_clock s)]\<rparr>)
      else None)"

definition consumer_access :: "size_t \<Rightarrow> 'a spsc_conc \<Rightarrow> 'a spsc_conc option" where
  "consumer_access index s =
     (let i = slot_index (cq_capacity s) index in
      if cq_p_access s ! i \<le> cq_c_aware s
      then Some (s\<lparr>cq_c_clock := Suc (cq_c_clock s),
                   cq_c_access := (cq_c_access s)[i := Suc (cq_c_clock s)]\<rparr>)
      else None)"

definition push_construct :: "'a \<Rightarrow> size_t \<Rightarrow> 'a spsc_conc \<Rightarrow> 'a spsc_conc option" where
  "push_construct v head s =
     do { s \<leftarrow> producer_access head s;
          slots \<leftarrow> construct_at (cq_slots s) (slot_index (cq_capacity s) head) v;
          Some (s\<lparr>cq_slots := slots, cq_ppc := P_constructed v head\<rparr>) }"

definition push_publish :: "'a \<Rightarrow> size_t \<Rightarrow> 'a spsc_conc \<Rightarrow> 'a spsc_conc" where
  "push_publish v head s =
     s\<lparr>cq_heads := cq_heads s @ [(head + 1, cq_p_clock s)], cq_ppc := P_idle,
       cq_pushed := cq_pushed s @ [v]\<rparr>"

definition pop_move :: "size_t \<Rightarrow> 'a spsc_conc \<Rightarrow> 'a spsc_conc option" where
  "pop_move tail s =
     do { s \<leftarrow> consumer_access tail s;
          v \<leftarrow> slot_value (cq_slots s) (slot_index (cq_capacity s) tail);
          Some (s\<lparr>cq_cpc := C_moved v tail\<rparr>) }"

definition pop_destroy :: "'a \<Rightarrow> size_t \<Rightarrow> 'a spsc_conc \<Rightarrow> 'a spsc_conc option" where
  "pop_destroy v tail s =
     do { s \<leftarrow> consumer_access tail s;
          slots \<leftarrow> destroy_at (cq_slots s) (slot_index (cq_capacity s) tail);
          Some (s\<lparr>cq_slots := slots, cq_cpc := C_destroyed v tail\<rparr>) }"

definition pop_publish :: "'a \<Rightarrow> size_t \<Rightarrow> 'a spsc_conc \<Rightarrow> 'a spsc_conc" where
  "pop_publish v tail s =
     s\<lparr>cq_tails := cq_tails s @ [(tail + 1, cq_c_clock s)], cq_cpc := C_idle,
       cq_popped := cq_popped s @ [v]\<rparr>"

text \<open>One step of the producer and one step of the consumer; the read index \<open>j\<close> is the choice of
  the memory. The \<open>observe\<close> steps are the acquire loads of \<open>empty()\<close>, \<open>full()\<close> and
  \<open>size_approx()\<close> when the thread calls them between its operations.\<close>

inductive producer_step :: "'a spsc_conc \<Rightarrow> 'a spsc_conc option \<Rightarrow> bool" where
  push_start:
    "cq_ppc s = P_idle \<Longrightarrow>
     producer_step s (Some (s\<lparr>cq_ppc := P_head_loaded v (fst (last (cq_heads s)))\<rparr>))"
| push_full:
    "cq_ppc s = P_head_loaded v head \<Longrightarrow> cq_p_read s \<le> j \<Longrightarrow> j < length (cq_tails s) \<Longrightarrow>
     head - fst (cq_tails s ! j) \<ge> cq_capacity s \<Longrightarrow>
     producer_step s (Some ((acquire_tail j s)\<lparr>cq_ppc := P_idle\<rparr>))"
| push_room:
    "cq_ppc s = P_head_loaded v head \<Longrightarrow> cq_p_read s \<le> j \<Longrightarrow> j < length (cq_tails s) \<Longrightarrow>
     \<not> head - fst (cq_tails s ! j) \<ge> cq_capacity s \<Longrightarrow>
     producer_step s (Some ((acquire_tail j s)\<lparr>cq_ppc := P_has_room v head\<rparr>))"
| push_construct:
    "cq_ppc s = P_has_room v head \<Longrightarrow> producer_step s (push_construct v head s)"
| push_publish:
    "cq_ppc s = P_constructed v head \<Longrightarrow> producer_step s (Some (push_publish v head s))"
| push_observe:
    "cq_ppc s = P_idle \<Longrightarrow> cq_p_read s \<le> j \<Longrightarrow> j < length (cq_tails s) \<Longrightarrow>
     producer_step s (Some (acquire_tail j s))"

inductive consumer_step :: "'a spsc_conc \<Rightarrow> 'a spsc_conc option \<Rightarrow> bool" where
  pop_start:
    "cq_cpc s = C_idle \<Longrightarrow>
     consumer_step s (Some (s\<lparr>cq_cpc := C_tail_loaded (fst (last (cq_tails s)))\<rparr>))"
| pop_empty:
    "cq_cpc s = C_tail_loaded tail \<Longrightarrow> cq_c_read s \<le> j \<Longrightarrow> j < length (cq_heads s) \<Longrightarrow>
     tail = fst (cq_heads s ! j) \<Longrightarrow>
     consumer_step s (Some ((acquire_head j s)\<lparr>cq_cpc := C_idle\<rparr>))"
| pop_nonempty:
    "cq_cpc s = C_tail_loaded tail \<Longrightarrow> cq_c_read s \<le> j \<Longrightarrow> j < length (cq_heads s) \<Longrightarrow>
     tail \<noteq> fst (cq_heads s ! j) \<Longrightarrow>
     consumer_step s (Some ((acquire_head j s)\<lparr>cq_cpc := C_nonempty tail\<rparr>))"
| pop_move:
    "cq_cpc s = C_nonempty tail \<Longrightarrow> consumer_step s (pop_move tail s)"
| pop_destroy:
    "cq_cpc s = C_moved v tail \<Longrightarrow> consumer_step s (pop_destroy v tail s)"
| pop_publish:
    "cq_cpc s = C_destroyed v tail \<Longrightarrow> consumer_step s (Some (pop_publish v tail s))"
| pop_observe:
    "cq_cpc s = C_idle \<Longrightarrow> cq_c_read s \<le> j \<Longrightarrow> j < length (cq_heads s) \<Longrightarrow>
     consumer_step s (Some (acquire_head j s))"

definition spsc_step :: "'a spsc_conc \<Rightarrow> 'a spsc_conc option \<Rightarrow> bool" where
  "spsc_step s r \<longleftrightarrow> producer_step s r \<or> consumer_step s r"

inductive spsc_reach :: "size_t \<Rightarrow> 'a spsc_conc \<Rightarrow> bool" for C :: size_t where
  reach_init: "spsc_reach C (spsc_init C)"
| reach_step: "spsc_reach C s \<Longrightarrow> spsc_step s (Some s') \<Longrightarrow> spsc_reach C s'"

text \<open>Runs, labelled with the thread that takes each step.\<close>

datatype thread = Producer | Consumer

inductive spsc_run :: "'a spsc_conc \<Rightarrow> thread list \<Rightarrow> 'a spsc_conc \<Rightarrow> bool" where
  run_nil: "spsc_run s [] s"
| run_producer:
    "producer_step s (Some s1) \<Longrightarrow> spsc_run s1 ls s' \<Longrightarrow> spsc_run s (Producer # ls) s'"
| run_consumer:
    "consumer_step s (Some s1) \<Longrightarrow> spsc_run s1 ls s' \<Longrightarrow> spsc_run s (Consumer # ls) s'"

text \<open>What \<open>size_approx()\<close> and \<open>full()\<close> return to a caller that loaded message \<open>i\<close> of \<open>head_\<close>
  and message \<open>j\<close> of \<open>tail_\<close>.\<close>

definition observed_size :: "'a spsc_conc \<Rightarrow> nat \<Rightarrow> nat \<Rightarrow> size_t" where
  "observed_size s i j = fst (cq_heads s ! i) - fst (cq_tails s ! j)"

definition observed_full :: "'a spsc_conc \<Rightarrow> nat \<Rightarrow> nat \<Rightarrow> bool" where
  "observed_full s i j \<longleftrightarrow> observed_size s i j \<ge> cq_capacity s"

inductive_cases producer_stepE: "producer_step s r"
inductive_cases consumer_stepE: "consumer_step s r"
inductive_cases spsc_run_ConsE: "spsc_run s (l # ls) s'"
inductive_simps spsc_run_Nil [simp]: "spsc_run s [] s'"

section \<open>Invariant\<close>

text \<open>
  Item \<open>m\<close> is the value of the push number \<open>m\<close>, counted from 0 without wrap-around. The items
  constructed so far are the published ones and the one the producer has constructed but not yet
  published; \<open>consumed\<close> items have been destroyed by the consumer.
\<close>

definition items :: "'a spsc_conc \<Rightarrow> 'a list" where
  "items s = cq_pushed s @ (case cq_ppc s of P_constructed v h \<Rightarrow> [v] | _ \<Rightarrow> [])"

definition moved_items :: "'a spsc_conc \<Rightarrow> nat" where
  "moved_items s = length (cq_popped s) +
     (case cq_cpc s of C_moved v t \<Rightarrow> 1 | C_destroyed v t \<Rightarrow> 1 | _ \<Rightarrow> 0)"

definition destroyed_items :: "'a spsc_conc \<Rightarrow> nat" where
  "destroyed_items s = length (cq_popped s) + (case cq_cpc s of C_destroyed v t \<Rightarrow> 1 | _ \<Rightarrow> 0)"

text \<open>The atomic histories, and how far each thread has seen and may go.\<close>

definition counters_inv :: "size_t \<Rightarrow> 'a spsc_conc \<Rightarrow> bool" where
  "counters_inv C s \<longleftrightarrow> cq_capacity s = C \<and>
     cq_heads s = map (\<lambda>i. (of_nat i, i)) [0..<Suc (length (cq_pushed s))] \<and>
     cq_tails s = map (\<lambda>i. (of_nat i, 2 * i)) [0..<Suc (length (cq_popped s))] \<and>
     length (cq_popped s) \<le> cq_c_read s \<and> cq_c_read s \<le> length (cq_pushed s) \<and>
     length (cq_pushed s) \<le> cq_p_read s + unat C \<and> cq_p_read s \<le> length (cq_popped s) \<and>
     cq_p_aware s = 2 * cq_p_read s \<and> cq_c_aware s = cq_c_read s \<and>
     cq_p_clock s = length (items s) \<and> cq_c_clock s = moved_items s + destroyed_items s"

fun producer_inv :: "size_t \<Rightarrow> 'a spsc_conc \<Rightarrow> 'a producer_pc \<Rightarrow> bool" where
  "producer_inv C s P_idle \<longleftrightarrow> True"
| "producer_inv C s (P_head_loaded v h) \<longleftrightarrow> h = of_nat (length (cq_pushed s))"
| "producer_inv C s (P_has_room v h) \<longleftrightarrow> h = of_nat (length (cq_pushed s)) \<and>
     length (cq_pushed s) < cq_p_read s + unat C"
| "producer_inv C s (P_constructed v h) \<longleftrightarrow> h = of_nat (length (cq_pushed s)) \<and>
     length (cq_pushed s) < cq_p_read s + unat C"

fun consumer_inv :: "'a spsc_conc \<Rightarrow> 'a consumer_pc \<Rightarrow> bool" where
  "consumer_inv s C_idle \<longleftrightarrow> True"
| "consumer_inv s (C_tail_loaded t) \<longleftrightarrow> t = of_nat (length (cq_popped s))"
| "consumer_inv s (C_nonempty t) \<longleftrightarrow> t = of_nat (length (cq_popped s)) \<and>
     length (cq_popped s) < cq_c_read s"
| "consumer_inv s (C_moved v t) \<longleftrightarrow> t = of_nat (length (cq_popped s)) \<and>
     length (cq_popped s) < cq_c_read s \<and> v = cq_pushed s ! length (cq_popped s)"
| "consumer_inv s (C_destroyed v t) \<longleftrightarrow> t = of_nat (length (cq_popped s)) \<and>
     length (cq_popped s) < cq_c_read s \<and> v = cq_pushed s ! length (cq_popped s)"

text \<open>The last accesses: item \<open>m\<close> is the producer's access \<open>m + 1\<close> and the consumer's accesses
  \<open>2 * m + 1\<close> and \<open>2 * m + 2\<close>.\<close>

definition access_inv :: "size_t \<Rightarrow> 'a spsc_conc \<Rightarrow> bool" where
  "access_inv C s \<longleftrightarrow>
     length (cq_p_access s) = unat C \<and> length (cq_c_access s) = unat C \<and>
     (\<forall>i < unat C. cq_p_access s ! i = 0 \<or>
        (\<exists>m < length (items s). m mod unat C = i \<and> cq_p_access s ! i \<le> m + 1)) \<and>
     (\<forall>i < unat C. cq_c_access s ! i = 0 \<or>
        (\<exists>m < moved_items s. m mod unat C = i \<and> cq_c_access s ! i \<le> 2 * m + 2))"

text \<open>The slots: exactly the constructed items that are not yet destroyed are alive.\<close>

definition slots_inv :: "size_t \<Rightarrow> 'a spsc_conc \<Rightarrow> bool" where
  "slots_inv C s \<longleftrightarrow> length (cq_slots s) = unat C \<and>
     (\<forall>m. destroyed_items s \<le> m \<and> m < destroyed_items s + unat C \<longrightarrow>
        cq_slots s ! (m mod unat C) = (if m < length (items s) then Some (items s ! m) else None))"

definition spsc_inv :: "size_t \<Rightarrow> 'a spsc_conc \<Rightarrow> bool" where
  "spsc_inv C s \<longleftrightarrow> static_capacity C \<and> counters_inv C s \<and> producer_inv C s (cq_ppc s) \<and>
     consumer_inv s (cq_cpc s) \<and> access_inv C s \<and> slots_inv C s \<and>
     cq_popped s = take (length (cq_popped s)) (cq_pushed s)"

subsection \<open>Arithmetic\<close>

lemma congruent_below:
  fixes m h n :: nat
  assumes "m < h" "m mod n = h mod n" "0 < n"
  shows "m + n \<le> h"
proof -
  have "n dvd h - m" using assms by (metis less_imp_le mod_eq_dvd_iff_nat)
  then have "n \<le> h - m" using assms(1) by (simp add: dvd_imp_le)
  then show ?thesis using assms(1) by simp
qed

lemma congruent_window:
  fixes a b d n :: nat
  assumes "d \<le> a" "a < d + n" "d \<le> b" "b < d + n" "a mod n = b mod n"
  shows "a = b"
  using congruent_below [of a b n] congruent_below [of b a n] assms by (cases a b rule: linorder_cases) auto

lemma slot_index_of_nat: "static_capacity C \<Longrightarrow> slot_index C (of_nat m) = m mod unat C"
  using slot_index_offset [of C 0 m] by simp

lemma of_nat_diff_counter:
  assumes "static_capacity C" "j \<le> h" "h \<le> j + unat C"
  shows "unat (of_nat h - of_nat j :: size_t) = h - j"
proof -
  have "of_nat h - of_nat j = (of_nat (h - j) :: size_t)" using assms(2) by (simp add: of_nat_diff)
  then show ?thesis using unat_of_nat_le_cap [OF assms(1), of "h - j"] assms(3) by simp
qed

lemma of_nat_counter_eq_iff:
  assumes "static_capacity C" "t \<le> j" "j \<le> t + unat C"
  shows "(of_nat t :: size_t) = of_nat j \<longleftrightarrow> t = j"
  using of_nat_diff_counter [OF assms] assms(2) by (auto simp: unsigned_eq_0_iff)

subsection \<open>Preservation\<close>

lemmas spsc_inv_defs = spsc_inv_def counters_inv_def items_def moved_items_def destroyed_items_def
  access_inv_def slots_inv_def

lemma spsc_inv_init: "static_capacity C \<Longrightarrow> spsc_inv C (spsc_init C)"
  by (auto simp: spsc_inv_defs spsc_init_def static_capacity_bounds(1))

lemma tail_message:
  assumes "counters_inv C s" "j < length (cq_tails s)"
  shows "cq_tails s ! j = (of_nat j, 2 * j)" "j \<le> length (cq_popped s)"
proof -
  have "j < Suc (length (cq_popped s))" using assms by (simp add: counters_inv_def)
  then show "cq_tails s ! j = (of_nat j, 2 * j)" "j \<le> length (cq_popped s)"
    using assms(1) by (simp_all add: counters_inv_def del: upt_Suc)
qed

lemma head_message:
  assumes "counters_inv C s" "j < length (cq_heads s)"
  shows "cq_heads s ! j = (of_nat j, j)" "j \<le> length (cq_pushed s)"
proof -
  have "j < Suc (length (cq_pushed s))" using assms by (simp add: counters_inv_def)
  then show "cq_heads s ! j = (of_nat j, j)" "j \<le> length (cq_pushed s)"
    using assms(1) by (simp_all add: counters_inv_def del: upt_Suc)
qed

lemma last_messages:
  assumes "counters_inv C s"
  shows "fst (last (cq_heads s)) = of_nat (length (cq_pushed s))"
    "fst (last (cq_tails s)) = of_nat (length (cq_popped s))"
  using assms by (simp_all add: counters_inv_def)

lemma spsc_inv_push_start:
  assumes "spsc_inv C s" "cq_ppc s = P_idle"
  shows "spsc_inv C (s\<lparr>cq_ppc := P_head_loaded v (fst (last (cq_heads s)))\<rparr>)"
proof -
  have "fst (last (cq_heads s)) = of_nat (length (cq_pushed s))"
    using assms(1) last_messages(1) [of C s] by (simp add: spsc_inv_def)
  then show ?thesis
    using assms by (cases "cq_cpc s") (simp_all add: spsc_inv_defs)
qed

lemma spsc_inv_acquire_tail:
  assumes inv: "spsc_inv C s" and pc: "cq_ppc s = P_head_loaded v h"
    and j: "cq_p_read s \<le> j" "j < length (cq_tails s)"
  shows "h - fst (cq_tails s ! j) \<ge> C \<Longrightarrow> spsc_inv C ((acquire_tail j s)\<lparr>cq_ppc := P_idle\<rparr>)"
    and "\<not> h - fst (cq_tails s ! j) \<ge> C \<Longrightarrow>
      spsc_inv C ((acquire_tail j s)\<lparr>cq_ppc := P_has_room v h\<rparr>)"
proof -
  have cnt: "counters_inv C s" and C: "static_capacity C" using inv by (simp_all add: spsc_inv_def)
  note msg = tail_message [OF cnt j(2)]
  have le: "j \<le> length (cq_pushed s)" "length (cq_pushed s) \<le> j + unat C"
    using msg(2) cnt j(1) by (simp_all add: counters_inv_def)
  have "h = of_nat (length (cq_pushed s))" using inv pc by (simp add: spsc_inv_def)
  then have room: "h - fst (cq_tails s ! j) \<ge> C \<longleftrightarrow> length (cq_pushed s) = j + unat C"
    using of_nat_diff_counter [OF C le] le by (simp add: msg(1) word_le_nat_alt) linarith
  show "h - fst (cq_tails s ! j) \<ge> C \<Longrightarrow> spsc_inv C ((acquire_tail j s)\<lparr>cq_ppc := P_idle\<rparr>)"
    using inv pc le msg j(1)
    by (cases "cq_cpc s") (simp_all add: spsc_inv_defs acquire_tail_def)
  show "\<not> h - fst (cq_tails s ! j) \<ge> C \<Longrightarrow>
      spsc_inv C ((acquire_tail j s)\<lparr>cq_ppc := P_has_room v h\<rparr>)"
    using inv pc le msg j(1) room
    by (cases "cq_cpc s") (simp_all add: spsc_inv_defs acquire_tail_def)
qed

lemma spsc_inv_pop_start:
  assumes "spsc_inv C s" "cq_cpc s = C_idle"
  shows "spsc_inv C (s\<lparr>cq_cpc := C_tail_loaded (fst (last (cq_tails s)))\<rparr>)"
proof -
  have "fst (last (cq_tails s)) = of_nat (length (cq_popped s))"
    using assms(1) last_messages(2) [of C s] by (simp add: spsc_inv_def)
  then show ?thesis
    using assms by (cases "cq_ppc s") (simp_all add: spsc_inv_defs)
qed

lemma spsc_inv_acquire_head:
  assumes inv: "spsc_inv C s" and pc: "cq_cpc s = C_tail_loaded t"
    and j: "cq_c_read s \<le> j" "j < length (cq_heads s)"
  shows "spsc_inv C ((acquire_head j s)\<lparr>cq_cpc := C_idle\<rparr>)"
    and "t \<noteq> fst (cq_heads s ! j) \<Longrightarrow> spsc_inv C ((acquire_head j s)\<lparr>cq_cpc := C_nonempty t\<rparr>)"
proof -
  have cnt: "counters_inv C s" and C: "static_capacity C" using inv by (simp_all add: spsc_inv_def)
  note msg = head_message [OF cnt j(2)]
  have le: "length (cq_popped s) \<le> j" "j \<le> length (cq_popped s) + unat C"
    using msg(2) cnt j(1) by (simp_all add: counters_inv_def)
  have "t = of_nat (length (cq_popped s))" using inv pc by (simp add: spsc_inv_def)
  then have nonempty: "t \<noteq> fst (cq_heads s ! j) \<Longrightarrow> length (cq_popped s) < j"
    using of_nat_counter_eq_iff [OF C le] le by (auto simp: msg(1))
  show "spsc_inv C ((acquire_head j s)\<lparr>cq_cpc := C_idle\<rparr>)"
    using inv pc le msg j(1)
    by (cases "cq_ppc s") (simp_all add: spsc_inv_defs acquire_head_def)
  show "t \<noteq> fst (cq_heads s ! j) \<Longrightarrow> spsc_inv C ((acquire_head j s)\<lparr>cq_cpc := C_nonempty t\<rparr>)"
    using inv pc le msg j(1) nonempty
    by (cases "cq_ppc s") (simp_all add: spsc_inv_defs acquire_head_def)
qed

lemma spsc_inv_bounds:
  assumes "spsc_inv C s"
  shows "moved_items s \<le> length (cq_pushed s)" "length (items s) \<le> length (cq_popped s) + unat C"
    "destroyed_items s \<le> moved_items s" "length (cq_popped s) \<le> destroyed_items s"
proof -
  show "moved_items s \<le> length (cq_pushed s)"
    using assms by (cases "cq_cpc s") (auto simp: spsc_inv_def counters_inv_def moved_items_def)
  show "length (items s) \<le> length (cq_popped s) + unat C"
    using assms by (cases "cq_ppc s") (auto simp: spsc_inv_def counters_inv_def items_def)
  show "destroyed_items s \<le> moved_items s" "length (cq_popped s) \<le> destroyed_items s"
    by (auto simp: moved_items_def destroyed_items_def split: consumer_pc.splits)
qed

lemma producer_no_race:
  assumes inv: "spsc_inv C s" and pc: "cq_ppc s = P_has_room v h"
  shows "cq_c_access s ! (length (cq_pushed s) mod unat C) \<le> cq_p_aware s"
proof -
  let ?n = "unat C" and ?H = "length (cq_pushed s)"
  have n: "0 < ?n" using inv static_capacity_bounds(1) [of C] by (simp add: spsc_inv_def)
  have room: "?H < cq_p_read s + ?n" and aware: "cq_p_aware s = 2 * cq_p_read s"
    using inv pc by (simp_all add: spsc_inv_def counters_inv_def)
  consider "cq_c_access s ! (?H mod ?n) = 0" | m where "m < moved_items s" "m mod ?n = ?H mod ?n"
      "cq_c_access s ! (?H mod ?n) \<le> 2 * m + 2"
    using inv mod_less_divisor [OF n, of ?H] unfolding spsc_inv_def access_inv_def by metis
  then show ?thesis
  proof cases
    case (2 m)
    then have "m + ?n \<le> ?H"
      using congruent_below [of m ?H ?n] spsc_inv_bounds(1) [OF inv] n by simp
    then show ?thesis using 2(3) room aware by simp
  qed simp
qed

lemma consumer_no_race:
  assumes inv: "spsc_inv C s" and pc: "length (cq_popped s) < cq_c_read s"
  shows "cq_p_access s ! (length (cq_popped s) mod unat C) \<le> cq_c_aware s"
proof -
  let ?n = "unat C" and ?T = "length (cq_popped s)"
  have n: "0 < ?n" using inv static_capacity_bounds(1) [of C] by (simp add: spsc_inv_def)
  have aware: "cq_c_aware s = cq_c_read s" using inv by (simp add: spsc_inv_def counters_inv_def)
  consider "cq_p_access s ! (?T mod ?n) = 0" | m where "m < length (items s)" "m mod ?n = ?T mod ?n"
      "cq_p_access s ! (?T mod ?n) \<le> m + 1"
    using inv mod_less_divisor [OF n, of ?T] unfolding spsc_inv_def access_inv_def by metis
  then show ?thesis
  proof cases
    case (2 m)
    then have "m \<le> ?T"
      using congruent_below [of ?T m ?n] spsc_inv_bounds(2) [OF inv] n by (cases "?T < m") auto
    then show ?thesis using 2(3) pc aware by simp
  qed simp
qed

lemma access_update:
  fixes acc :: "nat list"
  assumes "\<forall>i < n. acc ! i = 0 \<or> (\<exists>m < k. m mod n = i \<and> acc ! i \<le> f m)" "length acc = n"
    "0 < n" "k \<le> k'" "m0 < k'" "c \<le> f m0"
  shows "\<forall>i < n. acc[m0 mod n := c] ! i = 0 \<or> (\<exists>m < k'. m mod n = i \<and> acc[m0 mod n := c] ! i \<le> f m)"
proof (intro allI impI)
  fix i assume i: "i < n"
  show "acc[m0 mod n := c] ! i = 0 \<or> (\<exists>m < k'. m mod n = i \<and> acc[m0 mod n := c] ! i \<le> f m)"
  proof (cases "i = m0 mod n")
    case True
    then show ?thesis using assms i by auto
  next
    case False
    then show ?thesis using assms(1,4) i by (metis nth_list_update_neq order_less_le_trans)
  qed
qed

lemma spsc_inv_push_construct:
  assumes inv: "spsc_inv C s" and pc: "cq_ppc s = P_has_room v h"
  shows "\<exists>s'. push_construct v h s = Some s' \<and> spsc_inv C s'"
proof -
  let ?n = "unat C" and ?H = "length (cq_pushed s)" and ?d = "destroyed_items s"
  let ?i = "?H mod ?n"
  let ?s = "s\<lparr>cq_p_clock := Suc (cq_p_clock s), cq_p_access := (cq_p_access s)[?i := Suc (cq_p_clock s)],
              cq_slots := (cq_slots s)[?i := Some v], cq_ppc := P_constructed v h\<rparr>"
  have C: "static_capacity C" and cap: "cq_capacity s = C" and h: "h = of_nat ?H"
    and room: "?H < cq_p_read s + ?n" "cq_p_read s \<le> length (cq_popped s)"
    and lens: "length (cq_slots s) = ?n"
    using inv pc by (simp_all add: spsc_inv_def counters_inv_def slots_inv_def)
  have n: "0 < ?n" using static_capacity_bounds(1) [OF C] by simp
  note b = spsc_inv_bounds [OF inv]
  have win: "?d \<le> ?H" "?H < ?d + ?n" using b room by simp_all
  have its: "items s = cq_pushed s" "items ?s = cq_pushed s @ [v]" "destroyed_items ?s = ?d"
    "moved_items ?s = moved_items s"
    using pc by (simp_all add: items_def destroyed_items_def moved_items_def)
  have none: "cq_slots s ! ?i = None"
    using inv win its(1) by (simp add: spsc_inv_def slots_inv_def)
  have def: "push_construct v h s = Some ?s"
    using producer_no_race [OF inv pc] none n lens
    by (simp add: push_construct_def producer_access_def cap h slot_index_of_nat [OF C] construct_at_def Let_def)
  have "slots_inv C ?s"
    unfolding slots_inv_def its
  proof (intro conjI allI impI)
    fix m assume m: "?d \<le> m \<and> m < ?d + ?n"
    show "cq_slots ?s ! (m mod ?n) = (if m < length (cq_pushed s @ [v]) then Some ((cq_pushed s @ [v]) ! m) else None)"
    proof (cases "m = ?H")
      case True
      then show ?thesis using n lens by simp
    next
      case False
      then have "m mod ?n \<noteq> ?i" using congruent_window [of ?d m ?n ?H] m win by auto
      then show ?thesis using False inv m its(1) by (simp add: spsc_inv_def slots_inv_def nth_append)
    qed
  qed (simp add: lens)
  moreover have "access_inv C ?s"
    using inv access_update [of ?n "cq_p_access s" ?H "\<lambda>m. m + 1" "Suc ?H" ?H "Suc ?H"] n
    unfolding access_inv_def its spsc_inv_def counters_inv_def by simp
  moreover have "counters_inv C ?s"
    using inv unfolding spsc_inv_def counters_inv_def its by simp
  moreover have "consumer_inv ?s (cq_cpc ?s)"
    using inv by (cases "cq_cpc s") (simp_all add: spsc_inv_def)
  ultimately have "spsc_inv C ?s"
    using inv pc by (simp add: spsc_inv_def)
  with def show ?thesis by blast
qed

lemma spsc_inv_push_publish:
  assumes inv: "spsc_inv C s" and pc: "cq_ppc s = P_constructed v h"
  shows "spsc_inv C (push_publish v h s)"
proof -
  let ?s = "push_publish v h s"
  have its: "items ?s = items s" "destroyed_items ?s = destroyed_items s" "moved_items ?s = moved_items s"
    "items s = cq_pushed s @ [v]"
    using pc by (simp_all add: items_def destroyed_items_def moved_items_def push_publish_def)
  have le: "length (cq_popped s) \<le> length (cq_pushed s)"
    using spsc_inv_bounds(1,3,4) [OF inv] by simp
  have "counters_inv C ?s"
    using inv pc unfolding spsc_inv_def counters_inv_def its by (simp add: push_publish_def add.commute)
  moreover have "consumer_inv ?s (cq_cpc ?s)"
    using inv by (cases "cq_cpc s")
      (simp_all add: spsc_inv_def counters_inv_def push_publish_def nth_append)
  moreover have "access_inv C ?s" "slots_inv C ?s"
    using inv unfolding spsc_inv_def access_inv_def slots_inv_def its by (simp_all add: push_publish_def)
  ultimately show ?thesis
    using inv le by (simp add: spsc_inv_def) (simp add: push_publish_def)
qed

lemma spsc_inv_pop_move:
  assumes inv: "spsc_inv C s" and pc: "cq_cpc s = C_nonempty t"
  shows "\<exists>s'. pop_move t s = Some s' \<and> spsc_inv C s'"
proof -
  let ?n = "unat C" and ?T = "length (cq_popped s)"
  let ?i = "?T mod ?n" and ?v = "cq_pushed s ! ?T"
  let ?s = "s\<lparr>cq_c_clock := Suc (cq_c_clock s), cq_c_access := (cq_c_access s)[?i := Suc (cq_c_clock s)],
              cq_cpc := C_moved ?v t\<rparr>"
  have C: "static_capacity C" and cap: "cq_capacity s = C" and t: "t = of_nat ?T"
    and lt: "?T < cq_c_read s" "cq_c_read s \<le> length (cq_pushed s)"
    and lens: "length (cq_slots s) = ?n"
    using inv pc by (simp_all add: spsc_inv_def counters_inv_def slots_inv_def)
  have n: "0 < ?n" using static_capacity_bounds(1) [OF C] by simp
  have its: "items ?s = items s" "destroyed_items ?s = ?T" "moved_items ?s = Suc ?T"
    "destroyed_items s = ?T" "moved_items s = ?T"
    using pc by (simp_all add: items_def destroyed_items_def moved_items_def)
  have "items s ! ?T = ?v" "?T < length (items s)" using lt by (simp_all add: items_def nth_append)
  then have live: "cq_slots s ! ?i = Some ?v"
    using inv n its(4) by (simp add: spsc_inv_def slots_inv_def)
  have def: "pop_move t s = Some ?s"
    using consumer_no_race [OF inv lt(1)] live n lens
    by (simp add: pop_move_def consumer_access_def cap t slot_index_of_nat [OF C] slot_value_def Let_def)
  have "access_inv C ?s"
    using inv access_update [of ?n "cq_c_access s" ?T "\<lambda>m. 2 * m + 2" "Suc ?T" ?T "Suc (?T + ?T)"] n
    unfolding access_inv_def its spsc_inv_def counters_inv_def by simp
  moreover have "slots_inv C ?s" using inv unfolding spsc_inv_def slots_inv_def its by simp
  moreover have "counters_inv C ?s" using inv unfolding spsc_inv_def counters_inv_def its by simp
  moreover have "producer_inv C ?s (cq_ppc ?s)"
    using inv by (cases "cq_ppc s") (simp_all add: spsc_inv_def)
  ultimately have "spsc_inv C ?s"
    using inv pc lt by (simp add: spsc_inv_def)
  with def show ?thesis by blast
qed

lemma spsc_inv_pop_destroy:
  assumes inv: "spsc_inv C s" and pc: "cq_cpc s = C_moved v t"
  shows "\<exists>s'. pop_destroy v t s = Some s' \<and> spsc_inv C s'"
proof -
  let ?n = "unat C" and ?T = "length (cq_popped s)"
  let ?i = "?T mod ?n"
  let ?s = "s\<lparr>cq_c_clock := Suc (cq_c_clock s), cq_c_access := (cq_c_access s)[?i := Suc (cq_c_clock s)],
              cq_slots := (cq_slots s)[?i := None], cq_cpc := C_destroyed v t\<rparr>"
  have C: "static_capacity C" and cap: "cq_capacity s = C" and t: "t = of_nat ?T"
    and lt: "?T < cq_c_read s" "cq_c_read s \<le> length (cq_pushed s)"
    and lens: "length (cq_slots s) = ?n"
    using inv pc by (simp_all add: spsc_inv_def counters_inv_def slots_inv_def)
  have n: "0 < ?n" using static_capacity_bounds(1) [OF C] by simp
  have its: "items ?s = items s" "destroyed_items ?s = Suc ?T" "moved_items ?s = Suc ?T"
    "destroyed_items s = ?T" "moved_items s = Suc ?T"
    using pc by (simp_all add: items_def destroyed_items_def moved_items_def)
  have "?T < length (items s)" using lt by (simp add: items_def)
  then have live: "cq_slots s ! ?i = Some (items s ! ?T)"
    using inv n its(4) by (simp add: spsc_inv_def slots_inv_def)
  have def: "pop_destroy v t s = Some ?s"
    using consumer_no_race [OF inv lt(1)] live n lens
    by (simp add: pop_destroy_def consumer_access_def cap t slot_index_of_nat [OF C] destroy_at_def Let_def)
  have "slots_inv C ?s"
    unfolding slots_inv_def its
  proof (intro conjI allI impI)
    fix m assume m: "Suc ?T \<le> m \<and> m < Suc ?T + ?n"
    show "cq_slots ?s ! (m mod ?n) = (if m < length (items s) then Some (items s ! m) else None)"
    proof (cases "m < ?T + ?n")
      case True
      then have "m mod ?n \<noteq> ?i" using congruent_window [of ?T m ?n ?T] m n by auto
      then show ?thesis using True inv m its(4) by (simp add: spsc_inv_def slots_inv_def)
    next
      case False
      then have "m = ?T + ?n" using m by simp
      then show ?thesis using spsc_inv_bounds(2) [OF inv] n lens by simp
    qed
  qed (simp add: lens)
  moreover have "access_inv C ?s"
    using inv access_update [of ?n "cq_c_access s" "Suc ?T" "\<lambda>m. 2 * m + 2" "Suc ?T" ?T "Suc (Suc ?T + ?T)"] n
    unfolding access_inv_def its spsc_inv_def counters_inv_def by simp
  moreover have "counters_inv C ?s" using inv unfolding spsc_inv_def counters_inv_def its by simp
  moreover have "producer_inv C ?s (cq_ppc ?s)"
    using inv by (cases "cq_ppc s") (simp_all add: spsc_inv_def)
  ultimately have "spsc_inv C ?s"
    using inv pc lt by (simp add: spsc_inv_def)
  with def show ?thesis by blast
qed

lemma spsc_inv_pop_publish:
  assumes inv: "spsc_inv C s" and pc: "cq_cpc s = C_destroyed v t"
  shows "spsc_inv C (pop_publish v t s)"
proof -
  let ?s = "pop_publish v t s" and ?T = "length (cq_popped s)"
  have lt: "?T < cq_c_read s" "cq_c_read s \<le> length (cq_pushed s)" and v: "v = cq_pushed s ! ?T"
    and t: "t = of_nat ?T" using inv pc by (simp_all add: spsc_inv_def counters_inv_def)
  have its: "items ?s = items s" "destroyed_items ?s = destroyed_items s" "moved_items ?s = moved_items s"
    "destroyed_items s = Suc ?T" "moved_items s = Suc ?T"
    using pc by (simp_all add: items_def destroyed_items_def moved_items_def pop_publish_def)
  have "counters_inv C ?s"
    using inv lt t unfolding spsc_inv_def counters_inv_def its by (simp add: pop_publish_def add.commute)
  moreover have "producer_inv C ?s (cq_ppc ?s)"
    using inv by (cases "cq_ppc s") (simp_all add: spsc_inv_def pop_publish_def)
  moreover have "access_inv C ?s" "slots_inv C ?s"
    using inv unfolding spsc_inv_def access_inv_def slots_inv_def its by (simp_all add: pop_publish_def)
  moreover have "cq_popped ?s = take (length (cq_popped ?s)) (cq_pushed ?s)"
    using inv lt v by (simp add: spsc_inv_def pop_publish_def take_Suc_conv_app_nth)
  ultimately show ?thesis
    using inv by (simp add: spsc_inv_def) (simp add: pop_publish_def)
qed


lemma spsc_inv_observe:
  assumes inv: "spsc_inv C s"
  shows "cq_ppc s = P_idle \<Longrightarrow> cq_p_read s \<le> j \<Longrightarrow> j < length (cq_tails s) \<Longrightarrow>
      spsc_inv C (acquire_tail j s)"
    and "cq_cpc s = C_idle \<Longrightarrow> cq_c_read s \<le> j \<Longrightarrow> j < length (cq_heads s) \<Longrightarrow>
      spsc_inv C (acquire_head j s)"
proof -
  have cnt: "counters_inv C s" using inv by (simp add: spsc_inv_def)
  show "cq_ppc s = P_idle \<Longrightarrow> cq_p_read s \<le> j \<Longrightarrow> j < length (cq_tails s) \<Longrightarrow>
      spsc_inv C (acquire_tail j s)"
    using inv tail_message [OF cnt, of j]
    by (cases "cq_cpc s") (simp_all add: spsc_inv_defs acquire_tail_def)
  show "cq_cpc s = C_idle \<Longrightarrow> cq_c_read s \<le> j \<Longrightarrow> j < length (cq_heads s) \<Longrightarrow>
      spsc_inv C (acquire_head j s)"
    using inv head_message [OF cnt, of j]
    by (cases "cq_ppc s") (simp_all add: spsc_inv_defs acquire_head_def)
qed

lemma spsc_inv_producer_step:
  assumes inv: "spsc_inv C s" and step: "producer_step s r"
  shows "\<exists>s'. r = Some s' \<and> spsc_inv C s'"
proof -
  have cap: "cq_capacity s = C" using inv by (simp add: spsc_inv_def counters_inv_def)
  show ?thesis
    using step
    by (cases rule: producer_step.cases)
      (simp_all add: cap inv spsc_inv_push_start spsc_inv_acquire_tail spsc_inv_push_construct
        spsc_inv_push_publish spsc_inv_observe)
qed

lemma spsc_inv_consumer_step:
  assumes inv: "spsc_inv C s" and step: "consumer_step s r"
  shows "\<exists>s'. r = Some s' \<and> spsc_inv C s'"
  using step
  by (cases rule: consumer_step.cases)
    (simp_all add: inv spsc_inv_pop_start spsc_inv_acquire_head spsc_inv_pop_move
      spsc_inv_pop_destroy spsc_inv_pop_publish spsc_inv_observe)

lemmas spsc_inv_steps = spsc_inv_producer_step spsc_inv_consumer_step

lemma spsc_reach_inv: "spsc_reach C s \<Longrightarrow> static_capacity C \<Longrightarrow> spsc_inv C s"
  by (induction rule: spsc_reach.induct) (auto simp: spsc_inv_init spsc_step_def dest: spsc_inv_steps)

lemma spsc_run_inv: "spsc_run s ls s' \<Longrightarrow> spsc_inv C s \<Longrightarrow> spsc_inv C s'"
  by (induction rule: spsc_run.induct) (auto dest: spsc_inv_steps)

section \<open>Safety\<close>

text \<open>
  C2. No undefined behaviour under concurrency. In every state that one producer and one consumer can
  reach, in any interleaving and with any values the memory model lets the acquire loads return, also
  after the 64-bit counters have wrapped, no next step of either thread is a data race on a slot,
  constructs over a live object, or accesses or destroys an object that is not alive.
\<close>

theorem spsc_no_race:
  assumes "static_capacity C" "spsc_reach C s"
  shows "\<not> spsc_step s None"
  using spsc_inv_steps [OF spsc_reach_inv [OF assms(2,1)]] by (auto simp: spsc_step_def)

text \<open>
  C5. Delivery under concurrency. In every reachable state the values the consumer has received are,
  in order, the first of the values the producer has published: nothing is lost, duplicated or
  reordered, and no more than \<open>Capacity\<close> values are in flight.
\<close>

theorem spsc_concurrent_fifo:
  assumes "static_capacity C" "spsc_reach C s"
  shows "\<exists>rest. cq_pushed s = cq_popped s @ rest \<and> length rest \<le> unat C"
proof -
  have inv: "spsc_inv C s" using spsc_reach_inv assms by blast
  then have "cq_popped s = take (length (cq_popped s)) (cq_pushed s)" by (simp add: spsc_inv_def)
  then have "cq_pushed s = cq_popped s @ drop (length (cq_popped s)) (cq_pushed s)"
    by (metis append_take_drop_id)
  moreover have "length (cq_pushed s) \<le> length (cq_popped s) + unat C"
    using inv by (simp add: spsc_inv_def counters_inv_def)
  ultimately show ?thesis by (metis length_drop le_diff_conv add.commute)
qed

section \<open>Agreement with the sequential model\<close>

definition ring_of :: "'a spsc_conc \<Rightarrow> 'a SpscRingBuffer" where
  "ring_of s = \<lparr>rb_capacity = cq_capacity s, rb_buffer = cq_slots s,
     rb_head = fst (last (cq_heads s)), rb_tail = fst (last (cq_tails s))\<rparr>"

lemma latest_messages:
  assumes "counters_inv C s"
  shows "cq_tails s ! length (cq_popped s) = last (cq_tails s)" "length (cq_popped s) < length (cq_tails s)"
    "cq_heads s ! length (cq_pushed s) = last (cq_heads s)" "length (cq_pushed s) < length (cq_heads s)"
  using assms by (simp_all add: counters_inv_def nth_append)

lemma push_construct_Some:
  assumes "push_construct v h s = Some s'"
  shows "construct_at (cq_slots s) (slot_index (cq_capacity s) h) v = Some (cq_slots s')"
    "cq_ppc s' = P_constructed v h" "cq_cpc s' = cq_cpc s" "cq_capacity s' = cq_capacity s"
    "cq_heads s' = cq_heads s" "cq_tails s' = cq_tails s" "cq_pushed s' = cq_pushed s"
    "cq_popped s' = cq_popped s" "cq_p_read s' = cq_p_read s" "cq_c_read s' = cq_c_read s"
  using assms
  by (auto simp: push_construct_def producer_access_def Let_def bind_eq_Some_conv split: if_splits)

lemma pop_move_Some:
  assumes "pop_move t s = Some s'"
  shows "\<exists>v. slot_value (cq_slots s) (slot_index (cq_capacity s) t) = Some v \<and> cq_cpc s' = C_moved v t"
    "cq_slots s' = cq_slots s" "cq_ppc s' = cq_ppc s" "cq_capacity s' = cq_capacity s"
    "cq_heads s' = cq_heads s" "cq_tails s' = cq_tails s" "cq_pushed s' = cq_pushed s"
    "cq_popped s' = cq_popped s" "cq_p_read s' = cq_p_read s" "cq_c_read s' = cq_c_read s"
  using assms
  by (auto simp: pop_move_def consumer_access_def Let_def bind_eq_Some_conv split: if_splits)

lemma pop_destroy_Some:
  assumes "pop_destroy v t s = Some s'"
  shows "destroy_at (cq_slots s) (slot_index (cq_capacity s) t) = Some (cq_slots s')"
    "cq_cpc s' = C_destroyed v t" "cq_ppc s' = cq_ppc s" "cq_capacity s' = cq_capacity s"
    "cq_heads s' = cq_heads s" "cq_tails s' = cq_tails s" "cq_pushed s' = cq_pushed s"
    "cq_popped s' = cq_popped s" "cq_p_read s' = cq_p_read s" "cq_c_read s' = cq_c_read s"
  using assms
  by (auto simp: pop_destroy_def consumer_access_def Let_def bind_eq_Some_conv split: if_splits)

text \<open>What the two threads read of the counter of the other one.\<close>

lemma producer_observes:
  assumes inv: "spsc_inv C s" and j: "cq_p_read s \<le> j" "j < length (cq_tails s)"
  shows "unat (observed_size s (length (cq_pushed s)) j) = length (cq_pushed s) - j"
    "j \<le> length (cq_popped s)" "length (cq_pushed s) \<le> j + unat C"
proof -
  have cnt: "counters_inv C s" and C: "static_capacity C" using inv by (simp_all add: spsc_inv_def)
  note t = tail_message [OF cnt j(2)] and h = head_message [OF cnt latest_messages(4) [OF cnt]]
  show b: "j \<le> length (cq_popped s)" "length (cq_pushed s) \<le> j + unat C"
    using t(2) cnt j(1) by (simp_all add: counters_inv_def)
  have "length (cq_popped s) \<le> length (cq_pushed s)" using cnt by (simp add: counters_inv_def)
  then show "unat (observed_size s (length (cq_pushed s)) j) = length (cq_pushed s) - j"
    using of_nat_diff_counter [OF C _ b(2)] b(1) by (simp add: observed_size_def t h)
qed

lemma consumer_observes:
  assumes inv: "spsc_inv C s" and i: "cq_c_read s \<le> i" "i < length (cq_heads s)"
  shows "unat (observed_size s i (length (cq_popped s))) = i - length (cq_popped s)"
    "length (cq_popped s) \<le> i" "i \<le> length (cq_popped s) + unat C"
proof -
  have cnt: "counters_inv C s" and C: "static_capacity C" using inv by (simp_all add: spsc_inv_def)
  note h = head_message [OF cnt i(2)] and t = tail_message [OF cnt latest_messages(2) [OF cnt]]
  show b: "length (cq_popped s) \<le> i" "i \<le> length (cq_popped s) + unat C"
    using h(2) cnt i(1) by (simp_all add: counters_inv_def)
  then show "unat (observed_size s i (length (cq_popped s))) = i - length (cq_popped s)"
    using of_nat_diff_counter [OF C b] by (simp add: observed_size_def t h)
qed

text \<open>The steps of a thread until it is idle, and the whole call of an operation: the first step starts
  \<open>try_emplace\<close> of \<open>v\<close>, or \<open>try_pop\<close>, and the thread goes on without steps of the other one until the
  operation has returned. The acquire load in between may be stale.\<close>

inductive producer_finishes :: "'a spsc_conc \<Rightarrow> 'a spsc_conc \<Rightarrow> bool" where
  push_returned: "cq_ppc s = P_idle \<Longrightarrow> producer_finishes s s"
| push_goes_on: "cq_ppc s \<noteq> P_idle \<Longrightarrow> producer_step s (Some s1) \<Longrightarrow> producer_finishes s1 s' \<Longrightarrow> producer_finishes s s'"

inductive consumer_finishes :: "'a spsc_conc \<Rightarrow> 'a spsc_conc \<Rightarrow> bool" where
  pop_returned: "cq_cpc s = C_idle \<Longrightarrow> consumer_finishes s s"
| pop_goes_on: "cq_cpc s \<noteq> C_idle \<Longrightarrow> consumer_step s (Some s1) \<Longrightarrow> consumer_finishes s1 s' \<Longrightarrow> consumer_finishes s s'"

definition emplace_call :: "'a \<Rightarrow> 'a spsc_conc \<Rightarrow> 'a spsc_conc \<Rightarrow> bool" where
  "emplace_call v s s' \<longleftrightarrow> cq_ppc s = P_idle \<and>
     (\<exists>s1 head. producer_step s (Some s1) \<and> cq_ppc s1 = P_head_loaded v head \<and> producer_finishes s1 s')"

definition pop_call :: "'a spsc_conc \<Rightarrow> 'a spsc_conc \<Rightarrow> bool" where
  "pop_call s s' \<longleftrightarrow> cq_cpc s = C_idle \<and>
     (\<exists>s1 tail. consumer_step s (Some s1) \<and> cq_cpc s1 = C_tail_loaded tail \<and> consumer_finishes s1 s')"

lemma producer_finishes_simps:
  "cq_ppc s = P_idle \<Longrightarrow> producer_finishes s s' \<longleftrightarrow> s' = s"
  "cq_ppc s \<noteq> P_idle \<Longrightarrow> producer_finishes s s' \<longleftrightarrow> (\<exists>s1. producer_step s (Some s1) \<and> producer_finishes s1 s')"
  by (subst producer_finishes.simps; blast)+

lemma consumer_finishes_simps:
  "cq_cpc s = C_idle \<Longrightarrow> consumer_finishes s s' \<longleftrightarrow> s' = s"
  "cq_cpc s \<noteq> C_idle \<Longrightarrow> consumer_finishes s s' \<longleftrightarrow> (\<exists>s1. consumer_step s (Some s1) \<and> consumer_finishes s1 s')"
  by (subst consumer_finishes.simps; blast)+

lemma producer_step_at:
  "cq_ppc s = P_head_loaded v h \<Longrightarrow> producer_step s r \<longleftrightarrow>
     (\<exists>j. cq_p_read s \<le> j \<and> j < length (cq_tails s) \<and> r = Some ((acquire_tail j s)
        \<lparr>cq_ppc := if cq_capacity s \<le> h - fst (cq_tails s ! j) then P_idle else P_has_room v h\<rparr>))"
  "cq_ppc s = P_has_room v h \<Longrightarrow> producer_step s r \<longleftrightarrow> push_construct v h s = r"
  "cq_ppc s = P_constructed v h \<Longrightarrow> producer_step s r \<longleftrightarrow> r = Some (push_publish v h s)"
  by (auto simp: producer_step.simps split: if_splits)

lemma consumer_step_at:
  "cq_cpc s = C_tail_loaded t \<Longrightarrow> consumer_step s r \<longleftrightarrow>
     (\<exists>j. cq_c_read s \<le> j \<and> j < length (cq_heads s) \<and> r = Some ((acquire_head j s)
        \<lparr>cq_cpc := if t = fst (cq_heads s ! j) then C_idle else C_nonempty t\<rparr>))"
  "cq_cpc s = C_nonempty t \<Longrightarrow> consumer_step s r \<longleftrightarrow> pop_move t s = r"
  "cq_cpc s = C_moved v t \<Longrightarrow> consumer_step s r \<longleftrightarrow> pop_destroy v t s = r"
  "cq_cpc s = C_destroyed v t \<Longrightarrow> consumer_step s r \<longleftrightarrow> r = Some (pop_publish v t s)"
  by (auto simp: consumer_step.simps split: if_splits)

text \<open>A call is determined by the message it reads.\<close>

lemma producer_finishes_constructed:
  assumes "cq_ppc s = P_constructed v h"
  shows "producer_finishes s s' \<longleftrightarrow> s' = push_publish v h s"
proof -
  have "cq_ppc (push_publish v h s) = P_idle" by (simp add: push_publish_def)
  then show ?thesis using assms by (simp add: producer_finishes_simps(2) producer_step_at(3) producer_finishes_simps(1))
qed

lemma producer_finishes_room:
  assumes "cq_ppc s = P_has_room v h"
  shows "producer_finishes s s' \<longleftrightarrow> (\<exists>s1. push_construct v h s = Some s1 \<and> s' = push_publish v h s1)"
proof -
  have "producer_finishes s s' \<longleftrightarrow> (\<exists>s1. push_construct v h s = Some s1 \<and> producer_finishes s1 s')"
    using assms by (simp add: producer_finishes_simps(2) producer_step_at(2))
  then show ?thesis by (metis push_construct_Some(2) producer_finishes_constructed)
qed

lemma emplace_call_iff:
  assumes idle: "cq_ppc s = P_idle"
  shows "emplace_call v s s' \<longleftrightarrow> (\<exists>j. cq_p_read s \<le> j \<and> j < length (cq_tails s) \<and>
    (let h = fst (last (cq_heads s)); s1 = acquire_tail j s in
     if cq_capacity s \<le> h - fst (cq_tails s ! j) then s' = s1
     else \<exists>s2. push_construct v h (s1\<lparr>cq_ppc := P_has_room v h\<rparr>) = Some s2 \<and> s' = push_publish v h s2))"
proof -
  let ?h = "fst (last (cq_heads s))"
  let ?s1 = "s\<lparr>cq_ppc := P_head_loaded v ?h\<rparr>"
  let ?s2 = "\<lambda>j. (acquire_tail j s)\<lparr>cq_ppc := if cq_capacity s \<le> ?h - fst (cq_tails s ! j) then P_idle else P_has_room v ?h\<rparr>"
  have "emplace_call v s s' \<longleftrightarrow> producer_finishes ?s1 s'"
    using idle by (auto simp: emplace_call_def producer_step.simps [of s] acquire_tail_def)
  also have "\<dots> \<longleftrightarrow> (\<exists>s2. producer_step ?s1 (Some s2) \<and> producer_finishes s2 s')"
    by (simp add: producer_finishes_simps(2))
  also have "\<dots> \<longleftrightarrow> (\<exists>j. cq_p_read s \<le> j \<and> j < length (cq_tails s) \<and> producer_finishes (?s2 j) s')"
  proof -
    have "producer_step ?s1 r \<longleftrightarrow> (\<exists>j. cq_p_read s \<le> j \<and> j < length (cq_tails s) \<and> r = Some (?s2 j))" for r
      using producer_step_at(1) [of ?s1 v ?h r] by (simp add: acquire_tail_def)
    then show ?thesis by (simp only: option.inject) blast
  qed
  finally have call: "emplace_call v s s' \<longleftrightarrow> (\<exists>j. cq_p_read s \<le> j \<and> j < length (cq_tails s) \<and> producer_finishes (?s2 j) s')" .
  have fin: "producer_finishes (?s2 j) s' \<longleftrightarrow> (if cq_capacity s \<le> ?h - fst (cq_tails s ! j) then s' = acquire_tail j s
      else \<exists>s2. push_construct v ?h ((acquire_tail j s)\<lparr>cq_ppc := P_has_room v ?h\<rparr>) = Some s2 \<and> s' = push_publish v ?h s2)" for j
  proof -
    have e: "(acquire_tail j s)\<lparr>cq_ppc := P_idle\<rparr> = acquire_tail j s" using idle by (cases s) (simp add: acquire_tail_def)
    have i: "cq_ppc (acquire_tail j s) = P_idle" using idle by (simp add: acquire_tail_def)
    show ?thesis by (simp add: e producer_finishes_simps(1) [OF i] producer_finishes_room)
  qed
  show ?thesis unfolding call fin Let_def ..
qed

lemma consumer_finishes_destroyed:
  assumes "cq_cpc s = C_destroyed v t"
  shows "consumer_finishes s s' \<longleftrightarrow> s' = pop_publish v t s"
proof -
  have "cq_cpc (pop_publish v t s) = C_idle" by (simp add: pop_publish_def)
  then show ?thesis using assms by (simp add: consumer_finishes_simps(2) consumer_step_at(4) consumer_finishes_simps(1))
qed

lemma consumer_finishes_moved:
  assumes "cq_cpc s = C_moved v t"
  shows "consumer_finishes s s' \<longleftrightarrow> (\<exists>s1. pop_destroy v t s = Some s1 \<and> s' = pop_publish v t s1)"
proof -
  have "consumer_finishes s s' \<longleftrightarrow> (\<exists>s1. pop_destroy v t s = Some s1 \<and> consumer_finishes s1 s')"
    using assms by (simp add: consumer_finishes_simps(2) consumer_step_at(3))
  then show ?thesis by (metis pop_destroy_Some(2) consumer_finishes_destroyed)
qed

lemma consumer_finishes_nonempty:
  assumes "cq_cpc s = C_nonempty t"
  shows "consumer_finishes s s' \<longleftrightarrow> (\<exists>s1 v s2. pop_move t s = Some s1 \<and> cq_cpc s1 = C_moved v t \<and>
    pop_destroy v t s1 = Some s2 \<and> s' = pop_publish v t s2)"
proof -
  have "consumer_finishes s s' \<longleftrightarrow> (\<exists>s1. pop_move t s = Some s1 \<and> consumer_finishes s1 s')"
    using assms by (simp add: consumer_finishes_simps(2) consumer_step_at(2))
  then show ?thesis by (metis pop_move_Some(1) consumer_finishes_moved)
qed

lemma pop_call_iff:
  assumes idle: "cq_cpc s = C_idle"
  shows "pop_call s s' \<longleftrightarrow> (\<exists>j. cq_c_read s \<le> j \<and> j < length (cq_heads s) \<and>
    (let t = fst (last (cq_tails s)); s1 = acquire_head j s in
     if t = fst (cq_heads s ! j) then s' = s1
     else \<exists>s2 v s3. pop_move t (s1\<lparr>cq_cpc := C_nonempty t\<rparr>) = Some s2 \<and> cq_cpc s2 = C_moved v t \<and>
       pop_destroy v t s2 = Some s3 \<and> s' = pop_publish v t s3))"
proof -
  let ?t = "fst (last (cq_tails s))"
  let ?s1 = "s\<lparr>cq_cpc := C_tail_loaded ?t\<rparr>"
  let ?s2 = "\<lambda>j. (acquire_head j s)\<lparr>cq_cpc := if ?t = fst (cq_heads s ! j) then C_idle else C_nonempty ?t\<rparr>"
  have "pop_call s s' \<longleftrightarrow> consumer_finishes ?s1 s'"
    using idle by (auto simp: pop_call_def consumer_step.simps [of s] acquire_head_def)
  also have "\<dots> \<longleftrightarrow> (\<exists>s2. consumer_step ?s1 (Some s2) \<and> consumer_finishes s2 s')"
    by (simp add: consumer_finishes_simps(2))
  also have "\<dots> \<longleftrightarrow> (\<exists>j. cq_c_read s \<le> j \<and> j < length (cq_heads s) \<and> consumer_finishes (?s2 j) s')"
  proof -
    have "consumer_step ?s1 r \<longleftrightarrow> (\<exists>j. cq_c_read s \<le> j \<and> j < length (cq_heads s) \<and> r = Some (?s2 j))" for r
      using consumer_step_at(1) [of ?s1 ?t r] by (simp add: acquire_head_def)
    then show ?thesis by (simp only: option.inject) blast
  qed
  finally have call: "pop_call s s' \<longleftrightarrow> (\<exists>j. cq_c_read s \<le> j \<and> j < length (cq_heads s) \<and> consumer_finishes (?s2 j) s')" .
  have fin: "consumer_finishes (?s2 j) s' \<longleftrightarrow> (if ?t = fst (cq_heads s ! j) then s' = acquire_head j s
      else \<exists>s2 v s3. pop_move ?t ((acquire_head j s)\<lparr>cq_cpc := C_nonempty ?t\<rparr>) = Some s2 \<and> cq_cpc s2 = C_moved v ?t \<and>
       pop_destroy v ?t s2 = Some s3 \<and> s' = pop_publish v ?t s3)" for j
  proof -
    have e: "(acquire_head j s)\<lparr>cq_cpc := C_idle\<rparr> = acquire_head j s" using idle by (cases s) (simp add: acquire_head_def)
    have i: "cq_cpc (acquire_head j s) = C_idle" using idle by (simp add: acquire_head_def)
    show ?thesis by (simp add: e consumer_finishes_simps(1) [OF i] consumer_finishes_nonempty)
  qed
  show ?thesis unfolding call fin Let_def ..
qed

lemma emplace_call_inv:
  assumes inv: "spsc_inv C s" and idle: "cq_ppc s = P_idle" and j: "cq_p_read s \<le> j" "j < length (cq_tails s)"
    and room: "\<not> cq_capacity s \<le> fst (last (cq_heads s)) - fst (cq_tails s ! j)"
  shows "\<exists>s1. push_construct v (fst (last (cq_heads s))) ((acquire_tail j s)\<lparr>cq_ppc := P_has_room v (fst (last (cq_heads s)))\<rparr>) = Some s1"
proof -
  let ?h = "fst (last (cq_heads s))"
  let ?s1 = "s\<lparr>cq_ppc := P_head_loaded v ?h\<rparr>" and ?s2 = "(acquire_tail j s)\<lparr>cq_ppc := P_has_room v ?h\<rparr>"
  have "producer_step ?s1 (Some ?s2)"
    using push_room [of ?s1 v ?h j] j room by (simp add: acquire_tail_def)
  then have "spsc_inv C ?s2"
    using spsc_inv_producer_step [OF _ \<open>producer_step ?s1 _\<close>] spsc_inv_producer_step [OF inv push_start [OF idle]] by simp
  then show ?thesis using spsc_inv_push_construct [of C ?s2 v ?h] by auto
qed

text \<open>A call can be made, also one that reads the newest \<open>tail_\<close>; and every call gives what the sequential
  operation gives, unless it refuses because a stale \<open>tail_\<close> made the ring look full.\<close>

lemma emplace_call_newest:
  assumes inv: "spsc_inv C s" and idle: "cq_ppc s = P_idle"
  shows "\<exists>s'. emplace_call v s s' \<and> Suc (cq_p_read s') = length (cq_tails s)"
proof -
  let ?j = "length (cq_popped s)" and ?h = "fst (last (cq_heads s))"
  have cnt: "counters_inv C s" using inv by (simp add: spsc_inv_def)
  then have j: "cq_p_read s \<le> ?j" "?j < length (cq_tails s)" "Suc ?j = length (cq_tails s)"
    by (simp_all add: counters_inv_def)
  show ?thesis
  proof (cases "cq_capacity s \<le> ?h - fst (cq_tails s ! ?j)")
    case True
    then have "emplace_call v s (acquire_tail ?j s)" using j emplace_call_iff [OF idle] by (auto simp: Let_def)
    then show ?thesis using j(3) by (auto simp: acquire_tail_def)
  next
    case False
    then obtain s1 where s1: "push_construct v ?h ((acquire_tail ?j s)\<lparr>cq_ppc := P_has_room v ?h\<rparr>) = Some s1"
      using emplace_call_inv [OF inv idle j(1,2)] by blast
    then have "emplace_call v s (push_publish v ?h s1)" using j False emplace_call_iff [OF idle] by (auto simp: Let_def)
    moreover have "cq_p_read (push_publish v ?h s1) = ?j"
      using push_construct_Some(9) [OF s1] by (simp add: push_publish_def acquire_tail_def)
    ultimately show ?thesis using j(3) by auto
  qed
qed

lemma emplace_call_result:
  assumes inv: "spsc_inv C s" and call: "emplace_call v s s'"
  shows "cq_ppc s' = P_idle \<and> cq_cpc s' = cq_cpc s \<and> cq_popped s' = cq_popped s \<and>
    (\<exists>b. cq_pushed s' = cq_pushed s @ (if b then [v] else []) \<and>
      (ring_try_emplace (ring_of s) v = Some (b, ring_of s') \<or>
       \<not> b \<and> ring_of s' = ring_of s \<and> Suc (cq_p_read s') < length (cq_tails s) \<and>
       cq_capacity s \<le> fst (last (cq_heads s)) - fst (cq_tails s ! cq_p_read s')))"
proof -
  let ?h = "fst (last (cq_heads s))"
  have idle: "cq_ppc s = P_idle" using call by (simp add: emplace_call_def)
  have cnt: "counters_inv C s" "cq_capacity s = C" using inv by (simp_all add: spsc_inv_def counters_inv_def)
  note last = latest_messages [OF cnt(1)]
  obtain j where j: "cq_p_read s \<le> j" "j < length (cq_tails s)"
      and s': "if C \<le> ?h - fst (cq_tails s ! j) then s' = acquire_tail j s
        else \<exists>s2. push_construct v ?h ((acquire_tail j s)\<lparr>cq_ppc := P_has_room v ?h\<rparr>) = Some s2 \<and> s' = push_publish v ?h s2"
    using call unfolding emplace_call_iff [OF idle] cnt(2) Let_def by blast
  show ?thesis
  proof (cases "C \<le> ?h - fst (cq_tails s ! j)")
    case True
    then have e: "s' = acquire_tail j s" using s' by simp
    then have same: "ring_of s' = ring_of s" "cq_p_read s' = j" by (simp_all add: ring_of_def acquire_tail_def)
    have "ring_try_emplace (ring_of s) v = Some (False, ring_of s)" if "Suc j = length (cq_tails s)"
    proof -
      have "cq_tails s ! j = last (cq_tails s)" using that by (metis diff_Suc_1 last_conv_nth length_greater_0_conv zero_less_Suc)
      then show ?thesis using True cnt(2) by (simp add: ring_try_emplace_def ring_of_def)
    qed
    then show ?thesis
      using True e same j(2) idle cnt(2)
      by (cases "Suc j = length (cq_tails s)") (auto intro!: exI [of _ False] simp: acquire_tail_def)
  next
    case False
    then obtain s2 where s2: "push_construct v ?h ((acquire_tail j s)\<lparr>cq_ppc := P_has_room v ?h\<rparr>) = Some s2"
        "s' = push_publish v ?h s2" using s' by auto
    note f = push_construct_Some [OF s2(1)]
    have "\<not> C \<le> ?h - fst (last (cq_tails s))"
      using False producer_observes [OF inv j] producer_observes(1) [OF inv, of "length (cq_popped s)"] last cnt
      by (auto simp: observed_size_def word_le_nat_alt counters_inv_def)
    then have "ring_try_emplace (ring_of s) v = Some (True, ring_of s')"
      using cnt(2) f s2(2) by (simp add: ring_try_emplace_def ring_of_def acquire_tail_def push_publish_def Let_def)
    then show ?thesis
      using f s2(2) by (intro conjI exI [of _ True]) (simp_all add: acquire_tail_def push_publish_def)
  qed
qed

lemma pop_call_inv:
  assumes inv: "spsc_inv C s" and idle: "cq_cpc s = C_idle" and j: "cq_c_read s \<le> j" "j < length (cq_heads s)"
    and nonempty: "fst (last (cq_tails s)) \<noteq> fst (cq_heads s ! j)"
  shows "\<exists>s1 v s2. pop_move (fst (last (cq_tails s))) ((acquire_head j s)\<lparr>cq_cpc := C_nonempty (fst (last (cq_tails s)))\<rparr>) = Some s1 \<and>
    cq_cpc s1 = C_moved v (fst (last (cq_tails s))) \<and> pop_destroy v (fst (last (cq_tails s))) s1 = Some s2"
proof -
  let ?t = "fst (last (cq_tails s))"
  let ?s1 = "s\<lparr>cq_cpc := C_tail_loaded ?t\<rparr>" and ?s2 = "(acquire_head j s)\<lparr>cq_cpc := C_nonempty ?t\<rparr>"
  have "consumer_step ?s1 (Some ?s2)"
    using pop_nonempty [of ?s1 ?t j] j nonempty by (simp add: acquire_head_def)
  then have "spsc_inv C ?s2"
    using spsc_inv_consumer_step [OF _ \<open>consumer_step ?s1 _\<close>] spsc_inv_consumer_step [OF inv pop_start [OF idle]] by simp
  then obtain s3 where s3: "pop_move ?t ?s2 = Some s3" "spsc_inv C s3"
    using spsc_inv_pop_move [of C ?s2 ?t] by auto
  then obtain v where "cq_cpc s3 = C_moved v ?t" using pop_move_Some(1) by blast
  then show ?thesis using s3 spsc_inv_pop_destroy [OF s3(2)] by blast
qed

lemma pop_call_newest:
  assumes inv: "spsc_inv C s" and idle: "cq_cpc s = C_idle"
  shows "\<exists>s'. pop_call s s' \<and> Suc (cq_c_read s') = length (cq_heads s)"
proof -
  let ?j = "length (cq_pushed s)" and ?t = "fst (last (cq_tails s))"
  have cnt: "counters_inv C s" using inv by (simp add: spsc_inv_def)
  then have j: "cq_c_read s \<le> ?j" "?j < length (cq_heads s)" "Suc ?j = length (cq_heads s)"
    by (simp_all add: counters_inv_def)
  show ?thesis
  proof (cases "?t = fst (cq_heads s ! ?j)")
    case True
    then have "pop_call s (acquire_head ?j s)" using j pop_call_iff [OF idle] by (auto simp: Let_def)
    then show ?thesis using j(3) by (auto simp: acquire_head_def)
  next
    case False
    then obtain s1 v s2 where s1: "pop_move ?t ((acquire_head ?j s)\<lparr>cq_cpc := C_nonempty ?t\<rparr>) = Some s1"
        "cq_cpc s1 = C_moved v ?t" "pop_destroy v ?t s1 = Some s2"
      using pop_call_inv [OF inv idle j(1,2)] by blast
    then have "pop_call s (pop_publish v ?t s2)" using j False pop_call_iff [OF idle] by (auto simp: Let_def)
    moreover have "cq_c_read (pop_publish v ?t s2) = ?j"
      using pop_move_Some(10) [OF s1(1)] pop_destroy_Some(10) [OF s1(3)] by (simp add: pop_publish_def acquire_head_def)
    ultimately show ?thesis using j(3) by auto
  qed
qed

lemma pop_call_result:
  assumes inv: "spsc_inv C s" and call: "pop_call s s'"
  shows "cq_cpc s' = C_idle \<and> cq_ppc s' = cq_ppc s \<and> cq_pushed s' = cq_pushed s \<and>
    (\<exists>b x. cq_popped s' = cq_popped s @ (if b then [x] else []) \<and>
      (ring_try_pop (ring_of s) out = Some (b, x, ring_of s') \<or>
       \<not> b \<and> ring_of s' = ring_of s \<and> Suc (cq_c_read s') < length (cq_heads s) \<and>
       fst (last (cq_tails s)) = fst (cq_heads s ! cq_c_read s')))"
proof -
  let ?t = "fst (last (cq_tails s))"
  have idle: "cq_cpc s = C_idle" using call by (simp add: pop_call_def)
  have cnt: "counters_inv C s" using inv by (simp add: spsc_inv_def)
  note last = latest_messages [OF cnt]
  obtain j where j: "cq_c_read s \<le> j" "j < length (cq_heads s)"
      and s': "if ?t = fst (cq_heads s ! j) then s' = acquire_head j s
        else \<exists>s2 v s3. pop_move ?t ((acquire_head j s)\<lparr>cq_cpc := C_nonempty ?t\<rparr>) = Some s2 \<and> cq_cpc s2 = C_moved v ?t \<and>
          pop_destroy v ?t s2 = Some s3 \<and> s' = pop_publish v ?t s3"
    using call unfolding pop_call_iff [OF idle] Let_def by blast
  show ?thesis
  proof (cases "?t = fst (cq_heads s ! j)")
    case True
    then have e: "s' = acquire_head j s" using s' by simp
    then have same: "ring_of s' = ring_of s" "cq_c_read s' = j" by (simp_all add: ring_of_def acquire_head_def)
    have "ring_try_pop (ring_of s) out = Some (False, out, ring_of s)" if "Suc j = length (cq_heads s)"
    proof -
      have "cq_heads s ! j = last (cq_heads s)" using that by (metis diff_Suc_1 last_conv_nth length_greater_0_conv zero_less_Suc)
      then show ?thesis using True by (simp add: ring_try_pop_def ring_of_def Let_def)
    qed
    then show ?thesis
      using True e same j(2) idle
      by (cases "Suc j = length (cq_heads s)") (auto intro!: exI [of _ False] simp: acquire_head_def)
  next
    case False
    then obtain s2 v s3 where s2: "pop_move ?t ((acquire_head j s)\<lparr>cq_cpc := C_nonempty ?t\<rparr>) = Some s2"
        "cq_cpc s2 = C_moved v ?t" "pop_destroy v ?t s2 = Some s3" "s' = pop_publish v ?t s3" using s' by auto
    note f = pop_move_Some [OF s2(1)] and g = pop_destroy_Some [OF s2(3)]
    have "?t = fst (cq_heads s ! j)" if "?t = fst (last (cq_heads s))"
    proof -
      have H: "cq_c_read s \<le> length (cq_pushed s)" "length (cq_heads s) = Suc (length (cq_pushed s))"
        using cnt by (simp_all add: counters_inv_def)
      have "length (cq_pushed s) - length (cq_popped s) = 0"
        using that consumer_observes(1) [OF inv H(1) last(4)] last(1,3) by (simp add: observed_size_def)
      then have "j = length (cq_pushed s)" using consumer_observes(2) [OF inv j] j(2) H(2) by simp
      then show ?thesis using that last(3) by simp
    qed
    then have "ring_try_pop (ring_of s) out = Some (True, v, ring_of s')"
      using False f g s2(2,4) by (auto simp: ring_try_pop_def ring_of_def acquire_head_def pop_publish_def Let_def)
    then show ?thesis
      using f g s2(4) by (intro conjI exI [of _ True] exI [of _ v]) (simp_all add: acquire_head_def pop_publish_def)
  qed
qed

lemma call_run:
  "producer_finishes s s' \<Longrightarrow> \<exists>ls. spsc_run s ls s'"
  "consumer_finishes s s' \<Longrightarrow> \<exists>ls. spsc_run s ls s'"
  "emplace_call v s s' \<Longrightarrow> \<exists>ls. spsc_run s ls s'"
  "pop_call s s' \<Longrightarrow> \<exists>ls. spsc_run s ls s'"
proof -
  show p: "producer_finishes s s' \<Longrightarrow> \<exists>ls. spsc_run s ls s'" for s s' :: "'a spsc_conc"
    by (induction rule: producer_finishes.induct) (blast intro: spsc_run.intros)+
  show c: "consumer_finishes s s' \<Longrightarrow> \<exists>ls. spsc_run s ls s'" for s s' :: "'a spsc_conc"
    by (induction rule: consumer_finishes.induct) (blast intro: spsc_run.intros)+
  show "emplace_call v s s' \<Longrightarrow> \<exists>ls. spsc_run s ls s'" "pop_call s s' \<Longrightarrow> \<exists>ls. spsc_run s ls s'"
    unfolding emplace_call_def pop_call_def by (blast intro: spsc_run.intros dest: p c)+
qed

text \<open>
  C21. The concurrent model agrees with the sequential one. Take any reachable state in which a thread is
  between two operations, whatever the other thread is in the middle of, and let it make one call of
  \<open>try_emplace\<close> or \<open>try_pop\<close> without steps of the other thread in between. Such a call can be made, also
  one whose acquire load returns the newest counter. However it goes, it leaves the other thread alone,
  and gives the result, and leaves the ring, that the sequential operation gives. There is one exception:
  a call whose load was stale, and saw the ring full or empty, refuses and leaves the ring as it was.
\<close>

theorem spsc_solo_sequential:
  assumes "static_capacity C" "spsc_reach C s"
  shows "(cq_ppc s = P_idle \<longrightarrow> (\<exists>s'. emplace_call v s s' \<and> Suc (cq_p_read s') = length (cq_tails s))) \<and>
    (\<forall>s'. emplace_call v s s' \<longrightarrow> cq_ppc s' = P_idle \<and> cq_cpc s' = cq_cpc s \<and> cq_popped s' = cq_popped s \<and>
      (\<exists>b. cq_pushed s' = cq_pushed s @ (if b then [v] else []) \<and>
        (ring_try_emplace (ring_of s) v = Some (b, ring_of s') \<or>
         \<not> b \<and> ring_of s' = ring_of s \<and> Suc (cq_p_read s') < length (cq_tails s) \<and>
         cq_capacity s \<le> fst (last (cq_heads s)) - fst (cq_tails s ! cq_p_read s')))) \<and>
    (cq_cpc s = C_idle \<longrightarrow> (\<exists>s'. pop_call s s' \<and> Suc (cq_c_read s') = length (cq_heads s))) \<and>
    (\<forall>s'. pop_call s s' \<longrightarrow> cq_cpc s' = C_idle \<and> cq_ppc s' = cq_ppc s \<and> cq_pushed s' = cq_pushed s \<and>
      (\<exists>b x. cq_popped s' = cq_popped s @ (if b then [x] else []) \<and>
        (ring_try_pop (ring_of s) out = Some (b, x, ring_of s') \<or>
         \<not> b \<and> ring_of s' = ring_of s \<and> Suc (cq_c_read s') < length (cq_heads s) \<and>
         fst (last (cq_tails s)) = fst (cq_heads s ! cq_c_read s'))))"
proof -
  note inv = spsc_reach_inv [OF assms(2,1)]
  show ?thesis
    using emplace_call_newest [OF inv] emplace_call_result [OF inv] pop_call_newest [OF inv] pop_call_result [OF inv]
    by (intro conjI allI impI) blast+
qed

theorem spsc_solo_sequential_witness:
  "\<exists>s'. emplace_call (7::nat) (spsc_init 2) s' \<and> ring_try_emplace (ring_of (spsc_init 2)) 7 = Some (True, ring_of s') \<and>
     cq_pushed s' = [7]"
proof -
  let ?s = "spsc_init 2 :: nat spsc_conc"
  have C: "static_capacity 2" by (simp add: static_capacity_def)
  have i: "cq_ppc ?s = P_idle" "cq_pushed ?s = []" "length (cq_tails ?s) = 1" by (simp_all add: spsc_init_def)
  obtain s' where s': "emplace_call 7 ?s s'" using spsc_solo_sequential [OF C reach_init, of "7::nat" 0] i(1) by blast
  then obtain b where b: "cq_pushed s' = (if b then [7] else [])" "ring_try_emplace (ring_of ?s) 7 = Some (b, ring_of s')"
    using spsc_solo_sequential [OF C reach_init, of "7::nat" 0] unfolding i by auto
  have "b" using b(2) by (auto simp: ring_try_emplace_def ring_of_def spsc_init_def Let_def bind_eq_Some_conv)
  then show ?thesis using s' b by auto
qed

section \<open>Progress\<close>

lemma spsc_run_append: "spsc_run s ls s' \<Longrightarrow> spsc_run s' ls' s'' \<Longrightarrow> spsc_run s (ls @ ls') s''"
  by (induction rule: spsc_run.induct) (auto intro: spsc_run.intros)

lemma spsc_run_reach: "spsc_run s ls s' \<Longrightarrow> spsc_reach C s \<Longrightarrow> spsc_reach C s'"
  by (induction rule: spsc_run.induct) (blast intro: reach_step [unfolded spsc_step_def])+

lemma consumer_step_keeps:
  assumes "consumer_step s (Some s')"
  shows "cq_ppc s' = cq_ppc s \<and> cq_p_read s' = cq_p_read s \<and> cq_pushed s' = cq_pushed s"
  using assms
proof (cases rule: consumer_step.cases)
  case (pop_move tail)
  then show ?thesis using pop_move_Some(3,7,9) [of tail s s'] by simp
next
  case (pop_destroy v tail)
  then show ?thesis using pop_destroy_Some(3,7,9) [of v tail s s'] by simp
qed (simp_all add: acquire_head_def pop_publish_def)

lemma producer_step_keeps:
  assumes "producer_step s (Some s')"
  shows "cq_cpc s' = cq_cpc s \<and> cq_c_read s' = cq_c_read s \<and> cq_popped s' = cq_popped s"
  using assms
proof (cases rule: producer_step.cases)
  case (push_construct v head)
  then show ?thesis using push_construct_Some(3,8,10) [of v head s s'] by simp
qed (simp_all add: acquire_tail_def push_publish_def)

fun producer_remaining :: "'a producer_pc \<Rightarrow> nat" where
  "producer_remaining P_idle = 0"
| "producer_remaining (P_head_loaded v h) = 3"
| "producer_remaining (P_has_room v h) = 2"
| "producer_remaining (P_constructed v h) = 1"

fun consumer_remaining :: "'a consumer_pc \<Rightarrow> nat" where
  "consumer_remaining C_idle = 0"
| "consumer_remaining (C_tail_loaded t) = 4"
| "consumer_remaining (C_nonempty t) = 3"
| "consumer_remaining (C_moved v t) = 2"
| "consumer_remaining (C_destroyed v t) = 1"

lemma remaining_le: "producer_remaining p \<le> 3" "consumer_remaining c \<le> 4"
  by (cases p; simp) (cases c; simp)

lemma producer_step_progress:
  assumes "producer_step s (Some s')" "cq_ppc s \<noteq> P_idle"
  shows "producer_remaining (cq_ppc s') < producer_remaining (cq_ppc s)"
  using assms
proof (cases rule: producer_step.cases)
  case (push_construct v head)
  then show ?thesis using push_construct_Some(2) [of v head s s'] by simp
qed (simp_all add: push_publish_def)

lemma consumer_step_progress:
  assumes "consumer_step s (Some s')" "cq_cpc s \<noteq> C_idle"
  shows "consumer_remaining (cq_cpc s') < consumer_remaining (cq_cpc s)"
  using assms
proof (cases rule: consumer_step.cases)
  case (pop_move tail)
  then show ?thesis using pop_move_Some(1) [of tail s s'] by auto
next
  case (pop_destroy v tail)
  then show ?thesis using pop_destroy_Some(2) [of v tail s s'] by simp
qed (simp_all add: pop_publish_def)

lemma producer_returns:
  assumes "spsc_run s ls s'" "producer_remaining (cq_ppc s) \<le> count_list ls Producer"
  shows "\<exists>ls1 ls2 s1. ls = ls1 @ ls2 \<and> spsc_run s ls1 s1 \<and> spsc_run s1 ls2 s' \<and> cq_ppc s1 = P_idle"
  using assms
proof (induction rule: spsc_run.induct)
  case (run_nil s)
  then show ?case by (cases "cq_ppc s") auto
next
  case (run_producer s s1 ls s')
  show ?case
  proof (cases "cq_ppc s = P_idle")
    case True
    then show ?thesis using run_producer.hyps by (metis append_Nil spsc_run.intros)
  next
    case False
    have "producer_remaining (cq_ppc s1) \<le> count_list ls Producer"
      using producer_step_progress [OF run_producer.hyps(1) False] run_producer.prems by simp
    from run_producer.IH [OF this] show ?thesis
      using run_producer.hyps(1) by (metis append_Cons spsc_run.run_producer)
  qed
next
  case (run_consumer s s1 ls s')
  have "producer_remaining (cq_ppc s1) \<le> count_list ls Producer"
    using consumer_step_keeps [OF run_consumer.hyps(1)] run_consumer.prems by simp
  from run_consumer.IH [OF this] show ?case
    using run_consumer.hyps(1) by (metis append_Cons spsc_run.run_consumer)
qed

lemma consumer_returns:
  assumes "spsc_run s ls s'" "consumer_remaining (cq_cpc s) \<le> count_list ls Consumer"
  shows "\<exists>ls1 ls2 s1. ls = ls1 @ ls2 \<and> spsc_run s ls1 s1 \<and> spsc_run s1 ls2 s' \<and> cq_cpc s1 = C_idle"
  using assms
proof (induction rule: spsc_run.induct)
  case (run_nil s)
  then show ?case by (cases "cq_cpc s") auto
next
  case (run_consumer s s1 ls s')
  show ?case
  proof (cases "cq_cpc s = C_idle")
    case True
    then show ?thesis using run_consumer.hyps by (metis append_Nil spsc_run.intros)
  next
    case False
    have "consumer_remaining (cq_cpc s1) \<le> count_list ls Consumer"
      using consumer_step_progress [OF run_consumer.hyps(1) False] run_consumer.prems by simp
    from run_consumer.IH [OF this] show ?thesis
      using run_consumer.hyps(1) by (metis append_Cons spsc_run.run_consumer)
  qed
next
  case (run_producer s s1 ls s')
  have "consumer_remaining (cq_cpc s1) \<le> count_list ls Consumer"
    using producer_step_keeps [OF run_producer.hyps(1)] run_producer.prems by simp
  from run_producer.IH [OF this] show ?case
    using run_producer.hyps(1) by (metis append_Cons spsc_run.run_producer)
qed

lemma producer_enabled:
  assumes inv: "spsc_inv C s"
  shows "\<exists>s'. producer_step s (Some s')"
proof (cases "cq_ppc s")
  case (P_head_loaded v h)
  have cnt: "counters_inv C s" using inv by (simp add: spsc_inv_def)
  then have "cq_p_read s \<le> length (cq_popped s)" by (simp add: counters_inv_def)
  then show ?thesis
    using push_full [OF P_head_loaded _ latest_messages(2) [OF cnt]]
      push_room [OF P_head_loaded _ latest_messages(2) [OF cnt]] by blast
next
  case (P_has_room v h)
  then show ?thesis
    using spsc_inv_push_construct [OF inv P_has_room] producer_step.push_construct [OF P_has_room] by auto
qed (blast intro: push_start producer_step.push_publish)+

lemma consumer_enabled:
  assumes inv: "spsc_inv C s"
  shows "\<exists>s'. consumer_step s (Some s')"
proof (cases "cq_cpc s")
  case (C_tail_loaded t)
  have cnt: "counters_inv C s" using inv by (simp add: spsc_inv_def)
  then have "cq_c_read s \<le> length (cq_pushed s)" by (simp add: counters_inv_def)
  then show ?thesis
    using pop_empty [OF C_tail_loaded _ latest_messages(4) [OF cnt]]
      pop_nonempty [OF C_tail_loaded _ latest_messages(4) [OF cnt]] by blast
next
  case (C_nonempty t)
  then show ?thesis using spsc_inv_pop_move [OF inv C_nonempty] consumer_step.pop_move [OF C_nonempty] by auto
next
  case (C_moved v t)
  then show ?thesis using spsc_inv_pop_destroy [OF inv C_moved] consumer_step.pop_destroy [OF C_moved] by auto
qed (blast intro: pop_start consumer_step.pop_publish)+

text \<open>
  C9. Wait-freedom. In every reachable state each thread can take a step, whatever the other one is
  doing and even if it never runs again; and in every continuation in which the producer takes three
  more steps, or the consumer four, the operation that thread is in has returned.
\<close>

theorem spsc_wait_free:
  assumes "static_capacity C" "spsc_reach C s"
  shows "(\<exists>s'. producer_step s (Some s')) \<and> (\<exists>s'. consumer_step s (Some s')) \<and>
    (\<forall>ls s'. spsc_run s ls s' \<and> 3 \<le> count_list ls Producer \<longrightarrow>
       (\<exists>ls1 ls2 s1. ls = ls1 @ ls2 \<and> spsc_run s ls1 s1 \<and> spsc_run s1 ls2 s' \<and> cq_ppc s1 = P_idle)) \<and>
    (\<forall>ls s'. spsc_run s ls s' \<and> 4 \<le> count_list ls Consumer \<longrightarrow>
       (\<exists>ls1 ls2 s1. ls = ls1 @ ls2 \<and> spsc_run s ls1 s1 \<and> spsc_run s1 ls2 s' \<and> cq_cpc s1 = C_idle))"
proof (intro conjI allI impI; (elim conjE)?)
  have inv: "spsc_inv C s" using spsc_reach_inv [OF assms(2,1)] .
  show "\<exists>s'. producer_step s (Some s')" using producer_enabled [OF inv] .
  show "\<exists>s'. consumer_step s (Some s')" using consumer_enabled [OF inv] .
qed (rule producer_returns consumer_returns; use remaining_le order_trans in blast)+

text \<open>A run that pushes one value and pops it.\<close>

lemma run_push_pop:
  assumes C: "static_capacity C"
  shows "\<exists>s1 s2 ls1 ls2. spsc_run (spsc_init C) ls1 s1 \<and> cq_pushed s1 = [v] \<and> cq_popped s1 = [] \<and>
     cq_ppc s1 = P_idle \<and> cq_cpc s1 = C_idle \<and> spsc_run s1 ls2 s2 \<and> cq_pushed s2 = [v] \<and>
     cq_popped s2 = [v] \<and> cq_ppc s2 = P_idle \<and> cq_cpc s2 = C_idle"
proof -
  let ?s0 = "spsc_init C :: 'a spsc_conc"
  have s0: "cq_ppc ?s0 = P_idle" "cq_cpc ?s0 = C_idle" "cq_pushed ?s0 = []" "cq_popped ?s0 = []"
    "\<not> C \<le> rb_head (ring_of ?s0) - rb_tail (ring_of ?s0)" "rb_capacity (ring_of ?s0) = C"
    using static_capacity_bounds(1) [OF C] by (auto simp: spsc_init_def ring_of_def)
  note inv0 = spsc_inv_init [OF C]
  obtain s1 where c1: "emplace_call v ?s0 s1" "Suc (cq_p_read s1) = length (cq_tails ?s0)"
    using emplace_call_newest [OF inv0 s0(1)] by blast
  obtain b where b: "cq_pushed s1 = (if b then [v] else [])" "ring_try_emplace (ring_of ?s0) v = Some (b, ring_of s1)"
      and s1: "cq_ppc s1 = P_idle" "cq_cpc s1 = C_idle" "cq_popped s1 = []"
    using emplace_call_result [OF inv0 c1(1)] c1(2) s0(2-4) by auto
  have "b" using b(2) s0(5,6) by (auto simp: ring_try_emplace_def Let_def bind_eq_Some_conv)
  then have p1: "cq_pushed s1 = [v]" using b(1) by simp
  obtain ls1 where ls1: "spsc_run ?s0 ls1 s1" using call_run(3) [OF c1(1)] by blast
  note inv1 = spsc_run_inv [OF ls1 inv0]
  then have "counters_inv C s1" by (simp add: spsc_inv_def)
  then have ne: "rb_tail (ring_of s1) \<noteq> rb_head (ring_of s1)"
    using p1 s1(3) by (simp add: ring_of_def last_messages)
  obtain s2 where c2: "pop_call s1 s2" "Suc (cq_c_read s2) = length (cq_heads s1)"
    using pop_call_newest [OF inv1 s1(2)] by blast
  obtain b2 x where b2: "cq_popped s2 = (if b2 then [x] else [])" "ring_try_pop (ring_of s1) v = Some (b2, x, ring_of s2)"
      and s2: "cq_cpc s2 = C_idle" "cq_ppc s2 = P_idle" "cq_pushed s2 = [v]"
    using pop_call_result [OF inv1 c2(1), of v] c2(2) s1 p1 by auto
  have "b2" using b2(2) ne by (auto simp: ring_try_pop_def Let_def bind_eq_Some_conv)
  obtain ls2 where ls2: "spsc_run s1 ls2 s2" using call_run(4) [OF c2(1)] by blast
  have "cq_popped s2 = take (length (cq_popped s2)) (cq_pushed s2)"
    using spsc_run_inv [OF ls2 inv1] by (simp add: spsc_inv_def)
  then have "cq_popped s2 = [v]" using \<open>b2\<close> b2(1) s2(3) by simp
  then show ?thesis using ls1 s1 p1 ls2 s2 by blast
qed

lemma reach_pushed:
  assumes "static_capacity C"
  shows "\<exists>s. spsc_reach C s \<and> cq_pushed s = [v] \<and> cq_popped s = [] \<and> cq_ppc s = P_idle \<and> cq_cpc s = C_idle"
  using run_push_pop [OF assms, of v] spsc_run_reach [OF _ reach_init] by blast

theorem spsc_no_race_witness:
  "\<exists>s. spsc_reach 4 s \<and> cq_pushed s = [7::nat] \<and> \<not> spsc_step s None"
proof -
  have C: "static_capacity 4" by (simp add: static_capacity_def)
  obtain s where s: "spsc_reach 4 s" "cq_pushed s = [7::nat]" using reach_pushed [OF C, of "7::nat"] by blast
  then show ?thesis using spsc_no_race [OF C s(1)] by blast
qed

theorem spsc_concurrent_fifo_witness:
  "\<exists>s rest. spsc_reach 4 s \<and> cq_pushed s = [7::nat] \<and> [7] = cq_popped s @ rest \<and> length rest \<le> 4"
proof -
  have C: "static_capacity 4" by (simp add: static_capacity_def)
  obtain s where s: "spsc_reach 4 s" "cq_pushed s = [7::nat]" using reach_pushed [OF C, of "7::nat"] by blast
  obtain rest where "cq_pushed s = cq_popped s @ rest \<and> length rest \<le> unat (4 :: size_t)"
    using spsc_concurrent_fifo [OF C s(1)] ..
  then show ?thesis using s by (intro exI [of _ s] exI [of _ rest]) simp
qed

theorem spsc_wait_free_witness:
  "\<exists>s s'. spsc_reach 4 s \<and> cq_pushed s = [7::nat] \<and> consumer_step s (Some s')"
proof -
  have C: "static_capacity 4" by (simp add: static_capacity_def)
  obtain s where s: "spsc_reach 4 s" "cq_pushed s = [7::nat]" using reach_pushed [OF C, of "7::nat"] by blast
  obtain s' where "consumer_step s (Some s')"
    using spsc_wait_free [OF C s(1), THEN conjunct2, THEN conjunct1] ..
  then show ?thesis using s by blast
qed

section \<open>Observers\<close>

text \<open>
  C37. What the observers return under concurrency. The producer's own \<open>size_approx()\<close> never
  underestimates the queue and never exceeds \<open>Capacity\<close>; the consumer's own never overestimates
  it. For a third thread neither holds: it loads \<open>head_\<close> before \<open>tail_\<close>, and when a value passes
  through the queue between the two loads the difference wraps to \<open>2 ^ 64 - 1\<close>, so \<open>full()\<close> is
  true of a queue that never held more than one value.
\<close>

theorem spsc_observers_concurrent:
  assumes "static_capacity C"
  shows "(\<forall>s j. spsc_reach C s \<and> cq_p_read s \<le> j \<and> j < length (cq_tails s) \<longrightarrow>
           length (cq_pushed s) - length (cq_popped s) \<le> unat (observed_size s (length (cq_pushed s)) j) \<and>
           unat (observed_size s (length (cq_pushed s)) j) \<le> unat C) \<and>
         (\<forall>s i. spsc_reach C s \<and> cq_c_read s \<le> i \<and> i < length (cq_heads s) \<longrightarrow>
           unat (observed_size s i (length (cq_popped s))) \<le> length (cq_pushed s) - length (cq_popped s)) \<and>
         (\<exists>ls s. spsc_run (spsc_init C) ls s \<and> cq_pushed s = [v] \<and>
           observed_size s 0 (length (cq_popped s)) = - 1 \<and> observed_full s 0 (length (cq_popped s)))"
proof (intro conjI allI impI; (elim conjE)?)
  fix s j assume s: "spsc_reach C s" "cq_p_read s \<le> j" "j < length (cq_tails s)"
  note o = producer_observes [OF spsc_reach_inv [OF s(1) assms] s(2,3)]
  show "length (cq_pushed s) - length (cq_popped s) \<le> unat (observed_size s (length (cq_pushed s)) j)"
    "unat (observed_size s (length (cq_pushed s)) j) \<le> unat C"
    using o by simp_all
next
  fix s i assume s: "spsc_reach C s" "cq_c_read s \<le> i" "i < length (cq_heads s)"
  have inv: "spsc_inv C s" using spsc_reach_inv [OF s(1) assms] .
  then have "i \<le> length (cq_pushed s)" using head_message(2) [of C s i] s(3) by (simp add: spsc_inv_def)
  then show "unat (observed_size s i (length (cq_popped s))) \<le> length (cq_pushed s) - length (cq_popped s)"
    using consumer_observes(1) [OF inv s(2,3)] by simp
next
  obtain s1 s2 ls1 ls2 where r: "spsc_run (spsc_init C) ls1 s1" "spsc_run s1 ls2 s2"
      "cq_pushed s2 = [v]" "cq_popped s2 = [v]"
    using run_push_pop [OF assms, of v] by blast
  then have run: "spsc_run (spsc_init C) (ls1 @ ls2) s2" by (simp add: spsc_run_append)
  then have "counters_inv C s2"
    using spsc_run_inv [OF run spsc_inv_init [OF assms]] by (simp add: spsc_inv_def)
  then have "observed_size s2 0 1 = - 1" "cq_capacity s2 = C"
    using r(3,4) by (simp_all add: counters_inv_def observed_size_def)
  then show "\<exists>ls s. spsc_run (spsc_init C) ls s \<and> cq_pushed s = [v] \<and>
      observed_size s 0 (length (cq_popped s)) = - 1 \<and> observed_full s 0 (length (cq_popped s))"
    using run r(3,4) by (auto simp: observed_full_def intro!: exI [of _ "ls1 @ ls2"] exI [of _ s2])
qed

theorem spsc_observers_concurrent_witness:
  "\<exists>ls s. spsc_run (spsc_init 2) ls s \<and> cq_pushed s = [7::nat] \<and> observed_full s 0 (length (cq_popped s))"
proof -
  have "static_capacity 2" by (simp add: static_capacity_def)
  from spsc_observers_concurrent [OF this, of "7::nat", THEN conjunct2, THEN conjunct2]
  show ?thesis by blast
qed

lemma p_read_mono: "producer_step s (Some s') \<Longrightarrow> cq_p_read s \<le> cq_p_read s'"
  by (cases rule: producer_step.cases, assumption)
    (auto simp: acquire_tail_def push_publish_def push_construct_Some(9) dest: sym)

lemma run_p_read_mono: "spsc_run s ls s' \<Longrightarrow> cq_p_read s \<le> cq_p_read s'"
  by (induction rule: spsc_run.induct) (auto dest: p_read_mono consumer_step_keeps)

text \<open>
  A room check by the producer stays valid. \<open>PersistentBroker::try_publish\<close> calls \<open>full()\<close>,
  then writes the log, then pushes. If \<open>full()\<close> returned false to the producer then, whatever the
  consumer does and whatever the later acquire load returns, the next \<open>try_push\<close> of the producer
  finds room: a logged message is never refused by the queue.
\<close>

theorem spsc_room_check_stable:
  assumes "static_capacity C" "spsc_reach C s" "cq_ppc s = P_idle"
    and load: "cq_p_read s \<le> j" "j < length (cq_tails s)"
    and not_full: "\<not> observed_full s (length (cq_pushed s)) j"
    and run: "spsc_run (acquire_tail j s) ls s'" "cq_pushed s' = cq_pushed s"
    and push: "cq_ppc s' = P_head_loaded v h" "producer_step s' (Some s'')"
  shows "cq_ppc s'' = P_has_room v h"
proof -
  have inv: "spsc_inv C s" using spsc_reach_inv assms(1,2) by blast
  have inv': "spsc_inv C s'" using spsc_run_inv [OF run(1)] spsc_inv_observe(1) [OF inv assms(3) load] .
  note o = producer_observes [OF inv load]
  have "cq_capacity s = C" using inv by (simp add: spsc_inv_def counters_inv_def)
  then have room: "length (cq_pushed s) < j + unat C"
    using not_full o by (simp add: observed_full_def word_le_nat_alt)
  have j': "j \<le> cq_p_read s'" using run_p_read_mono [OF run(1)] by (simp add: acquire_tail_def)
  have h: "h = fst (cq_heads s' ! length (cq_pushed s'))" "cq_capacity s' = C"
    using inv' push(1) head_message(1) [of C s' "length (cq_pushed s')"] latest_messages(4) [of C s']
    by (simp_all add: spsc_inv_def counters_inv_def)
  show ?thesis
    using push(2)
  proof (cases rule: producer_step.cases)
    case (push_full v' h' i)
    then have "observed_full s' (length (cq_pushed s')) i"
      using push(1) h by (simp add: observed_full_def observed_size_def)
    then have "unat C \<le> length (cq_pushed s') - i"
      using producer_observes(1) [OF inv' push_full(3,4)] h(2)
      by (simp add: observed_full_def word_le_nat_alt)
    then show ?thesis using room j' push_full(3) run(2) static_capacity_bounds(1) [OF assms(1)] by simp
  qed (use push(1) in simp_all)
qed

theorem spsc_room_check_stable_witness:
  "\<exists>s s' s''. spsc_reach 2 s \<and> cq_pushed s = [7::nat] \<and> \<not> observed_full s 1 0 \<and>
     spsc_run (acquire_tail 0 s) [Producer] s' \<and> producer_step s' (Some s'') \<and> cq_ppc s'' = P_has_room 8 1"
proof -
  have C: "static_capacity 2" by (simp add: static_capacity_def)
  obtain s where s: "spsc_reach 2 s" "cq_pushed s = [7::nat]" "cq_popped s = []" "cq_ppc s = P_idle"
    using reach_pushed [OF C, of "7::nat"] by blast
  have inv: "spsc_inv 2 s" using spsc_reach_inv [OF s(1) C] .
  then have cnt: "counters_inv 2 s" by (simp add: spsc_inv_def)
  have load: "cq_p_read s \<le> 0" "0 < length (cq_tails s)" "fst (last (cq_heads s)) = 1"
    using cnt s last_messages(1) [OF cnt] by (simp_all add: counters_inv_def)
  have not_full: "\<not> observed_full s (length (cq_pushed s)) 0"
    using cnt s by (simp add: counters_inv_def observed_full_def observed_size_def word_le_nat_alt)
  let ?s1 = "acquire_tail 0 s" and ?s' = "(acquire_tail 0 s)\<lparr>cq_ppc := P_head_loaded 8 1\<rparr>"
  have "producer_step ?s1 (Some ?s')"
    using push_start [of ?s1 8] s(4) load(3) by (simp add: acquire_tail_def)
  then have run: "spsc_run ?s1 [Producer] ?s'" by (blast intro: spsc_run.intros)
  have "spsc_inv 2 ?s'" using spsc_run_inv [OF run spsc_inv_observe(1) [OF inv s(4) load(1,2)]] .
  then obtain s'' where step: "producer_step ?s' (Some s'')" using producer_enabled by blast
  then have "cq_ppc s'' = P_has_room (8::nat) 1"
    using spsc_room_check_stable [OF C s(1,4) load(1,2) not_full run] by (simp add: acquire_tail_def)
  then show ?thesis using s(1,2) not_full run step
    by (intro exI [of _ s] exI [of _ ?s'] exI [of _ s'']) simp
qed

end
