(* ===== verification/Latency_Histogram.thy ===== *)
theory Latency_Histogram
  imports Complex_Main "HOL-Library.Log_Nat" "HOL-Library.Multiset" Aether_Prelude
begin

text \<open>
  \<open>src/metrics/latency_histogram.cpp\<close>: the diagnostic latency histogram.

  \<^item> A \<open>double\<close> is modelled by its value, a rational number; \<open>fl\<close> is IEEE 754 rounding to the
    nearest binary64 number, ties to even, with gradual underflow. The values that occur lie far below
    the overflow threshold, so there is no infinity. Every arithmetic operation and conversion of the
    source is rounded where the source rounds it; the literal \<open>99.9\<close> is \<open>fl (999 / 10)\<close>. A NaN
    argument is outside the model.
  \<^item> An index outside the sorted vector, undefined behaviour in C++, is \<open>None\<close>.
  \<^item> Shown: percentiles stay inside the vector, depend only on the samples as a multiset, are
    monotone; \<open>p50\<close> is the exact nearest rank and \<open>p999\<close> of 1000 samples is not.
\<close>

section \<open>Binary64 rounding\<close>

definition round_even :: "rat \<Rightarrow> int" where
  "round_even x =
     (let f = \<lfloor>x\<rfloor>; d = x - of_int f in
      if d < 1 / 2 then f else if d > 1 / 2 then f + 1 else if even f then f else f + 1)"

text \<open>The exponent of the leading binary digit of a positive rational.\<close>

definition ilog :: "rat \<Rightarrow> int" where
  "ilog x =
     (case quotient_of x of (a, b) \<Rightarrow>
        let k = int (floorlog 2 (nat a)) - int (floorlog 2 (nat b)) in
        if 2 powi k \<le> x then k else k - 1)"

definition double_exponent :: "rat \<Rightarrow> int" where
  "double_exponent x = max (ilog x - 52) (- 1074)"

definition fl :: "rat \<Rightarrow> rat" where
  "fl x =
     (if x = 0 then 0
      else of_int (round_even (x / 2 powi double_exponent x)) * 2 powi double_exponent x)"

section \<open>The histogram\<close>

record LatencyHistogram =
  lh_samples :: "u64 list"

definition histogram_init :: LatencyHistogram where
  "histogram_init = \<lparr>lh_samples = []\<rparr>"

definition histogram_record :: "LatencyHistogram \<Rightarrow> u64 \<Rightarrow> LatencyHistogram" where
  "histogram_record h latency_ns = h\<lparr>lh_samples := lh_samples h @ [latency_ns]\<rparr>"

definition histogram_clear :: "LatencyHistogram \<Rightarrow> LatencyHistogram" where
  "histogram_clear h = h\<lparr>lh_samples := []\<rparr>"

definition histogram_empty :: "LatencyHistogram \<Rightarrow> bool" where
  "histogram_empty h \<longleftrightarrow> lh_samples h = []"

definition histogram_count :: "LatencyHistogram \<Rightarrow> nat" where
  "histogram_count h = length (lh_samples h)"

definition histogram_min :: "LatencyHistogram \<Rightarrow> u64" where
  "histogram_min h = (case lh_samples h of [] \<Rightarrow> 0 | x # xs \<Rightarrow> foldl min x xs)"

definition histogram_max :: "LatencyHistogram \<Rightarrow> u64" where
  "histogram_max h = (case lh_samples h of [] \<Rightarrow> 0 | x # xs \<Rightarrow> foldl max x xs)"

definition double_of_nat :: "nat \<Rightarrow> rat" where
  "double_of_nat n = fl (of_nat n)"

definition histogram_mean :: "LatencyHistogram \<Rightarrow> rat" where
  "histogram_mean h =
     (if lh_samples h = [] then 0
      else
        let total = foldl (\<lambda>acc s. fl (acc + double_of_nat (unat s))) 0 (lh_samples h) in
        fl (total / double_of_nat (length (lh_samples h))))"

definition percentile_rank :: "rat \<Rightarrow> nat \<Rightarrow> nat" where
  "percentile_rank percentile_value n =
     nat \<lceil>fl (fl (percentile_value / 100) * double_of_nat n)\<rceil>"

definition histogram_percentile :: "LatencyHistogram \<Rightarrow> rat \<Rightarrow> u64 option" where
  "histogram_percentile h percentile_value =
     (if lh_samples h = [] then Some 0
      else if percentile_value \<le> 0 then Some (histogram_min h)
      else if percentile_value \<ge> 100 then Some (histogram_max h)
      else
        let sorted = sort (lh_samples h);
            rank = percentile_rank percentile_value (length sorted);
            index = (if rank = 0 then 1 else rank) - 1 in
        if index < length sorted then Some (sorted ! index) else None)"

definition histogram_p50 :: "LatencyHistogram \<Rightarrow> u64 option" where
  "histogram_p50 h = histogram_percentile h (fl 50)"

definition histogram_p95 :: "LatencyHistogram \<Rightarrow> u64 option" where
  "histogram_p95 h = histogram_percentile h (fl 95)"

definition histogram_p99 :: "LatencyHistogram \<Rightarrow> u64 option" where
  "histogram_p99 h = histogram_percentile h (fl 99)"

definition histogram_p999 :: "LatencyHistogram \<Rightarrow> u64 option" where
  "histogram_p999 h = histogram_percentile h (fl (999 / 10))"

section \<open>Facts about rounding\<close>

lemma round_even_le: "x \<le> of_int z \<Longrightarrow> round_even x \<le> z"
  unfolding round_even_def Let_def by (cases "\<lfloor>x\<rfloor> = z") (auto, linarith+)

lemma round_even_ge: "of_int z \<le> x \<Longrightarrow> z \<le> round_even x"
  unfolding round_even_def Let_def by (auto, linarith+)

lemma round_even_mono:
  assumes "x \<le> y"
  shows "round_even x \<le> round_even y"
proof (cases "\<lfloor>x\<rfloor> = \<lfloor>y\<rfloor>")
  case True
  have "x - of_int \<lfloor>y\<rfloor> \<le> y - of_int \<lfloor>y\<rfloor>" using assms by simp
  then show ?thesis using True unfolding round_even_def Let_def by auto
next
  case False
  then have "\<lfloor>x\<rfloor> + 1 \<le> \<lfloor>y\<rfloor>" using floor_mono [OF assms] by linarith
  moreover have "round_even x \<le> \<lfloor>x\<rfloor> + 1" "\<lfloor>y\<rfloor> \<le> round_even y" by (auto simp: round_even_def Let_def)
  ultimately show ?thesis by linarith
qed

lemma floorlog_nat_bounds:
  assumes "0 < n"
  shows "(2::rat) powi (int (floorlog 2 (nat n)) - 1) \<le> of_int n" "of_int n < (2::rat) powi int (floorlog 2 (nat n))"
proof -
  let ?l = "floorlog 2 (nat n)"
  have l: "2 ^ (?l - 1) \<le> nat n" "nat n < 2 ^ ?l" using floorlog_bounds [of "nat n" 2] assms by simp_all
  have pos: "0 < ?l" using assms by (simp add: floorlog_def)
  have "(2::rat) ^ (?l - 1) \<le> of_int n"
    using l(1) assms by (metis (mono_tags) of_nat_le_iff of_nat_nat of_nat_numeral of_nat_power less_imp_le of_int_of_nat_eq)
  then show "(2::rat) powi (int ?l - 1) \<le> of_int n" using pos by (simp add: power_int_def nat_diff_distrib)
  have "of_int n < (2::rat) ^ ?l"
    using l(2) assms by (metis (mono_tags) of_nat_less_iff of_nat_nat of_nat_numeral of_nat_power less_imp_le of_int_of_nat_eq)
  then show "of_int n < (2::rat) powi int ?l" by simp
qed

lemma ilog_bounds:
  assumes "0 < x"
  shows "2 powi ilog x \<le> x" "x < 2 powi (ilog x + 1)"
proof -
  obtain a b where q: "quotient_of x = (a, b)" by (cases "quotient_of x")
  have b: "0 < b" using quotient_of_denom_pos [OF q] .
  have x: "x = of_int a / of_int b" using quotient_of_div [OF q] .
  then have a: "0 < a" using assms b by (simp add: zero_less_divide_iff)
  let ?la = "int (floorlog 2 (nat a))" and ?lb = "int (floorlog 2 (nat b))"
  note fa = floorlog_nat_bounds [OF a] and fb = floorlog_nat_bounds [OF b]
  have "x < 2 powi ?la / 2 powi (?lb - 1)"
    unfolding x using fa fb a b by (intro frac_less) auto
  then have up: "x < 2 powi (?la - ?lb + 1)" by (simp add: power_int_diff power_int_add algebra_simps)
  have "2 powi (?la - 1) / 2 powi ?lb \<le> x"
    unfolding x using fa fb a b by (intro frac_le) auto
  then have lo: "2 powi (?la - ?lb - 1) \<le> x" by (simp add: power_int_diff power_int_add algebra_simps)
  show "2 powi ilog x \<le> x" "x < 2 powi (ilog x + 1)"
    using up lo by (auto simp: ilog_def q Let_def)
qed

lemma powi_less_iff: "(2::rat) powi i < 2 powi j \<longleftrightarrow> i < j"
proof -
  have inc: "i < j \<Longrightarrow> (2::rat) powi i < 2 powi j" for i j by (rule power_int_strict_increasing) simp_all
  then show ?thesis using inc [of i j] inc [of j i] by (cases i j rule: linorder_cases) (auto dest: order.asym)
qed

lemma ilog_eqI: "2 powi k \<le> x \<Longrightarrow> x < 2 powi (k + 1) \<Longrightarrow> ilog x = k"
proof -
  assume k: "2 powi k \<le> x" "x < 2 powi (k + 1)"
  have "0 < x" using k(1) by (rule less_le_trans [rotated]) simp
  note b = ilog_bounds [OF this]
  have "2 powi k < (2::rat) powi (ilog x + 1)" "2 powi ilog x < (2::rat) powi (k + 1)"
    using k b by (auto intro: le_less_trans)
  then show ?thesis by (simp add: powi_less_iff)
qed

lemma ilog_mono:
  assumes "0 < x" "x \<le> y"
  shows "ilog x \<le> ilog y"
proof -
  have "2 powi ilog x < (2::rat) powi (ilog y + 1)"
    using ilog_bounds(1) [OF assms(1)] ilog_bounds(2) [of y] assms by (auto intro: le_less_trans order_trans)
  then show ?thesis by (simp add: powi_less_iff)
qed

text \<open>Multiples of a power of two, the numbers a rounding at that exponent keeps.\<close>

definition multiple_of_exp :: "int \<Rightarrow> rat \<Rightarrow> bool" where
  "multiple_of_exp e y \<longleftrightarrow> (\<exists>z::int. y = of_int z * 2 powi e)"

lemma multiple_of_exp_weaken: "multiple_of_exp f y \<Longrightarrow> e \<le> f \<Longrightarrow> multiple_of_exp e y"
proof -
  assume "multiple_of_exp f y" "e \<le> f"
  then obtain z :: int where z: "y = of_int z * 2 powi f" by (auto simp: multiple_of_exp_def)
  have "(2::rat) powi f = 2 powi (f - e) * 2 powi e" by (simp add: power_int_diff)
  also have "(2::rat) powi (f - e) = of_int (2 ^ nat (f - e))" using \<open>e \<le> f\<close> by (simp add: power_int_def)
  finally have "y = of_int (z * 2 ^ nat (f - e)) * 2 powi e" using z by simp
  then show ?thesis unfolding multiple_of_exp_def by blast
qed

lemma multiple_of_exp_int: "e \<le> 0 \<Longrightarrow> multiple_of_exp e (of_int z)"
  by (rule multiple_of_exp_weaken [of 0]) (auto simp: multiple_of_exp_def)

lemma multiple_of_exp_pow: "e \<le> k \<Longrightarrow> multiple_of_exp e (2 powi k)"
  by (rule multiple_of_exp_weaken [of k]) (auto simp: multiple_of_exp_def intro: exI [of _ 1])

lemma fl_bounds:
  assumes "0 < x" "multiple_of_exp (double_exponent x) y"
  shows "x \<le> y \<Longrightarrow> fl x \<le> y" "y \<le> x \<Longrightarrow> y \<le> fl x"
proof -
  let ?p = "(2::rat) powi double_exponent x"
  obtain z :: int where z: "y = of_int z * ?p" using assms(2) by (auto simp: multiple_of_exp_def)
  have p: "0 < ?p" by simp
  show "x \<le> y \<Longrightarrow> fl x \<le> y"
    using round_even_le [of "x / ?p" z] assms(1) p z by (simp add: fl_def divide_le_eq)
  show "y \<le> x \<Longrightarrow> y \<le> fl x"
    using round_even_ge [of z "x / ?p"] assms(1) p z by (simp add: fl_def le_divide_eq)
qed

lemma fl_nonneg: "0 \<le> x \<Longrightarrow> 0 \<le> fl x"
  using fl_bounds(2) [of x 0] by (cases "x = 0") (auto simp: fl_def multiple_of_exp_def intro: exI [of _ 0])

lemma fl_mono:
  assumes "0 \<le> x" "x \<le> y"
  shows "fl x \<le> fl y"
proof (cases "x = 0")
  case True
  then show ?thesis using fl_nonneg [of y] assms by (simp add: fl_def)
next
  case False
  then have x: "0 < x" and y: "0 < y" using assms by auto
  have le: "double_exponent x \<le> double_exponent y"
    using ilog_mono [OF x assms(2)] by (simp add: double_exponent_def)
  show ?thesis
  proof (cases "double_exponent x = double_exponent y")
    case True
    have "x / 2 powi double_exponent y \<le> y / 2 powi double_exponent y"
      using assms(2) by (simp add: divide_right_mono)
    then show ?thesis
      using round_even_mono x y True by (simp add: fl_def mult_right_mono)
  next
    case False
    with le have lt: "double_exponent x < double_exponent y" by simp
    then have e: "ilog x < ilog y" "double_exponent y = ilog y - 52"
      by (auto simp: double_exponent_def max_def split: if_splits)
    have "(2::rat) powi (ilog x + 1) \<le> 2 powi ilog y"
      using e(1) by (cases "ilog x + 1 = ilog y") (auto simp: powi_less_iff intro: less_imp_le)
    then have "x \<le> 2 powi ilog y" using ilog_bounds(2) [OF x] by simp
    then have "fl x \<le> 2 powi ilog y"
      using fl_bounds(1) [OF x multiple_of_exp_pow] lt e(2) by simp
    also have "\<dots> \<le> fl y"
      using fl_bounds(2) [OF y multiple_of_exp_pow, of "ilog y"] ilog_bounds(1) [OF y] e(2) by simp
    finally show ?thesis .
  qed
qed

text \<open>Binary64 numbers are not changed by rounding; in particular integers up to \<open>2 ^ 53\<close>.\<close>

lemma fl_binary64:
  assumes n: "n \<le> 2 ^ 53" and s: "- 1074 \<le> s"
  shows "fl (of_nat n * 2 powi s) = of_nat n * 2 powi s"
proof (cases "n = 0")
  case True
  then show ?thesis by (simp add: fl_def)
next
  case False
  let ?y = "of_nat n * (2::rat) powi s"
  have y: "0 < ?y" using False by simp
  have top: "(2::rat) ^ 53 * 2 powi s = 2 powi (53 + s)" by (simp add: power_int_add)
  have "of_nat n \<le> (2::rat) ^ 53" using of_nat_mono [OF n, where 'a = rat] by simp
  then have le: "?y \<le> 2 powi (53 + s)" unfolding top [symmetric] by (rule mult_right_mono) simp
  have "2 powi ilog ?y < (2::rat) powi (53 + s + 1)"
    using ilog_bounds(1) [OF y] le powi_less_iff [of "53 + s" "53 + s + 1"] by linarith
  then have il: "ilog ?y \<le> 53 + s" by (simp add: powi_less_iff)
  have "multiple_of_exp (double_exponent ?y) ?y"
  proof (cases "ilog ?y = 53 + s")
    case True
    then have "?y = 2 powi (53 + s)" using ilog_bounds(1) [OF y] le by simp
    then show ?thesis
      using multiple_of_exp_pow [of "double_exponent ?y" "53 + s"] True s by (simp add: double_exponent_def)
  next
    case False
    have "multiple_of_exp s ?y" unfolding multiple_of_exp_def by (intro exI [of _ "int n"]) simp
    then show ?thesis
      using False il s by (elim multiple_of_exp_weaken) (simp add: double_exponent_def)
  qed
  then show ?thesis using fl_bounds [OF y] by (meson order.antisym order_refl)
qed

lemma fl_of_nat: "n \<le> 2 ^ 53 \<Longrightarrow> fl (of_nat n) = of_nat n"
  using fl_binary64 [of n 0] by simp

lemma fl_half:
  assumes "n \<le> 2 ^ 53"
  shows "fl (of_nat n / 2) = of_nat n / 2"
proof -
  have half: "(2::rat) powi (- 1) = 1 / 2" by (simp add: power_int_def)
  have "(- 1074::int) \<le> - 1" by simp
  from fl_binary64 [OF assms this] show ?thesis unfolding half by simp
qed

lemma round_even_eqI:
  assumes "\<bar>x - of_int m\<bar> < 1 / 2"
  shows "round_even x = m"
proof -
  have d: "x - of_int m < 1 / 2" "x - of_int (m - 1) > 1 / 2" using assms by (auto simp: abs_if split: if_splits)
  have "\<lfloor>x\<rfloor> = m \<or> \<lfloor>x\<rfloor> = m - 1" using d by linarith
  then show ?thesis
  proof
    assume "\<lfloor>x\<rfloor> = m"
    then show ?thesis using d(1) unfolding round_even_def Let_def by simp
  next
    assume "\<lfloor>x\<rfloor> = m - 1"
    then show ?thesis using d(2) unfolding round_even_def Let_def by simp
  qed
qed

lemma fl_eqI:
  assumes "2 powi k \<le> x" "x < 2 powi (k + 1)" "- 1022 \<le> k"
    and m: "\<bar>x / 2 powi (k - 52) - of_int m\<bar> < 1 / 2"
  shows "fl x = of_int m * 2 powi (k - 52)"
proof -
  have "0 < x" using assms(1) by (rule less_le_trans [rotated]) simp
  moreover have "double_exponent x = k - 52"
    using ilog_eqI [OF assms(1,2)] assms(3) by (simp add: double_exponent_def)
  moreover have "round_even (x / 2 powi (k - 52)) = m" using round_even_eqI [OF m] .
  ultimately show ?thesis by (simp add: fl_def)
qed

section \<open>Ranks\<close>

lemma fl_1: "fl 1 = 1"
  using fl_of_nat [of 1] by simp

lemma percentile_rank_le:
  assumes "0 \<le> p" "p \<le> 100" "n \<le> 2 ^ 53"
  shows "percentile_rank p n \<le> n"
proof -
  have "fl (p / 100) \<le> 1" using fl_mono [of "p / 100" 1] assms(1,2) fl_1 by simp
  then have "fl (p / 100) * of_nat n \<le> of_nat n" by (simp add: mult_left_le_one_le fl_nonneg assms(1))
  then have "fl (fl (p / 100) * of_nat n) \<le> of_nat n"
    using fl_mono [of "fl (p / 100) * of_nat n" "of_nat n"] fl_nonneg [of "p / 100"] fl_of_nat [OF assms(3)] assms(1)
    by simp
  then show ?thesis
    by (simp add: percentile_rank_def double_of_nat_def fl_of_nat [OF assms(3)] ceiling_le_iff nat_le_iff)
qed

lemma percentile_rank_mono:
  assumes "0 \<le> p" "p \<le> q"
  shows "percentile_rank p n \<le> percentile_rank q n"
proof -
  have d: "0 \<le> double_of_nat n" by (simp add: double_of_nat_def fl_nonneg)
  have "fl (p / 100) \<le> fl (q / 100)" using assms by (intro fl_mono) (simp_all add: divide_right_mono)
  then have "fl (p / 100) * double_of_nat n \<le> fl (q / 100) * double_of_nat n" using d by (rule mult_right_mono)
  then have "fl (fl (p / 100) * double_of_nat n) \<le> fl (fl (q / 100) * double_of_nat n)"
    using d assms(1) by (intro fl_mono mult_nonneg_nonneg) (simp_all add: fl_nonneg)
  then show ?thesis unfolding percentile_rank_def by (intro nat_mono ceiling_mono)
qed

lemma foldl_min_sorted: "foldl min x xs = sort (x # xs) ! 0" for x :: "'a::linorder"
proof -
  have "foldl min x xs = Min (set (x # xs))"
    by (simp add: Min.set_eq_fold foldl_conv_fold min.commute del: set_simps list.set)
  also have "\<dots> = sort (x # xs) ! 0"
  proof (rule Min_eqI)
    show "sort (x # xs) ! 0 \<in> set (x # xs)" by (metis length_greater_0_conv length_sort list.distinct(1) nth_mem set_sort)
    fix y assume "y \<in> set (x # xs)"
    then obtain i where "i < length (sort (x # xs))" "y = sort (x # xs) ! i" by (metis in_set_conv_nth set_sort)
    then show "sort (x # xs) ! 0 \<le> y" using sorted_nth_mono [OF sorted_sort] by blast
  qed simp
  finally show ?thesis .
qed

lemma foldl_max_sorted: "foldl max x xs = sort (x # xs) ! length xs" for x :: "'a::linorder"
proof -
  have "foldl max x xs = Max (set (x # xs))"
    by (simp add: Max.set_eq_fold foldl_conv_fold max.commute del: set_simps list.set)
  also have "\<dots> = sort (x # xs) ! length xs"
  proof (rule Max_eqI)
    show "sort (x # xs) ! length xs \<in> set (x # xs)" by (metis length_Cons length_sort lessI nth_mem set_sort)
    fix y assume "y \<in> set (x # xs)"
    then obtain i where i: "i < length (sort (x # xs))" "y = sort (x # xs) ! i" by (metis in_set_conv_nth set_sort)
    have "i \<le> length xs" "length xs < length (sort (x # xs))" using i(1) by (simp_all del: sort_key_simps(2))
    then show "y \<le> sort (x # xs) ! length xs" using sorted_nth_mono [OF sorted_sort] i(2) by blast
  qed simp
  finally show ?thesis .
qed

text \<open>Every percentile is an order statistic.\<close>

definition percentile_index :: "rat \<Rightarrow> nat \<Rightarrow> nat" where
  "percentile_index p n =
     (if p \<le> 0 then 0 else if p \<ge> 100 then n - 1 else (if percentile_rank p n = 0 then 1 else percentile_rank p n) - 1)"

lemma percentile_index_less: "0 < n \<Longrightarrow> n \<le> 2 ^ 53 \<Longrightarrow> percentile_index p n < n"
  using percentile_rank_le [of p n] by (auto simp: percentile_index_def)

lemma percentile_index_mono: "p \<le> q \<Longrightarrow> 0 < n \<Longrightarrow> n \<le> 2 ^ 53 \<Longrightarrow> percentile_index p n \<le> percentile_index q n"
  using percentile_rank_mono [of p q n] percentile_index_less [of n p] by (auto simp: percentile_index_def)

lemma histogram_percentile_index:
  assumes "lh_samples h \<noteq> []" "length (lh_samples h) \<le> 2 ^ 53"
  shows "histogram_percentile h p = Some (sort (lh_samples h) ! percentile_index p (length (lh_samples h)))"
    "histogram_min h = sort (lh_samples h) ! 0"
    "histogram_max h = sort (lh_samples h) ! (length (lh_samples h) - 1)"
proof -
  let ?xs = "lh_samples h"
  show min: "histogram_min h = sort ?xs ! 0" and max: "histogram_max h = sort ?xs ! (length ?xs - 1)"
    using assms(1) by (auto simp: histogram_min_def histogram_max_def foldl_min_sorted foldl_max_sorted
      neq_Nil_conv simp del: sort_key_simps(2))
  show "histogram_percentile h p = Some (sort ?xs ! percentile_index p (length ?xs))"
    using percentile_index_less [of "length ?xs" p] assms min max
    by (auto simp: histogram_percentile_def percentile_index_def Let_def split: if_splits)
qed

text \<open>The documented nearest rank, in exact arithmetic.\<close>

definition nearest_rank :: "rat \<Rightarrow> nat \<Rightarrow> nat" where
  "nearest_rank p n = nat \<lceil>p / 100 * of_nat n\<rceil>"

lemma p50_rank: "n \<le> 2 ^ 53 \<Longrightarrow> percentile_rank (fl 50) n = nearest_rank 50 n"
proof -
  assume n: "n \<le> 2 ^ 53"
  have "fl 50 = 50" using fl_of_nat [of 50] by simp
  moreover have half: "fl (50 / 100) = 1 / 2" using fl_half [of 1] by simp
  have "fl (fl (50 / 100) * of_nat n) = of_nat n / 2" unfolding half using fl_half [OF n] by simp
  ultimately show ?thesis
    using fl_of_nat [OF n] by (simp only: percentile_rank_def nearest_rank_def double_of_nat_def) simp
qed

section \<open>Properties\<close>

text \<open>
  C35. Percentiles are order statistics. For a non-empty histogram (of at most \<open>2 ^ 53\<close> samples, as
  many as a \<open>double\<close> counts exactly) and any argument, the rank computed in floating point selects a
  sample inside the sorted vector; the result lies between \<open>min()\<close> and \<open>max()\<close>, grows with the
  argument, and does not depend on the order of recording; \<open>p50\<close> is the nearest-rank median.
\<close>

theorem histogram_percentiles:
  assumes "lh_samples h \<noteq> []" "length (lh_samples h) \<le> 2 ^ 53"
  shows "\<exists>v w. histogram_percentile h p = Some v \<and> histogram_percentile h q = Some w \<and>
    v \<in> set (lh_samples h) \<and> histogram_min h \<le> v \<and> v \<le> histogram_max h \<and> (p \<le> q \<longrightarrow> v \<le> w) \<and>
    (\<forall>h'. mset (lh_samples h') = mset (lh_samples h) \<longrightarrow> histogram_percentile h' p = Some v) \<and>
    histogram_p50 h = Some (sort (lh_samples h) ! (nearest_rank 50 (length (lh_samples h)) - 1))"
proof -
  let ?xs = "lh_samples h" and ?n = "length (lh_samples h)"
  have n: "0 < ?n" using assms(1) by simp
  note idx = percentile_index_less [OF n assms(2)] and pct = histogram_percentile_index [OF assms]
  have mono: "i \<le> j \<Longrightarrow> j < ?n \<Longrightarrow> sort ?xs ! i \<le> sort ?xs ! j" for i j
    by (rule sorted_nth_mono [OF sorted_sort]) simp_all
  have perm: "histogram_percentile h' p = Some (sort ?xs ! percentile_index p ?n)"
    if "mset (lh_samples h') = mset ?xs" for h' :: LatencyHistogram
  proof -
    have "sort (lh_samples h') = sort ?xs" "length (lh_samples h') = ?n"
      using that by (metis mset_sort properties_for_sort sorted_sort, metis size_mset)
    moreover have "lh_samples h' \<noteq> []" using calculation(2) n by auto
    ultimately show ?thesis using histogram_percentile_index(1) [of h' p] assms(2) by simp
  qed
  have "histogram_p50 h = Some (sort ?xs ! (nearest_rank 50 ?n - 1))"
  proof -
    have "fl 50 = 50" using fl_of_nat [of 50] by simp
    moreover have "nearest_rank 50 ?n \<noteq> 0" using n by (simp add: nearest_rank_def)
    ultimately show ?thesis
      using pct(1) [of "fl 50"] p50_rank [OF assms(2)] by (simp add: histogram_p50_def percentile_index_def)
  qed
  moreover have "sort ?xs ! percentile_index p ?n \<in> set ?xs" using idx [of p] by (metis length_sort nth_mem set_sort)
  moreover have "histogram_min h \<le> sort ?xs ! percentile_index p ?n" "sort ?xs ! percentile_index p ?n \<le> histogram_max h"
    using pct(2,3) mono [of 0 "percentile_index p ?n"] mono [of "percentile_index p ?n" "?n - 1"] idx [of p] by simp_all
  moreover have "p \<le> q \<longrightarrow> sort ?xs ! percentile_index p ?n \<le> sort ?xs ! percentile_index q ?n"
    using mono idx [of q] percentile_index_mono [OF _ n assms(2)] by blast
  ultimately show ?thesis using pct(1) perm by blast
qed

theorem histogram_percentiles_witness:
  "\<exists>v w. histogram_percentile \<lparr>lh_samples = [100, 10, 50, 20]\<rparr> 75 = Some v \<and>
     histogram_percentile \<lparr>lh_samples = [100, 10, 50, 20]\<rparr> 99 = Some w \<and> v \<le> w \<and>
     histogram_p50 \<lparr>lh_samples = [100, 10, 50, 20]\<rparr> = Some 20"
proof -
  have "nearest_rank 50 (Suc (Suc (Suc (Suc 0)))) = 2" by (simp add: nearest_rank_def)
  then show ?thesis
    using histogram_percentiles [of "\<lparr>lh_samples = [100, 10, 50, 20]\<rparr>" 75 99]
    by (auto simp: insort_key.simps)
qed

text \<open>
  C40. The rank of \<open>p999\<close> is off by one. The literal \<open>99.9\<close> and its quotient by 100 are rounded up, so
  for 1000 samples the computed rank is 1000 where the documented nearest rank is 999: \<open>p999\<close>
  reports the maximum of 1000 samples instead of the second largest.
\<close>

theorem histogram_p999_off_by_one:
  assumes "length (lh_samples h) = 1000"
  shows "histogram_p999 h = Some (histogram_max h) \<and> histogram_max h = sort (lh_samples h) ! 999 \<and>
    nearest_rank (999 / 10) 1000 - 1 = 998"
proof -
  let ?p = "7029837543348634 / 2 ^ 46 :: rat"
  have lit: "fl (999 / 10) = ?p"
    using fl_eqI [of 6 "999 / 10" 7029837543348634] by (simp add: power_int_def power_one_over)
  have quot: "fl (?p / 100) = 8998192055486252 / 2 ^ 53"
    using fl_eqI [of "- 1" "?p / 100" 8998192055486252] by (simp add: power_int_def power_one_over)
  have prod: "fl (8998192055486252 / 2 ^ 53 * 1000) = 8787296929185793 / 2 ^ 43"
    using fl_eqI [of 9 "8998192055486252 / 2 ^ 53 * 1000" 8787296929185793] by (simp add: power_int_def power_one_over)
  have thousand: "double_of_nat 1000 = 1000" using fl_of_nat [of 1000] by (simp add: double_of_nat_def)
  have "percentile_rank (fl (999 / 10)) 1000 = nat \<lceil>8787296929185793 / 2 ^ 43 :: rat\<rceil>"
    unfolding percentile_rank_def thousand lit quot prod ..
  moreover have "\<lceil>8787296929185793 / 2 ^ 43 :: rat\<rceil> = 1000" by (rule ceiling_unique) simp_all
  ultimately have rank: "percentile_rank (fl (999 / 10)) 1000 = 1000" by simp
  have ne: "lh_samples h \<noteq> []" and le: "length (lh_samples h) \<le> 2 ^ 53" using assms by auto
  have "percentile_index (fl (999 / 10)) 1000 = 999" using rank unfolding percentile_index_def lit by simp
  moreover have "nearest_rank (999 / 10) 1000 = 999" by (simp add: nearest_rank_def)
  ultimately show ?thesis
    using histogram_percentile_index [OF ne le] assms by (simp add: histogram_p999_def)
qed

theorem histogram_p999_off_by_one_witness:
  "histogram_p999 \<lparr>lh_samples = map of_nat [0..<1000]\<rparr> = Some 999 \<and>
   sort (map of_nat [0..<1000] :: u64 list) ! 998 = 998"
proof -
  let ?xs = "map of_nat [0..<1000] :: u64 list"
  have "sorted ?xs"
    by (auto simp: sorted_iff_nth_mono word_le_nat_alt unsigned_of_nat take_bit_nat_eq_self)
  then have "sort ?xs = ?xs" by (simp add: sorted_sort_id)
  then show ?thesis using histogram_p999_off_by_one [of "\<lparr>lh_samples = ?xs\<rparr>"] by simp
qed

end
