(* ===== verification/Wait_Utils.thy ===== *)
theory Wait_Utils
  imports Core_Types Latency_Histogram
begin

text \<open>
  The utilities of \<open>include/aether/utils/\<close>: the two \<open>SpinWait\<close> classes, the stopwatch, the thread
  name buffer and the CPU affinity helpers of \<open>src/utils/cpu_affinity.cpp\<close>.

  \<^item> A wait is the instruction it executes, \<open>Relax\<close> or \<open>Yield\<close>.
  \<^item> The clock is an argument: a reading is the signed count of \<open>steady_clock\<close>.
  \<^item> The platform is a value, so that all branches of the conditional compilation are there. The
    affinity interface of the system (\<open>cpu_set_t\<close> with its macros, \<open>pthread_setaffinity_np\<close>,
    \<open>hardware_concurrency\<close>) is a parameter; \<open>affinity_laws\<close> states what is documented of it.
  \<^item> Shown: the two spin waits execute the same instructions until the counter of the first one
    wraps; the stopwatch is exact; the thread name always ends in a null byte; what pinning does on
    Linux, and that elsewhere it reports success without an effect.
\<close>

section \<open>Spin waiting\<close>

datatype wait_action = Relax | Yield

text \<open>\<open>SpinWait\<close> of \<open>spin_wait.hpp\<close>.\<close>

record SpinWait =
  sw_pause_iterations :: u32
  sw_yield_after_spin :: bool
  sw_count :: u32

definition spin_wait_make :: "u32 \<Rightarrow> bool \<Rightarrow> SpinWait" where
  "spin_wait_make pause_iterations yield_after_spin =
     \<lparr>sw_pause_iterations = pause_iterations, sw_yield_after_spin = yield_after_spin, sw_count = 0\<rparr>"

definition spin_wait_default :: SpinWait where
  "spin_wait_default =
     spin_wait_make (qc_spin_pause_iterations default_QueueConfig) (qc_yield_after_spin default_QueueConfig)"

definition spin_wait_pause :: "SpinWait \<Rightarrow> wait_action \<times> SpinWait" where
  "spin_wait_pause s =
     (if sw_count s < sw_pause_iterations s \<or> \<not> sw_yield_after_spin s then Relax else Yield,
      s\<lparr>sw_count := sw_count s + 1\<rparr>)"

definition spin_wait_reset :: "SpinWait \<Rightarrow> SpinWait" where
  "spin_wait_reset s = s\<lparr>sw_count := 0\<rparr>"

text \<open>\<open>SpinWait\<close> of \<open>thread_utils.hpp\<close>.\<close>

record ThreadSpinWait =
  tw_counter :: u32
  tw_pause_iterations :: u32
  tw_yield_after_spin :: bool

definition thread_spin_make :: "u32 \<Rightarrow> bool \<Rightarrow> ThreadSpinWait" where
  "thread_spin_make pause_iterations yield_after_spin =
     \<lparr>tw_counter = 0, tw_pause_iterations = pause_iterations, tw_yield_after_spin = yield_after_spin\<rparr>"

definition thread_spin_default :: ThreadSpinWait where
  "thread_spin_default = thread_spin_make 64 True"

definition thread_spin_wait :: "ThreadSpinWait \<Rightarrow> wait_action \<times> ThreadSpinWait" where
  "thread_spin_wait s =
     (if tw_counter s < tw_pause_iterations s then (Relax, s\<lparr>tw_counter := tw_counter s + 1\<rparr>)
      else if tw_yield_after_spin s then (Yield, s)
      else (Relax, s))"

definition thread_spin_reset :: "ThreadSpinWait \<Rightarrow> ThreadSpinWait" where
  "thread_spin_reset s = s\<lparr>tw_counter := 0\<rparr>"

text \<open>The instructions of \<open>n\<close> waits in a row.\<close>

fun waits :: "('s \<Rightarrow> wait_action \<times> 's) \<Rightarrow> nat \<Rightarrow> 's \<Rightarrow> wait_action list" where
  "waits f 0 s = []"
| "waits f (Suc n) s = (case f s of (a, s) \<Rightarrow> a # waits f n s)"

section \<open>Stopwatch\<close>

definition monotonic_time_ns :: "int \<Rightarrow> u64" where
  "monotonic_time_ns now = word_of_int now"

record Stopwatch =
  start_ns :: u64

definition stopwatch_make :: "int \<Rightarrow> Stopwatch" where
  "stopwatch_make now = \<lparr>start_ns = monotonic_time_ns now\<rparr>"

definition stopwatch_reset :: "int \<Rightarrow> Stopwatch \<Rightarrow> Stopwatch" where
  "stopwatch_reset now s = s\<lparr>start_ns := monotonic_time_ns now\<rparr>"

definition elapsed_ns :: "int \<Rightarrow> Stopwatch \<Rightarrow> u64" where
  "elapsed_ns now s = monotonic_time_ns now - start_ns s"

definition elapsed_seconds :: "int \<Rightarrow> Stopwatch \<Rightarrow> rat" where
  "elapsed_seconds now s = fl (double_of_nat (unat (elapsed_ns now s)) / 1000000000)"

section \<open>Platforms and thread names\<close>

datatype platform = Linux | Macos | Unsupported

text \<open>The buffer that \<open>set_current_thread_name\<close> passes to \<open>pthread_setname_np\<close>.\<close>

definition name_buffer :: "nat \<Rightarrow> byte list \<Rightarrow> byte list" where
  "name_buffer sz name =
     (let count = (if length name < sz - 1 then length name else sz - 1)
      in take count name @ replicate (sz - count) 0)"

definition thread_name_buffer :: "platform \<Rightarrow> byte list \<Rightarrow> byte list option" where
  "thread_name_buffer p name =
     (case p of Linux \<Rightarrow> Some (name_buffer 16 name)
      | Macos \<Rightarrow> Some (name_buffer 64 name)
      | Unsupported \<Rightarrow> None)"

section \<open>CPU affinity\<close>

record ('os, 'set) affinity_api =
  hardware_concurrency :: u32
  cpu_zero :: 'set
  cpu_set :: "u32 \<Rightarrow> 'set \<Rightarrow> 'set"
  cpu_isset :: "u32 \<Rightarrow> 'set \<Rightarrow> bool"
  cpu_setsize :: nat
  setaffinity :: "'set \<Rightarrow> 'os \<Rightarrow> bool \<times> 'os"
  getaffinity :: "'os \<Rightarrow> 'set"

text \<open>\<open>CPU_ZERO\<close> empties the set, \<open>CPU_SET\<close> adds a CPU below \<open>CPU_SETSIZE\<close>; a successful
  \<open>pthread_setaffinity_np\<close> (\<open>True\<close>: it returned 0) gives the thread that set, a failed one changes
  nothing.\<close>

definition affinity_laws :: "('os, 'set) affinity_api \<Rightarrow> bool" where
  "affinity_laws api \<longleftrightarrow>
     (\<forall>c. \<not> cpu_isset api c (cpu_zero api)) \<and>
     (\<forall>c cpu cs. unat cpu < cpu_setsize api \<longrightarrow>
        cpu_isset api c (cpu_set api cpu cs) = (c = cpu \<or> cpu_isset api c cs)) \<and>
     (\<forall>cs os os'. setaffinity api cs os = (True, os') \<longrightarrow> getaffinity api os' = cs) \<and>
     (\<forall>cs os os'. setaffinity api cs os = (False, os') \<longrightarrow> os' = os)"

record CpuAffinityInfo =
  ai_supported :: bool
  ai_hardware_threads :: u32
  ai_platform :: string

definition valid_cpu_index :: "('os, 'set) affinity_api \<Rightarrow> u32 \<Rightarrow> bool" where
  "valid_cpu_index api cpu_index \<longleftrightarrow>
     (let threads = hardware_concurrency api in threads = 0 \<or> cpu_index < threads)"

definition cpu_affinity_info :: "platform \<Rightarrow> ('os, 'set) affinity_api \<Rightarrow> CpuAffinityInfo" where
  "cpu_affinity_info p api =
     (case p of
        Linux \<Rightarrow> \<lparr>ai_supported = True, ai_hardware_threads = hardware_concurrency api, ai_platform = ''linux''\<rparr>
      | Macos \<Rightarrow> \<lparr>ai_supported = False, ai_hardware_threads = hardware_concurrency api, ai_platform = ''macos''\<rparr>
      | Unsupported \<Rightarrow>
          \<lparr>ai_supported = False, ai_hardware_threads = hardware_concurrency api, ai_platform = ''unsupported''\<rparr>)"

definition cpu_affinity_supported :: "platform \<Rightarrow> ('os, 'set) affinity_api \<Rightarrow> bool" where
  "cpu_affinity_supported p api = ai_supported (cpu_affinity_info p api)"

definition apply_affinity :: "('os, 'set) affinity_api \<Rightarrow> 'set \<Rightarrow> 'os \<Rightarrow> Status \<times> 'os" where
  "apply_affinity api cs os =
     (case setaffinity api cs os of
        (True, os) \<Rightarrow> (status_ok, os)
      | (False, os) \<Rightarrow> (mk_status Io_error ''pthread_setaffinity_np failed'', os))"

definition pin_current_thread_to_cpu ::
    "platform \<Rightarrow> ('os, 'set) affinity_api \<Rightarrow> u32 \<Rightarrow> 'os \<Rightarrow> Status \<times> 'os" where
  "pin_current_thread_to_cpu p api cpu_index os =
     (if \<not> valid_cpu_index api cpu_index
      then (mk_status Invalid_argument ''cpu index exceeds hardware thread count'', os)
      else if p = Linux then apply_affinity api (cpu_set api cpu_index (cpu_zero api)) os
      else (status_ok, os))"

function set_all_cpus :: "('os, 'set) affinity_api \<Rightarrow> u32 \<Rightarrow> u32 \<Rightarrow> 'set \<Rightarrow> 'set" where
  "set_all_cpus api threads cpu cs =
     (if cpu < threads then set_all_cpus api threads (cpu + 1) (cpu_set api cpu cs) else cs)"
  by pat_completeness auto
termination
proof (relation "measure (\<lambda>(api, threads, cpu, cs). unat (threads - cpu))", goal_cases)
  case (2 api threads cpu cs)
  then have "threads - cpu \<noteq> 0" by auto
  then have "unat (threads - cpu - 1) < unat (threads - cpu)" by (simp add: unat_minus_1 unat_gt_0)
  then show ?case by (simp add: diff_diff_eq)
qed simp

declare set_all_cpus.simps [simp del]

definition clear_current_thread_affinity ::
    "platform \<Rightarrow> ('os, 'set) affinity_api \<Rightarrow> 'os \<Rightarrow> Status \<times> 'os" where
  "clear_current_thread_affinity p api os =
     (if p = Linux \<and> hardware_concurrency api \<noteq> 0
      then apply_affinity api (set_all_cpus api (hardware_concurrency api) 0 (cpu_zero api)) os
      else (status_ok, os))"

section \<open>Spin waits\<close>

lemma spin_wait_waits:
  "waits spin_wait_pause n (spin_wait_make p y\<lparr>sw_count := of_nat k\<rparr>) =
     map (\<lambda>i. if i mod 2 ^ 32 < unat p \<or> \<not> y then Relax else Yield) [k..<k + n]"
proof (induction n arbitrary: k)
  case (Suc n)
  have "spin_wait_pause (spin_wait_make p y\<lparr>sw_count := of_nat k\<rparr>) =
      (if k mod 2 ^ 32 < unat p \<or> \<not> y then Relax else Yield, spin_wait_make p y\<lparr>sw_count := of_nat (Suc k)\<rparr>)"
    by (simp add: spin_wait_pause_def spin_wait_make_def word_less_nat_alt unsigned_of_nat take_bit_eq_mod)
  then show ?case using Suc [of "Suc k"] by (simp add: upt_conv_Cons del: of_nat_Suc upt_Suc)
qed simp

lemma thread_spin_waits:
  "c \<le> unat p \<Longrightarrow> waits thread_spin_wait n (thread_spin_make p y\<lparr>tw_counter := of_nat c\<rparr>) =
     map (\<lambda>i. if i < unat p \<or> \<not> y then Relax else Yield) [c..<c + n]"
proof (induction n arbitrary: c)
  case (Suc n)
  have c: "unat (of_nat c :: u32) = c"
    using Suc.prems unat_lt2p [of p] by (simp add: unsigned_of_nat take_bit_nat_eq_self)
  have step: "thread_spin_wait (thread_spin_make p y\<lparr>tw_counter := of_nat c\<rparr>) =
      (if c < unat p \<or> \<not> y then Relax else Yield,
       thread_spin_make p y\<lparr>tw_counter := of_nat (if c < unat p then Suc c else c)\<rparr>)"
    using c by (simp add: thread_spin_wait_def thread_spin_make_def word_less_nat_alt)
  show ?case
  proof (cases "c < unat p")
    case True
    then show ?thesis using Suc.IH [of "Suc c"] step by (simp add: upt_conv_Cons del: of_nat_Suc upt_Suc)
  next
    case False
    have "map (\<lambda>i. if i < unat p \<or> \<not> y then Relax else Yield) [c..<c + n] =
        map (\<lambda>i. if i < unat p \<or> \<not> y then Relax else Yield) [Suc c..<Suc c + n]"
      using False by (intro nth_equalityI) (simp_all del: upt_Suc)
    then show ?thesis using Suc.IH [OF Suc.prems] step False by (simp add: upt_conv_Cons del: upt_Suc)
  qed
qed simp

lemma fresh_counts:
  "spin_wait_make p y\<lparr>sw_count := of_nat 0\<rparr> = spin_wait_make p y"
  "thread_spin_make p y\<lparr>tw_counter := of_nat 0\<rparr> = thread_spin_make p y"
  by (simp_all add: spin_wait_make_def thread_spin_make_def)

text \<open>
  The two \<open>SpinWait\<close> classes. \<open>spin_wait.hpp\<close> and \<open>thread_utils.hpp\<close> each define a class of
  this name. Constructed with the same arguments, their first \<open>n\<close> waits execute the same
  instructions exactly if \<open>n\<close> is at most \<open>2 ^ 32\<close> or the arguments leave only one kind of wait:
  the counter of the first class wraps, and after \<open>2 ^ 32\<close> waits it spins again instead of yielding.
\<close>

theorem spin_waits_agree:
  "waits spin_wait_pause n (spin_wait_make p y) = waits thread_spin_wait n (thread_spin_make p y) \<longleftrightarrow>
     n \<le> 2 ^ 32 \<or> p = 0 \<or> \<not> y"
proof -
  note w = spin_wait_waits [where k = 0 and n = n and p = p and y = y, unfolded fresh_counts]
    thread_spin_waits [where c = 0 and n = n and p = p and y = y, unfolded fresh_counts, OF le0]
  show ?thesis
  proof (cases "p = 0 \<or> \<not> y")
    case True
    then show ?thesis unfolding w by auto
  next
    case False
    then have p: "0 < unat p" "unat p < 2 ^ 32" "y" using unat_lt2p [of p] by (auto simp: unat_gt_0)
    have act: "(if a then Relax else Yield) = (if b then Relax else Yield) \<longleftrightarrow> a = b" for a b
      by (cases a; cases b) simp_all
    have "waits spin_wait_pause n (spin_wait_make p y) = waits thread_spin_wait n (thread_spin_make p y) \<longleftrightarrow>
        (\<forall>i < n. (i mod 2 ^ 32 < unat p) = (i < unat p))"
      unfolding w map_eq_conv by (simp add: p(3) act Ball_def)
    also have "\<dots> \<longleftrightarrow> n \<le> 2 ^ 32"
    proof
      assume all: "\<forall>i < n. (i mod 2 ^ 32 < unat p) = (i < unat p)"
      show "n \<le> 2 ^ 32"
      proof (rule ccontr)
        assume "\<not> n \<le> 2 ^ 32"
        then have "2 ^ 32 < n" by simp
        from all [rule_format, OF this] show False using p(1,2) by simp
      qed
    qed simp
    finally show ?thesis using False by simp
  qed
qed

theorem spin_waits_agree_witness:
  "waits spin_wait_pause 3 (spin_wait_make 2 True) = waits thread_spin_wait 3 (thread_spin_make 2 True) \<and>
   waits spin_wait_pause (2 ^ 32 + 1) (spin_wait_make 2 True) \<noteq>
     waits thread_spin_wait (2 ^ 32 + 1) (thread_spin_make 2 True)"
proof -
  have "(3 :: nat) \<le> 2 ^ 32" "\<not> 2 ^ 32 + 1 \<le> (2 ^ 32 :: nat)" "(2 :: u32) \<noteq> 0" by simp_all
  then show ?thesis
    using spin_waits_agree [of 3 2 True] spin_waits_agree [of "2 ^ 32 + 1" 2 True] by blast
qed

section \<open>Stopwatch and thread names\<close>

lemma stopwatch_exact:
  assumes "start \<le> now" "now - start < 2 ^ 64"
  shows "int (unat (elapsed_ns now (stopwatch_make start))) = now - start"
proof -
  have "elapsed_ns now (stopwatch_make start) = word_of_int (now - start)"
    by (simp add: elapsed_ns_def stopwatch_make_def monotonic_time_ns_def)
  then show ?thesis using assms by (simp add: unsigned_of_int take_bit_int_eq_self del: of_int_diff)
qed

lemma name_buffer_terminated:
  assumes "0 < sz"
  shows "length (name_buffer sz name) = sz" "last (name_buffer sz name) = 0"
    "takeWhile (\<lambda>b. b \<noteq> 0) (name_buffer sz name) = take (sz - 1) (takeWhile (\<lambda>b. b \<noteq> 0) name)"
proof -
  define k where "k = sz - 1 - min (length name) (sz - 1)"
  have nb: "name_buffer sz name = take (sz - 1) name @ replicate (Suc k) 0"
  proof -
    have "sz - min (length name) (sz - 1) = Suc k" using assms by (simp add: k_def min_def) linarith
    moreover have "(if length name < sz - 1 then length name else sz - 1) = min (length name) (sz - 1)" by simp
    moreover have "take (min (length name) (sz - 1)) name = take (sz - 1) name" by (simp add: min_def)
    ultimately show ?thesis by (simp add: name_buffer_def Let_def)
  qed
  show "length (name_buffer sz name) = sz" using assms by (simp add: nb k_def)
  show "last (name_buffer sz name) = 0" by (simp add: nb)
  have "takeWhile (\<lambda>b. b \<noteq> 0) (xs @ replicate (Suc k) 0) = takeWhile (\<lambda>b. b \<noteq> 0) xs" for xs :: "byte list"
    by (induction xs) auto
  moreover have "takeWhile P (take n xs) = take n (takeWhile P xs)" for P n and xs :: "byte list"
    by (induction xs arbitrary: n) (auto simp: take_Cons split: nat.split)
  ultimately show "takeWhile (\<lambda>b. b \<noteq> 0) (name_buffer sz name) = take (sz - 1) (takeWhile (\<lambda>b. b \<noteq> 0) name)"
    by (simp add: nb)
qed

section \<open>Affinity\<close>

lemma set_all_cpus_isset:
  assumes "affinity_laws api" "unat threads \<le> cpu_setsize api" "k \<le> unat threads"
  shows "cpu_isset api c (set_all_cpus api threads (of_nat k) cs) \<longleftrightarrow>
    k \<le> unat c \<and> c < threads \<or> cpu_isset api c cs"
  using assms(3)
proof (induction "unat threads - k" arbitrary: k cs)
  case 0
  then have "(of_nat k :: u32) = of_nat (unat threads)" by simp
  then have "(of_nat k :: u32) = threads" by simp
  then show ?case using 0 by (auto simp: set_all_cpus.simps [of _ _ threads] word_less_nat_alt)
next
  case (Suc d)
  have k: "unat (of_nat k :: u32) = k" "(of_nat k :: u32) < threads"
    using Suc.hyps(2) unat_lt2p [of threads] by (auto simp: word_less_nat_alt unsigned_of_nat take_bit_nat_eq_self)
  have add: "cpu_isset api c (cpu_set api (of_nat k) cs) \<longleftrightarrow> c = of_nat k \<or> cpu_isset api c cs"
    using assms(1,2) k Suc.hyps(2) by (simp add: affinity_laws_def)
  have "cpu_isset api c (set_all_cpus api threads (of_nat k) cs) \<longleftrightarrow>
      Suc k \<le> unat c \<and> c < threads \<or> cpu_isset api c (cpu_set api (of_nat k) cs)"
    using Suc.hyps(1) [of "Suc k" "cpu_set api (of_nat k) cs"] Suc.hyps(2) k(2)
    by (simp add: set_all_cpus.simps [of _ _ "of_nat k"] add.commute)
  moreover have "c = of_nat k \<longleftrightarrow> unat c = k" using k(1) by (metis unat_eq_nat_uint word_eq_iff_unsigned)
  ultimately show ?case using add k by auto
qed


lemma apply_affinity_cases:
  assumes "affinity_laws api" "apply_affinity api cs os = (st, os')"
  shows "if is_ok st then getaffinity api os' = cs else st_code st = Io_error \<and> os' = os"
  using assms
  by (auto simp: apply_affinity_def affinity_laws_def mk_status_def is_ok_def status_ok_def
      split: prod.splits bool.splits)

text \<open>
  Affinity on Linux. Pinning refuses an index outside the hardware threads with
  \<open>invalid_argument\<close>, and otherwise either leaves the thread on exactly that CPU or reports an I/O
  error and changes nothing. Clearing leaves the thread on exactly the hardware threads (all of them),
  or reports an I/O error and changes nothing; it does nothing when their number is unknown.
\<close>

theorem affinity_linux:
  assumes "affinity_laws api" "unat (hardware_concurrency api) \<le> cpu_setsize api"
    and pin: "pin_current_thread_to_cpu Linux api cpu os = (st, os')" "unat cpu < cpu_setsize api"
    and clear: "clear_current_thread_affinity Linux api os = (st2, os2)"
  shows "(if hardware_concurrency api \<noteq> 0 \<and> cpu \<ge> hardware_concurrency api
      then st_code st = Invalid_argument \<and> os' = os
      else if is_ok st then \<forall>c. cpu_isset api c (getaffinity api os') \<longleftrightarrow> c = cpu
      else st_code st = Io_error \<and> os' = os) \<and>
    (if hardware_concurrency api = 0 then is_ok st2 \<and> os2 = os
      else if is_ok st2 then \<forall>c. cpu_isset api c (getaffinity api os2) \<longleftrightarrow> c < hardware_concurrency api
      else st_code st2 = Io_error \<and> os2 = os)"
proof (intro conjI)
  have empty: "\<not> cpu_isset api c (cpu_zero api)" for c using assms(1) by (simp add: affinity_laws_def)
  have one: "cpu_isset api c (cpu_set api cpu (cpu_zero api)) \<longleftrightarrow> c = cpu" for c
    using assms(1) pin(2) empty by (simp add: affinity_laws_def)
  show "if hardware_concurrency api \<noteq> 0 \<and> cpu \<ge> hardware_concurrency api
      then st_code st = Invalid_argument \<and> os' = os
      else if is_ok st then \<forall>c. cpu_isset api c (getaffinity api os') \<longleftrightarrow> c = cpu
      else st_code st = Io_error \<and> os' = os"
  proof (cases "valid_cpu_index api cpu")
    case True
    then have "apply_affinity api (cpu_set api cpu (cpu_zero api)) os = (st, os')"
      using pin(1) by (simp add: pin_current_thread_to_cpu_def)
    from apply_affinity_cases [OF assms(1) this] show ?thesis
      using True by (auto simp: one valid_cpu_index_def Let_def not_le split: if_splits)
  next
    case False
    then show ?thesis
      using pin(1) by (simp add: pin_current_thread_to_cpu_def valid_cpu_index_def Let_def mk_status_def not_less) auto
  qed
  have all: "cpu_isset api c (set_all_cpus api (hardware_concurrency api) 0 (cpu_zero api)) \<longleftrightarrow>
      c < hardware_concurrency api" for c
    using set_all_cpus_isset [OF assms(1,2), of 0] empty by simp
  show "if hardware_concurrency api = 0 then is_ok st2 \<and> os2 = os
      else if is_ok st2 then \<forall>c. cpu_isset api c (getaffinity api os2) \<longleftrightarrow> c < hardware_concurrency api
      else st_code st2 = Io_error \<and> os2 = os"
  proof (cases "hardware_concurrency api = 0")
    case True
    then show ?thesis using clear by (auto simp: clear_current_thread_affinity_def)
  next
    case False
    then have "apply_affinity api (set_all_cpus api (hardware_concurrency api) 0 (cpu_zero api)) os = (st2, os2)"
      using clear by (simp add: clear_current_thread_affinity_def)
    from apply_affinity_cases [OF assms(1) this] show ?thesis using False by (simp add: all split: if_splits)
  qed
qed

definition sample_api :: "(u32 list, u32 list) affinity_api" where
  "sample_api = \<lparr>hardware_concurrency = 4, cpu_zero = [], cpu_set = (\<lambda>cpu cs. cpu # cs),
     cpu_isset = (\<lambda>c cs. c \<in> set cs), cpu_setsize = 1024,
     setaffinity = (\<lambda>cs os. if cs = [] then (False, os) else (True, cs)), getaffinity = (\<lambda>os. os)\<rparr>"

theorem affinity_linux_witness:
  "pin_current_thread_to_cpu Linux sample_api 2 [0] = (status_ok, [2]) \<and>
   (\<forall>c. cpu_isset sample_api c (getaffinity sample_api [2]) \<longleftrightarrow> c = 2)"
proof -
  have laws: "affinity_laws sample_api" by (auto simp: affinity_laws_def sample_api_def split: if_splits)
  have pin: "pin_current_thread_to_cpu Linux sample_api 2 [0] = (status_ok, [2])"
    by (simp add: pin_current_thread_to_cpu_def valid_cpu_index_def sample_api_def apply_affinity_def)
  obtain st2 os2 where clear: "clear_current_thread_affinity Linux sample_api [0] = (st2, os2)"
    by (meson surj_pair)
  have "\<not> (hardware_concurrency sample_api \<noteq> 0 \<and> 2 \<ge> hardware_concurrency sample_api)"
    "unat (hardware_concurrency sample_api) \<le> cpu_setsize sample_api" "unat (2 :: u32) < cpu_setsize sample_api"
    by (simp_all add: sample_api_def)
  then show ?thesis using affinity_linux [OF laws _ pin _ clear] pin by simp
qed

text \<open>
  Pinning where affinity is not supported. On every other platform \<open>cpu_affinity_supported()\<close> is
  false, and yet pinning to a valid index reports success while the thread keeps the affinity it had.
\<close>

theorem affinity_pretends_elsewhere:
  assumes "p \<noteq> Linux" "hardware_concurrency api = 0 \<or> cpu < hardware_concurrency api"
  shows "\<not> cpu_affinity_supported p api \<and> pin_current_thread_to_cpu p api cpu os = (status_ok, os)"
  using assms
  by (cases p) (auto simp: cpu_affinity_supported_def cpu_affinity_info_def
      pin_current_thread_to_cpu_def valid_cpu_index_def)

theorem affinity_pretends_elsewhere_witness:
  "\<not> cpu_affinity_supported Macos sample_api \<and> pin_current_thread_to_cpu Macos sample_api 2 [0] = (status_ok, [0])"
  by (rule affinity_pretends_elsewhere) (simp_all add: sample_api_def)

end
