(* ===== verification/Cli_Args.thy ===== *)
theory Cli_Args
  imports Core_Types
begin

text \<open>
  The command line parsers of \<open>src/cli/args.cpp\<close> with the option records of
  \<open>include/aether/cli/args.hpp\<close>.

  \<^item> An argument is a string; \<open>args\<close> includes the program name at index 0. A path is its string.
  \<^item> \<open>std::from_chars\<close> for an unsigned 64-bit value is modelled from its standard: it takes the
    longest prefix of digits, fails with \<open>invalid_argument\<close> when there is none and with
    \<open>result_out_of_range\<close> when the value does not fit, and returns what it did not read.
  \<^item> Each loop body is one definition; it returns the updated options and by how much
    \<open>ArgCursor::value\<close> has incremented the index it takes by reference.
  \<^item> Shown: numbers are read exactly; accepted options are in the supported sets and every refusal
    is \<open>invalid_argument\<close>; printing options as a command line and parsing them is the identity, for
    both spellings of an option with a value.
\<close>

section \<open>Numbers\<close>

definition supported_capacities :: "size_t list" where
  "supported_capacities = [64, 256, 1024, 4096, 65536]"

definition supported_payload_sizes :: "size_t list" where
  "supported_payload_sizes = [8, 32, 64, 256, 1024]"

definition invalid :: "string \<Rightarrow> Status" where
  "invalid detail = mk_status Invalid_argument detail"

definition is_supported :: "size_t \<Rightarrow> size_t list \<Rightarrow> bool" where
  "is_supported value supported \<longleftrightarrow> value \<in> set supported"

datatype errc = Errc_none | Errc_invalid_argument | Errc_result_out_of_range

definition is_digit :: "char \<Rightarrow> bool" where
  "is_digit c \<longleftrightarrow> 48 \<le> (of_char c :: nat) \<and> (of_char c :: nat) \<le> 57"

definition digit_value :: "char \<Rightarrow> nat" where
  "digit_value c = of_char c - 48"

definition decimal_value :: "string \<Rightarrow> nat" where
  "decimal_value ds = foldl (\<lambda>acc c. 10 * acc + digit_value c) 0 ds"

text \<open>\<open>std::from_chars(begin, end, value)\<close>: the error code, the unread text and the value.\<close>

definition from_chars_u64 :: "string \<Rightarrow> errc \<times> string \<times> u64" where
  "from_chars_u64 text =
     (let ds = takeWhile is_digit text; rest = dropWhile is_digit text in
      if ds = [] then (Errc_invalid_argument, text, 0)
      else if 2 ^ 64 \<le> decimal_value ds then (Errc_result_out_of_range, rest, 0)
      else (Errc_none, rest, of_nat (decimal_value ds)))"

definition parse_u64 :: "string \<Rightarrow> u64 Expected" where
  "parse_u64 text =
     (if text = [] \<or> hd text = CHR ''-''
      then expected_error (invalid ''expected a non-negative unsigned integer'')
      else case from_chars_u64 text of (ec, ptr, value) \<Rightarrow>
        if ec \<noteq> Errc_none \<or> ptr \<noteq> [] then expected_error (invalid ''invalid unsigned integer'')
        else Expected_value value)"

text \<open>\<open>if (!x) return x.status();\<close> and otherwise go on with the value.\<close>

definition expected_bind :: "'a Expected \<Rightarrow> ('a \<Rightarrow> 'b Expected) \<Rightarrow> 'b Expected" where
  "expected_bind x f = (case x of Expected_status s \<Rightarrow> expected_error s | Expected_value v \<Rightarrow> f v)"

definition parse_size :: "string \<Rightarrow> size_t Expected" where
  "parse_size text =
     expected_bind (parse_u64 text) (\<lambda>n.
       if unat n > 2 ^ 64 - 1 then expected_error (invalid ''value is too large for size_t'')
       else Expected_value n)"

section \<open>ArgCursor\<close>

text \<open>\<open>ArgCursor::value\<close>: the increment of \<open>index\<close> and the value.\<close>

definition arg_value :: "string list \<Rightarrow> nat \<Rightarrow> nat \<times> string Expected" where
  "arg_value args index =
     (let current = args ! index in
      if CHR ''='' \<in> set current then
        let out = tl (dropWhile (\<lambda>c. c \<noteq> CHR ''='') current) in
        if out = [] then (0, expected_error (invalid ''missing option value''))
        else (0, Expected_value out)
      else if index + 1 \<ge> length args then (0, expected_error (invalid ''missing option value''))
      else
        let out = args ! (index + 1) in
        if out = [] \<or> hd out = CHR ''-'' then (1, expected_error (invalid ''missing option value''))
        else (1, Expected_value out))"

definition matches :: "string \<Rightarrow> string \<Rightarrow> bool" where
  "matches arg option \<longleftrightarrow> arg = option \<or> take (length option + 1) arg = option @ ''=''"

text \<open>The bodies of the options with a value: fetch the value, convert it, update the options.\<close>

definition option_text :: "string list \<Rightarrow> nat \<Rightarrow> (string \<Rightarrow> 'o) \<Rightarrow> (nat \<times> 'o) Expected" where
  "option_text args i upd =
     (case arg_value args i of (adv, v) \<Rightarrow> expected_bind v (\<lambda>text. Expected_value (adv, upd text)))"

definition option_u64 :: "string list \<Rightarrow> nat \<Rightarrow> (u64 \<Rightarrow> 'o) \<Rightarrow> (nat \<times> 'o) Expected" where
  "option_u64 args i upd =
     (case arg_value args i of (adv, v) \<Rightarrow>
        expected_bind v (\<lambda>text. expected_bind (parse_u64 text) (\<lambda>n. Expected_value (adv, upd n))))"

definition option_size :: "string list \<Rightarrow> nat \<Rightarrow> (size_t \<Rightarrow> 'o) \<Rightarrow> (nat \<times> 'o) Expected" where
  "option_size args i upd =
     (case arg_value args i of (adv, v) \<Rightarrow>
        expected_bind v (\<lambda>text. expected_bind (parse_size text) (\<lambda>n. Expected_value (adv, upd n))))"

definition option_supported ::
    "string list \<Rightarrow> nat \<Rightarrow> size_t list \<Rightarrow> string \<Rightarrow> (size_t \<Rightarrow> 'o) \<Rightarrow> (nat \<times> 'o) Expected" where
  "option_supported args i supported detail upd =
     (case arg_value args i of (adv, v) \<Rightarrow>
        expected_bind v (\<lambda>text. expected_bind (parse_size text) (\<lambda>n.
          if \<not> is_supported n supported then expected_error (invalid detail)
          else Expected_value (adv, upd n))))"

text \<open>The loop \<open>for (i = 1; i < cursor.size(); ++i)\<close> around a body.\<close>

function parse_loop ::
    "(string list \<Rightarrow> nat \<Rightarrow> 'o \<Rightarrow> (nat \<times> 'o) Expected) \<Rightarrow> string list \<Rightarrow> nat \<Rightarrow> 'o \<Rightarrow> 'o Expected" where
  "parse_loop body args i options =
     (if i < length args then
        case body args i options of
          Expected_status s \<Rightarrow> expected_error s
        | Expected_value (adv, options) \<Rightarrow> parse_loop body args (i + adv + 1) options
      else Expected_value options)"
  by pat_completeness auto
termination
  by (relation "measure (\<lambda>(body, args, i, options). length args - i)") auto

declare parse_loop.simps [simp del]

definition is_help :: "string \<Rightarrow> bool" where
  "is_help arg \<longleftrightarrow> arg = ''--help'' \<or> arg = ''-h''"

section \<open>The five parsers\<close>

record BenchOptions =
  bo_help :: bool
  bo_messages :: u64
  bo_payload_size :: size_t
  bo_capacity :: size_t
  bo_output_dir :: path

definition default_BenchOptions :: BenchOptions where
  "default_BenchOptions = \<lparr>bo_help = False, bo_messages = 1000000, bo_payload_size = 64,
     bo_capacity = 65536, bo_output_dir = ''benchmark-results''\<rparr>"

definition bench_body :: "string list \<Rightarrow> nat \<Rightarrow> BenchOptions \<Rightarrow> (nat \<times> BenchOptions) Expected" where
  "bench_body args i options =
     (let arg = args ! i in
      if is_help arg then Expected_value (0, options\<lparr>bo_help := True\<rparr>)
      else if matches arg ''--messages'' then option_u64 args i (\<lambda>n. options\<lparr>bo_messages := n\<rparr>)
      else if matches arg ''--payload-size'' then
        option_supported args i supported_payload_sizes ''unsupported payload size''
          (\<lambda>n. options\<lparr>bo_payload_size := n\<rparr>)
      else if matches arg ''--capacity'' then
        option_supported args i supported_capacities ''unsupported capacity''
          (\<lambda>n. options\<lparr>bo_capacity := n\<rparr>)
      else if matches arg ''--output-dir'' then option_text args i (\<lambda>v. options\<lparr>bo_output_dir := v\<rparr>)
      else expected_error (invalid ''unknown option''))"

definition parse_bench_args :: "string list \<Rightarrow> BenchOptions Expected" where
  "parse_bench_args args = parse_loop bench_body args 1 default_BenchOptions"

record PubOptions =
  po_help :: bool
  po_wal_path :: path
  po_messages :: u64
  po_wal_size_bytes :: u64
  po_flush_on_commit :: bool

definition default_PubOptions :: PubOptions where
  "default_PubOptions = \<lparr>po_help = False, po_wal_path = ''data/sample.wal'', po_messages = 1000,
     po_wal_size_bytes = 64 * 1024 * 1024, po_flush_on_commit = False\<rparr>"

definition pub_body :: "string list \<Rightarrow> nat \<Rightarrow> PubOptions \<Rightarrow> (nat \<times> PubOptions) Expected" where
  "pub_body args i options =
     (let arg = args ! i in
      if is_help arg then Expected_value (0, options\<lparr>po_help := True\<rparr>)
      else if arg = ''--flush-on-commit'' then Expected_value (0, options\<lparr>po_flush_on_commit := True\<rparr>)
      else if matches arg ''--wal'' then option_text args i (\<lambda>v. options\<lparr>po_wal_path := v\<rparr>)
      else if matches arg ''--messages'' then option_u64 args i (\<lambda>n. options\<lparr>po_messages := n\<rparr>)
      else if matches arg ''--wal-size'' then option_u64 args i (\<lambda>n. options\<lparr>po_wal_size_bytes := n\<rparr>)
      else expected_error (invalid ''unknown option''))"

definition parse_pub_args :: "string list \<Rightarrow> PubOptions Expected" where
  "parse_pub_args args = parse_loop pub_body args 1 default_PubOptions"

record SubOptions =
  so_help :: bool
  so_wal_path :: path
  so_messages :: u64
  so_limit :: u64
  so_capacity :: size_t

definition default_SubOptions :: SubOptions where
  "default_SubOptions = \<lparr>so_help = False, so_wal_path = [], so_messages = 10, so_limit = 10,
     so_capacity = 1024\<rparr>"

definition sub_body :: "string list \<Rightarrow> nat \<Rightarrow> SubOptions \<Rightarrow> (nat \<times> SubOptions) Expected" where
  "sub_body args i options =
     (let arg = args ! i in
      if is_help arg then Expected_value (0, options\<lparr>so_help := True\<rparr>)
      else if matches arg ''--wal'' then option_text args i (\<lambda>v. options\<lparr>so_wal_path := v\<rparr>)
      else if matches arg ''--messages'' then option_u64 args i (\<lambda>n. options\<lparr>so_messages := n\<rparr>)
      else if matches arg ''--limit'' then option_u64 args i (\<lambda>n. options\<lparr>so_limit := n\<rparr>)
      else if matches arg ''--capacity'' then
        option_supported args i supported_capacities ''unsupported capacity''
          (\<lambda>n. options\<lparr>so_capacity := n\<rparr>)
      else expected_error (invalid ''unknown option''))"

definition parse_sub_args :: "string list \<Rightarrow> SubOptions Expected" where
  "parse_sub_args args = parse_loop sub_body args 1 default_SubOptions"

record ReplayOptions =
  ro_help :: bool
  ro_wal_path :: path
  ro_limit :: u64
  ro_payload_preview_bytes :: size_t

definition default_ReplayOptions :: ReplayOptions where
  "default_ReplayOptions = \<lparr>ro_help = False, ro_wal_path = ''data/sample.wal'', ro_limit = 0,
     ro_payload_preview_bytes = 32\<rparr>"

definition replay_body :: "string list \<Rightarrow> nat \<Rightarrow> ReplayOptions \<Rightarrow> (nat \<times> ReplayOptions) Expected" where
  "replay_body args i options =
     (let arg = args ! i in
      if is_help arg then Expected_value (0, options\<lparr>ro_help := True\<rparr>)
      else if matches arg ''--wal'' then option_text args i (\<lambda>v. options\<lparr>ro_wal_path := v\<rparr>)
      else if matches arg ''--limit'' then option_u64 args i (\<lambda>n. options\<lparr>ro_limit := n\<rparr>)
      else if matches arg ''--payload-preview-bytes'' then
        option_size args i (\<lambda>n. options\<lparr>ro_payload_preview_bytes := n\<rparr>)
      else expected_error (invalid ''unknown option''))"

definition parse_replay_args :: "string list \<Rightarrow> ReplayOptions Expected" where
  "parse_replay_args args = parse_loop replay_body args 1 default_ReplayOptions"

record InspectWalOptions =
  io_help :: bool
  io_wal_path :: path
  io_limit :: u64
  io_verbose :: bool

definition default_InspectWalOptions :: InspectWalOptions where
  "default_InspectWalOptions = \<lparr>io_help = False, io_wal_path = ''data/sample.wal'', io_limit = 0,
     io_verbose = False\<rparr>"

definition inspect_wal_body ::
    "string list \<Rightarrow> nat \<Rightarrow> InspectWalOptions \<Rightarrow> (nat \<times> InspectWalOptions) Expected" where
  "inspect_wal_body args i options =
     (let arg = args ! i in
      if is_help arg then Expected_value (0, options\<lparr>io_help := True\<rparr>)
      else if arg = ''--verbose'' then Expected_value (0, options\<lparr>io_verbose := True\<rparr>)
      else if matches arg ''--wal'' then option_text args i (\<lambda>v. options\<lparr>io_wal_path := v\<rparr>)
      else if matches arg ''--limit'' then option_u64 args i (\<lambda>n. options\<lparr>io_limit := n\<rparr>)
      else expected_error (invalid ''unknown option''))"

definition parse_inspect_wal_args :: "string list \<Rightarrow> InspectWalOptions Expected" where
  "parse_inspect_wal_args args = parse_loop inspect_wal_body args 1 default_InspectWalOptions"

section \<open>Reading and printing numbers\<close>

definition digit_char :: "nat \<Rightarrow> char" where
  "digit_char d = char_of (48 + d)"

fun decimal :: "nat \<Rightarrow> string" where
  "decimal n = (if n < 10 then [digit_char n] else decimal (n div 10) @ [digit_char (n mod 10)])"

declare decimal.simps [simp del]

lemma digit_char_digit [simp]:
  assumes "d < 10"
  shows "is_digit (digit_char d)" "digit_value (digit_char d) = d"
  using assms by (simp_all add: is_digit_def digit_char_def digit_value_def)

lemma digit_char_value: "is_digit c \<Longrightarrow> digit_char (digit_value c) = c"
  by (simp add: is_digit_def digit_char_def digit_value_def)

lemma digit_value_less: "is_digit c \<Longrightarrow> digit_value c < 10"
  unfolding is_digit_def digit_value_def by linarith

lemma digit_char_0: "digit_char 0 = CHR ''0''"
  using digit_char_value [of "CHR ''0''"] by (simp add: is_digit_def digit_value_def)

lemma decimal_value_snoc [simp]: "decimal_value (ds @ [c]) = 10 * decimal_value ds + digit_value c"
  by (simp add: decimal_value_def)

lemma decimal_value_Nil [simp]: "decimal_value [] = 0"
  by (simp add: decimal_value_def)

lemma decimal_digits: "\<forall>c \<in> set (decimal n). is_digit c"
  by (induction n rule: decimal.induct) (subst decimal.simps, auto)

lemma decimal_nonempty [simp]: "decimal n \<noteq> []"
  by (subst decimal.simps) simp

lemma decimal_value_decimal [simp]: "decimal_value (decimal n) = n"
proof (induction n rule: decimal.induct)
  case (1 n)
  then show ?case
    using decimal_value_snoc [of "[]" "digit_char n"] by (subst decimal.simps) simp
qed

lemma decimal_snoc: "0 < v \<Longrightarrow> is_digit c \<Longrightarrow> decimal (10 * v + digit_value c) = decimal v @ [c]"
  using digit_value_less [of c] digit_char_value [of c] by (subst decimal.simps) auto

lemma decimal_value_zeros [simp]: "decimal_value (replicate k (CHR ''0'') @ ds) = decimal_value ds"
  by (induction k) (simp_all add: decimal_value_def digit_value_def)

lemma decimal_unique:
  assumes "ds \<noteq> []" "\<forall>c \<in> set ds. is_digit c"
  shows "\<exists>k. ds = replicate k (CHR ''0'') @ decimal (decimal_value ds)"
  using assms
proof (induction ds rule: rev_induct)
  case (snoc c ds)
  have c: "is_digit c" using snoc.prems by simp
  have one: "decimal (digit_value c) = [c]"
    using digit_value_less [OF c] digit_char_value [OF c] by (subst decimal.simps) simp
  show ?case
  proof (cases "ds = []")
    case True
    then show ?thesis using one by (intro exI [of _ 0]) (simp add: decimal_value_def)
  next
    case False
    then obtain k where k: "ds = replicate k (CHR ''0'') @ decimal (decimal_value ds)"
      using snoc by auto
    show ?thesis
    proof (cases "decimal_value ds = 0")
      case True
      then have "decimal (decimal_value ds) = ''0''" by (subst decimal.simps) (simp add: digit_char_0)
      then have "ds = replicate (Suc k) (CHR ''0'')" using k by (simp add: replicate_append_same)
      moreover have "decimal_value (ds @ [c]) = digit_value c" using True by simp
      ultimately show ?thesis using one by metis
    next
      case False
      then show ?thesis using k decimal_snoc [OF _ c, of "decimal_value ds"] by (metis append.assoc
        decimal_value_snoc neq0_conv)
    qed
  qed
qed simp

lemma parse_u64_iff:
  "parse_u64 text = Expected_value n \<longleftrightarrow>
     text \<noteq> [] \<and> (\<forall>c \<in> set text. is_digit c) \<and> decimal_value text = unat n"
proof (cases "\<forall>c \<in> set text. is_digit c")
  case True
  then have scan: "takeWhile is_digit text = text" "dropWhile is_digit text = []"
    by (simp_all add: dropWhile_eq_Nil_conv)
  moreover have "text \<noteq> [] \<Longrightarrow> hd text \<noteq> CHR ''-''" using True by (cases "text") (auto simp: is_digit_def)
  moreover have "v < 2 ^ 64 \<Longrightarrow> (of_nat v = n) = (v = unat n)" for v
    by (auto simp: unsigned_of_nat take_bit_nat_eq_self)
  moreover have "\<not> 2 ^ 64 \<le> unat n" using unat_lt2p [of n] by simp
  ultimately show ?thesis
    using True unfolding parse_u64_def from_chars_u64_def scan Let_def by (auto simp: not_le)
next
  case False
  then have "dropWhile is_digit text \<noteq> []" by (simp add: dropWhile_eq_Nil_conv)
  then show ?thesis using False by (auto simp: parse_u64_def from_chars_u64_def Let_def)
qed

section \<open>The loop\<close>

lemma parse_loop_step:
  "i < length args \<Longrightarrow> body args i options = Expected_value (adv, options') \<Longrightarrow>
   parse_loop body args i options = parse_loop body args (i + adv + 1) options'"
  by (subst parse_loop.simps) simp

lemma parse_loop_done: "length args \<le> i \<Longrightarrow> parse_loop body args i options = Expected_value options"
  by (subst parse_loop.simps) simp

lemma parse_loop_inv:
  assumes step: "\<And>i options adv options'. P options \<Longrightarrow> body args i options = Expected_value (adv, options') \<Longrightarrow> P options'"
  shows "P options \<Longrightarrow> parse_loop body args i options = Expected_value result \<Longrightarrow> P result"
proof (induction "length args - i" arbitrary: i options rule: less_induct)
  case less
  show ?case
  proof (cases "i < length args")
    case True
    then obtain adv options' where b: "body args i options = Expected_value (adv, options')"
        "parse_loop body args (i + adv + 1) options' = Expected_value result"
      using less.prems(2) by (subst (asm) parse_loop.simps) (auto split: Expected.splits)
    then show ?thesis using less.hyps [of "i + adv + 1" options'] step [OF less.prems(1) b(1)] True by simp
  next
    case False
    then show ?thesis using less.prems by (simp add: parse_loop_done)
  qed
qed

definition refuses_invalid :: "'a Expected \<Rightarrow> bool" where
  "refuses_invalid x \<longleftrightarrow> (\<forall>s. x = Expected_status s \<longrightarrow> st_code s = Invalid_argument)"

lemma refuses_invalid_simps [simp]:
  "refuses_invalid (Expected_value v)" "refuses_invalid (expected_error (invalid d))"
  by (simp_all add: refuses_invalid_def expected_error_def invalid_def)

lemma refuses_invalid_bind [intro]:
  "refuses_invalid x \<Longrightarrow> (\<And>v. refuses_invalid (f v)) \<Longrightarrow> refuses_invalid (expected_bind x f)"
  by (cases x) (auto simp: refuses_invalid_def expected_bind_def expected_error_def
      normalize_expected_error_def is_ok_def)

lemma refuses_invalid_parse [simp]: "refuses_invalid (parse_u64 t)" "refuses_invalid (parse_size t)"
proof -
  show u64: "refuses_invalid (parse_u64 t)" by (simp add: parse_u64_def split: prod.splits)
  show "refuses_invalid (parse_size t)" unfolding parse_size_def by (rule refuses_invalid_bind [OF u64]) simp
qed

lemma refuses_invalid_value: "refuses_invalid (snd (arg_value args i))"
  by (simp add: arg_value_def Let_def)

lemma refuses_invalid_options [simp]:
  "refuses_invalid (option_text args i u)" "refuses_invalid (option_u64 args i f)"
  "refuses_invalid (option_size args i g)" "refuses_invalid (option_supported args i vals d g)"
  using refuses_invalid_value [of args i]
  by (auto simp: option_text_def option_u64_def option_size_def option_supported_def split: prod.splits
      intro!: refuses_invalid_bind)

lemma refuses_invalid_loop:
  assumes body: "\<And>i options. refuses_invalid (body args i options)"
  shows "refuses_invalid (parse_loop body args i options)"
proof (induction "length args - i" arbitrary: i options rule: less_induct)
  case less
  show ?case
  proof (cases "i < length args")
    case True
    show ?thesis
    proof (cases "body args i options")
      case (Expected_status s)
      then show ?thesis
        using True body [of i options]
        by (subst parse_loop.simps) (simp add: refuses_invalid_def expected_error_def normalize_expected_error_def is_ok_def)
    next
      case (Expected_value r)
      then show ?thesis using True less.hyps parse_loop_step [OF True, of body options] by (cases r) simp
    qed
  qed (simp add: parse_loop_done)
qed

lemma option_supported_value:
  "option_supported args i vals d f = Expected_value (adv, r) \<Longrightarrow> \<exists>n \<in> set vals. r = f n"
  by (auto simp: option_supported_def expected_bind_def is_supported_def
      split: prod.splits Expected.splits if_splits)

lemma option_other_value:
  "option_u64 args i f = Expected_value (adv, r) \<Longrightarrow> \<exists>n. r = f n"
  "option_size args i f = Expected_value (adv, r) \<Longrightarrow> \<exists>n. r = f n"
  "option_text args i g = Expected_value (adv, r) \<Longrightarrow> \<exists>v. r = g v"
  by (auto simp: option_u64_def option_size_def option_text_def expected_bind_def
      split: prod.splits Expected.splits)

lemma bodies_refuse [simp]:
  "refuses_invalid (bench_body args i b)" "refuses_invalid (pub_body args i p)"
  "refuses_invalid (sub_body args i s)" "refuses_invalid (replay_body args i r)"
  "refuses_invalid (inspect_wal_body args i w)"
  by (simp_all add: bench_body_def pub_body_def sub_body_def replay_body_def inspect_wal_body_def Let_def)

lemma bench_body_supported:
  "bench_body args i options = Expected_value (adv, options') \<Longrightarrow>
   bo_payload_size options \<in> set supported_payload_sizes \<and> bo_capacity options \<in> set supported_capacities \<Longrightarrow>
   bo_payload_size options' \<in> set supported_payload_sizes \<and> bo_capacity options' \<in> set supported_capacities"
  by (auto simp: bench_body_def Let_def dest!: option_supported_value option_other_value split: if_splits)

lemma sub_body_supported:
  "sub_body args i options = Expected_value (adv, options') \<Longrightarrow> so_capacity options \<in> set supported_capacities \<Longrightarrow>
   so_capacity options' \<in> set supported_capacities"
  by (auto simp: sub_body_def Let_def dest!: option_supported_value option_other_value split: if_splits)

lemma parse_bench_args_supported:
  assumes "parse_bench_args args = Expected_value result"
  shows "bo_payload_size result \<in> set supported_payload_sizes \<and> bo_capacity result \<in> set supported_capacities"
  by (rule parse_loop_inv [OF _ _ assms [unfolded parse_bench_args_def], where P = "\<lambda>x.
      bo_payload_size x \<in> set supported_payload_sizes \<and> bo_capacity x \<in> set supported_capacities"])
    (auto dest: bench_body_supported simp: default_BenchOptions_def supported_payload_sizes_def supported_capacities_def)

lemma parse_sub_args_supported:
  assumes "parse_sub_args args = Expected_value result"
  shows "so_capacity result \<in> set supported_capacities"
  by (rule parse_loop_inv [OF _ _ assms [unfolded parse_sub_args_def], where P = "\<lambda>x.
      so_capacity x \<in> set supported_capacities"])
    (auto dest: sub_body_supported simp: default_SubOptions_def supported_capacities_def)

lemma supported_capacity_static: "c \<in> set supported_capacities \<Longrightarrow> is_power_of_two c \<and> 2 \<le> c"
  by (auto simp: supported_capacities_def is_power_of_two_def)

text \<open>
  Accepted options are usable. Whatever the command line, each parser either refuses it with
  \<open>invalid_argument\<close> or returns options; a capacity or payload size it returns is one of the
  supported values, so the \<open>switch\<close> statements of \<open>aether_bench\<close> and \<open>aether_sub\<close> always find a case
  and the capacity is a power of two greater than 1, as the queue templates require.
\<close>

theorem cli_accepted_options:
  "refuses_invalid (parse_bench_args args) \<and> refuses_invalid (parse_pub_args args) \<and>
   refuses_invalid (parse_sub_args args) \<and> refuses_invalid (parse_replay_args args) \<and>
   refuses_invalid (parse_inspect_wal_args args) \<and>
   (\<forall>o'. parse_bench_args args = Expected_value o' \<longrightarrow>
      bo_payload_size o' \<in> {8, 32, 64, 256, 1024} \<and> bo_capacity o' \<in> {64, 256, 1024, 4096, 65536} \<and>
      is_power_of_two (bo_capacity o') \<and> 2 \<le> bo_capacity o') \<and>
   (\<forall>o'. parse_sub_args args = Expected_value o' \<longrightarrow> so_capacity o' \<in> {64, 256, 1024, 4096, 65536} \<and>
      is_power_of_two (so_capacity o') \<and> 2 \<le> so_capacity o')"
  using parse_bench_args_supported [of args] parse_sub_args_supported [of args] supported_capacity_static
  by (simp add: parse_bench_args_def parse_pub_args_def parse_sub_args_def parse_replay_args_def
      parse_inspect_wal_args_def refuses_invalid_loop)
    (auto simp: supported_capacities_def supported_payload_sizes_def)

theorem cli_accepted_options_witness:
  "\<exists>o'. parse_sub_args [''aether_sub'', ''--capacity=256'', ''--limit'', ''7''] = Expected_value o' \<and>
     so_limit o' = 7 \<and> so_capacity o' = 256 \<and> is_power_of_two (so_capacity o') \<and> 2 \<le> so_capacity o'"
proof -
  let ?args = "[''aether_sub'', ''--capacity=256'', ''--limit'', ''7'']"
  have "parse_sub_args ?args = Expected_value (default_SubOptions\<lparr>so_capacity := 256, so_limit := 7\<rparr>)"
    by (simp add: parse_sub_args_def parse_loop.simps sub_body_def is_help_def matches_def option_supported_def
        option_u64_def arg_value_def expected_bind_def parse_size_def parse_u64_def from_chars_u64_def
        is_digit_def decimal_value_def digit_value_def is_supported_def supported_capacities_def Let_def)
  then show ?thesis
    using cli_accepted_options [of ?args] by (simp add: default_SubOptions_def)
qed

section \<open>Round trip\<close>

text \<open>The two spellings of an option with a value: \<open>--option=value\<close> and \<open>--option value\<close>.\<close>

fun spell :: "bool \<Rightarrow> string \<Rightarrow> string \<Rightarrow> string list" where
  "spell True option v = [option @ ''='' @ v]"
| "spell False option v = [option, v]"

definition spellable :: "bool \<Rightarrow> string \<Rightarrow> bool" where
  "spellable b v \<longleftrightarrow> v \<noteq> [] \<and> (b \<or> hd v \<noteq> CHR ''-'')"

lemma arg_value_spell:
  assumes "CHR ''='' \<notin> set opt" "spellable b v"
  shows "arg_value (pre @ spell b opt v @ post) (length pre) = (length (spell b opt v) - 1, Expected_value v)"
proof (cases b)
  case True
  have "dropWhile (\<lambda>c. c \<noteq> CHR ''='') (opt @ ''='' @ v) = ''='' @ v"
    using assms(1) by (subst dropWhile_append2) auto
  then show ?thesis
    using True assms by (simp add: arg_value_def spellable_def)
next
  case False
  then show ?thesis using assms by (simp add: arg_value_def nth_append spellable_def)
qed



lemma loop_spell:
  assumes "args = pre @ spell b opt v @ post"
    "body args (length pre) options = Expected_value (length (spell b opt v) - 1, options')"
  shows "parse_loop body args (length pre) options = parse_loop body args (length (pre @ spell b opt v)) options'"
  using assms parse_loop_step [of "length pre" args body options] by (cases b) simp_all

lemma loop_flag:
  assumes "args = pre @ (if f then [opt] else []) @ post"
    "f \<Longrightarrow> body args (length pre) options = Expected_value (0, options')" "\<not> f \<Longrightarrow> options' = options"
  shows "parse_loop body args (length pre) options =
    parse_loop body args (length (pre @ (if f then [opt] else []))) options'"
  using assms parse_loop_step [of "length pre" args body options] by (cases f) simp_all

lemma nth_spell: "(pre @ spell b opt v @ post) ! length pre = (if b then opt @ ''='' @ v else opt)"
  by (cases b) (simp_all add: nth_append)

lemma spellable_decimal [simp]: "spellable b (decimal n)"
proof -
  have "is_digit (hd (decimal n))" using decimal_digits [of n] by simp
  then show ?thesis by (auto simp: spellable_def is_digit_def)
qed

lemma parse_u64_decimal [simp]: "parse_u64 (decimal (unat n)) = Expected_value n"
  using decimal_digits by (simp add: parse_u64_iff)

text \<open>The bodies of the options with a value, once the option is found.\<close>

lemma option_spell:
  assumes "CHR ''='' \<notin> set opt"
  shows "spellable b v \<Longrightarrow> option_text (pre @ spell b opt v @ post) (length pre) f =
      Expected_value (length (spell b opt v) - 1, f v)"
    "option_u64 (pre @ spell b opt (decimal (unat n)) @ post) (length pre) g =
      Expected_value (length (spell b opt (decimal (unat n))) - 1, g n)"
  unfolding option_text_def option_u64_def
  by (simp_all add: arg_value_spell [OF assms] expected_bind_def)

lemma matches_spell:
  "CHR ''='' \<notin> set opt \<Longrightarrow> CHR ''='' \<notin> set opt' \<Longrightarrow> matches (if b then opt @ ''='' @ v else opt) opt' \<longleftrightarrow> opt = opt'"
proof (cases b)
  case True
  assume eq: "CHR ''='' \<notin> set opt" "CHR ''='' \<notin> set opt'"
  have tw: "takeWhile (\<lambda>c. c \<noteq> CHR ''='') (o' @ ''='' @ w) = o'" if "CHR ''='' \<notin> set o'" for o' w
    using that by (subst takeWhile_append2) auto
  have "opt = opt'" if "take (length opt' + 1) (opt @ ''='' @ v) = opt' @ ''=''"
  proof -
    have "opt @ ''='' @ v = opt' @ ''='' @ drop (length opt' + 1) (opt @ ''='' @ v)"
      using append_take_drop_id [of "length opt' + 1" "opt @ ''='' @ v"] unfolding that by (metis append.assoc)
    then show ?thesis using tw [OF eq(1)] tw [OF eq(2)] by metis
  qed
  moreover have "opt @ ''='' @ v \<noteq> opt'" using eq(2) by auto
  ultimately show ?thesis using True by (auto simp: matches_def)
next
  case False
  assume "CHR ''='' \<notin> set opt"
  then have "take (length opt' + 1) opt \<noteq> opt' @ ''=''"
    by (metis in_set_conv_decomp set_take_subset subsetD)
  then show ?thesis using False by (auto simp: matches_def)
qed

lemma spell_eq:
  "CHR ''='' \<notin> set s \<Longrightarrow> (if b then opt @ ''='' @ v else opt) = s \<longleftrightarrow> \<not> b \<and> opt = s"
  by auto

lemma pub_steps:
  "spellable b v \<Longrightarrow> pub_body (pre @ spell b ''--wal'' v @ post) (length pre) options =
     Expected_value (length (spell b ''--wal'' v) - 1, options\<lparr>po_wal_path := v\<rparr>)"
  "pub_body (pre @ spell b ''--messages'' (decimal (unat n)) @ post) (length pre) options =
     Expected_value (length (spell b ''--messages'' (decimal (unat n))) - 1, options\<lparr>po_messages := n\<rparr>)"
  "pub_body (pre @ spell b ''--wal-size'' (decimal (unat n)) @ post) (length pre) options =
     Expected_value (length (spell b ''--wal-size'' (decimal (unat n))) - 1, options\<lparr>po_wal_size_bytes := n\<rparr>)"
  by (simp_all add: pub_body_def Let_def nth_spell option_spell matches_spell is_help_def spell_eq)

text \<open>A command line for given \<open>aether_pub\<close> options; each option with a value in either spelling.\<close>

definition pub_command_line :: "bool \<times> bool \<times> bool \<Rightarrow> string \<Rightarrow> PubOptions \<Rightarrow> string list" where
  "pub_command_line spelling program options =
     (case spelling of (b1, b2, b3) \<Rightarrow>
        [program] @ (if po_help options then [''--help''] else []) @
        spell b1 ''--wal'' (po_wal_path options) @
        spell b2 ''--messages'' (decimal (unat (po_messages options))) @
        spell b3 ''--wal-size'' (decimal (unat (po_wal_size_bytes options))) @
        (if po_flush_on_commit options then [''--flush-on-commit''] else []))"

text \<open>
  C29. Round trip of the publisher's command line: options printed as a command line, with each value
  in either spelling (\<open>--option=value\<close> or \<open>--option value\<close>), parse back to the same options. A path
  that starts with a dash can only be given in the first spelling.
\<close>

theorem cli_pub_roundtrip:
  assumes "spellable b1 (po_wal_path options)"
  shows "parse_pub_args (pub_command_line (b1, b2, b3) program options) = Expected_value options"
proof -
  let ?args = "pub_command_line (b1, b2, b3) program options"
  let ?h = "if po_help options then [''--help''] else []"
  let ?w = "spell b1 ''--wal'' (po_wal_path options)"
  let ?m = "spell b2 ''--messages'' (decimal (unat (po_messages options)))"
  let ?s = "spell b3 ''--wal-size'' (decimal (unat (po_wal_size_bytes options)))"
  let ?f = "if po_flush_on_commit options then [''--flush-on-commit''] else []"
  let ?o1 = "default_PubOptions\<lparr>po_help := po_help options\<rparr>"
  let ?o2 = "?o1\<lparr>po_wal_path := po_wal_path options\<rparr>"
  let ?o3 = "?o2\<lparr>po_messages := po_messages options\<rparr>"
  let ?o4 = "?o3\<lparr>po_wal_size_bytes := po_wal_size_bytes options\<rparr>"
  have args: "?args = [program] @ ?h @ ?w @ ?m @ ?s @ ?f" by (simp add: pub_command_line_def)
  have "parse_pub_args ?args = parse_loop pub_body ?args (length [program]) default_PubOptions"
    by (simp add: parse_pub_args_def)
  also have "\<dots> = parse_loop pub_body ?args (length ([program] @ ?h)) ?o1"
    by (rule loop_flag [OF args]) (simp_all add: args pub_body_def is_help_def default_PubOptions_def)
  also have "\<dots> = parse_loop pub_body ?args (length (([program] @ ?h) @ ?w)) ?o2"
    by (rule loop_spell [where post = "?m @ ?s @ ?f"])
      (use pub_steps(1) [OF assms, of "[program] @ ?h" "?m @ ?s @ ?f" ?o1] in \<open>simp_all add: args\<close>)
  also have "\<dots> = parse_loop pub_body ?args (length ((([program] @ ?h) @ ?w) @ ?m)) ?o3"
    by (rule loop_spell [where post = "?s @ ?f"])
      (use pub_steps(2) [of "([program] @ ?h) @ ?w" b2 _ "?s @ ?f" ?o2] in \<open>simp_all add: args\<close>)
  also have "\<dots> = parse_loop pub_body ?args (length (((([program] @ ?h) @ ?w) @ ?m) @ ?s)) ?o4"
    by (rule loop_spell [where post = ?f])
      (use pub_steps(3) [of "(([program] @ ?h) @ ?w) @ ?m" b3 _ ?f ?o3] in \<open>simp_all add: args\<close>)
  also have "\<dots> = parse_loop pub_body ?args (length ((((([program] @ ?h) @ ?w) @ ?m) @ ?s) @ ?f)) options"
    by (rule loop_flag [where post = "[]"])
      (simp_all add: args nth_append pub_body_def is_help_def default_PubOptions_def)
  also have "\<dots> = Expected_value options" by (rule parse_loop_done) (simp add: args)
  finally show ?thesis .
qed

theorem cli_pub_roundtrip_witness:
  "parse_pub_args (pub_command_line (False, True, False) ''aether_pub''
     \<lparr>po_help = False, po_wal_path = ''x=y.wal'', po_messages = 5, po_wal_size_bytes = 4096,
      po_flush_on_commit = True\<rparr>) =
   Expected_value \<lparr>po_help = False, po_wal_path = ''x=y.wal'', po_messages = 5, po_wal_size_bytes = 4096,
      po_flush_on_commit = True\<rparr>"
  by (rule cli_pub_roundtrip) (simp add: spellable_def)

text \<open>
  Numbers are read exactly. \<open>parse_u64\<close> accepts a text if and only if it is the decimal notation
  of an unsigned 64-bit value, possibly with leading zeros, and returns that value: no sign, no
  space, no trailing character and no value of \<open>2 ^ 64\<close> or more is accepted, and none wraps.
\<close>

theorem cli_parse_u64_exact:
  "parse_u64 t = Expected_value n \<longleftrightarrow> (\<exists>k. t = replicate k (CHR ''0'') @ decimal (unat n))"
proof
  assume "parse_u64 t = Expected_value n"
  then have "t \<noteq> []" "\<forall>c \<in> set t. is_digit c" "decimal_value t = unat n" by (simp_all add: parse_u64_iff)
  then show "\<exists>k. t = replicate k (CHR ''0'') @ decimal (unat n)" using decimal_unique by metis
next
  assume "\<exists>k. t = replicate k (CHR ''0'') @ decimal (unat n)"
  then show "parse_u64 t = Expected_value n"
    using decimal_digits [of "unat n"] by (auto simp: parse_u64_iff is_digit_def)
qed

end
