(* ===== verification/Spsc_Clients.thy ===== *)
theory Spsc_Clients
  imports Spsc_Concurrent Wait_Utils Cli_Args Metrics_Counters
begin

text \<open>
  The two-thread programs on the ring buffer: \<open>tools/stress_spsc.cpp\<close>, which checks the order of what
  it receives, and \<open>apps/aether_bench.cpp\<close>, which drives a broker and reports its counters.

  \<^item> Both have the same shape: a producer that retries \<open>try_push\<close> until it has sent \<open>messages\<close>
    values, a consumer that retries \<open>try_pop\<close> until it has received as many. \<open>client_step\<close> runs the
    loops around the operations of \<open>Spsc_Concurrent\<close>, one access to shared memory at a time; a
    \<open>spsc_client\<close> says what is sent, what the consumer accepts and what is counted.
  \<^item> A reading of the clock may be any number: it is the variable \<open>now\<close> of the step that makes it.
  \<^item> The relaxed load of \<open>failed\<close> may return an old \<open>false\<close>, so a loop may go on after a failure;
    it stops early only if \<open>failed\<close> has been set. What a thread counts after an operation belongs
    to the last step of that operation: each counter has one writer and is read after the join.
  \<^item> Shown for both, for every interleaving: no undefined behaviour; no failure is ever reported;
    when both threads have ended everything has arrived and the counters are exact; and from every
    reachable state the run can still be completed.
  \<^item> Elapsed times, rates and the layout of the output are not modelled.
\<close>

section \<open>Two-thread clients\<close>

record ('a, 'c) spsc_client =
  cl_payload :: "u64 \<Rightarrow> u64 \<Rightarrow> 'a"
  cl_accept :: "u64 \<Rightarrow> 'a \<Rightarrow> bool"
  cl_pushed :: "'c \<Rightarrow> 'c"
  cl_refused :: "'c \<Rightarrow> 'c"
  cl_popped :: "u64 \<Rightarrow> u64 \<Rightarrow> 'a \<Rightarrow> 'c \<Rightarrow> 'c"
  cl_starved :: "'c \<Rightarrow> 'c"

record ('a, 'c) client_state =
  cr_queue :: "'a spsc_conc"
  cr_value :: u64
  cr_p_done :: bool
  cr_expected :: u64
  cr_c_done :: bool
  cr_failed :: bool
  cr_stats :: 'c

definition client_init :: "size_t \<Rightarrow> 'c \<Rightarrow> ('a, 'c) client_state" where
  "client_init C c = \<lparr>cr_queue = spsc_init C, cr_value = 0, cr_p_done = False, cr_expected = 0,
     cr_c_done = False, cr_failed = False, cr_stats = c\<rparr>"

text \<open>What the loop bodies do when an access of the operation has led to the queue \<open>q\<close>: nothing while
  the operation is running, otherwise the branch for its result.\<close>

definition after_push ::
    "('a, 'c) spsc_client \<Rightarrow> ('a, 'c) client_state \<Rightarrow> 'a spsc_conc \<Rightarrow> ('a, 'c) client_state" where
  "after_push cl s q =
     (if cq_ppc q \<noteq> P_idle then s\<lparr>cr_queue := q\<rparr>
      else case cq_ppc (cr_queue s) of
        P_constructed v h \<Rightarrow>
          s\<lparr>cr_queue := q, cr_value := cr_value s + 1, cr_stats := cl_pushed cl (cr_stats s)\<rparr>
      | _ \<Rightarrow> s\<lparr>cr_queue := q, cr_stats := cl_refused cl (cr_stats s)\<rparr>)"

definition after_pop ::
    "('a, 'c) spsc_client \<Rightarrow> u64 \<Rightarrow> ('a, 'c) client_state \<Rightarrow> 'a spsc_conc \<Rightarrow> ('a, 'c) client_state" where
  "after_pop cl now s q =
     (if cq_cpc q \<noteq> C_idle then s\<lparr>cr_queue := q\<rparr>
      else case cq_cpc (cr_queue s) of
        C_destroyed v t \<Rightarrow>
          (if \<not> cl_accept cl (cr_expected s) v then s\<lparr>cr_queue := q, cr_failed := True, cr_c_done := True\<rparr>
           else s\<lparr>cr_queue := q, cr_expected := cr_expected s + 1,
                  cr_stats := cl_popped cl now (cr_expected s + 1) v (cr_stats s)\<rparr>)
      | _ \<Rightarrow> s\<lparr>cr_queue := q, cr_stats := cl_starved cl (cr_stats s)\<rparr>)"

inductive client_step ::
    "('a, 'c) spsc_client \<Rightarrow> u64 \<Rightarrow> ('a, 'c) client_state \<Rightarrow> ('a, 'c) client_state option \<Rightarrow> bool"
    for cl :: "('a, 'c) spsc_client" and messages :: u64 where
  p_call:
    "\<not> cr_p_done s \<Longrightarrow> cq_ppc (cr_queue s) = P_idle \<Longrightarrow> cr_value s < messages \<Longrightarrow>
     client_step cl messages s (Some (s\<lparr>cr_queue := (cr_queue s)\<lparr>cq_ppc :=
       P_head_loaded (cl_payload cl now (cr_value s)) (fst (last (cq_heads (cr_queue s))))\<rparr>\<rparr>))"
| p_access:
    "\<not> cr_p_done s \<Longrightarrow> cq_ppc (cr_queue s) \<noteq> P_idle \<Longrightarrow> producer_step (cr_queue s) r \<Longrightarrow>
     client_step cl messages s (map_option (after_push cl s) r)"
| p_exit:
    "\<not> cr_p_done s \<Longrightarrow> cq_ppc (cr_queue s) = P_idle \<Longrightarrow> \<not> cr_value s < messages \<or> cr_failed s \<Longrightarrow>
     client_step cl messages s (Some (s\<lparr>cr_p_done := True\<rparr>))"
| c_call:
    "\<not> cr_c_done s \<Longrightarrow> cq_cpc (cr_queue s) = C_idle \<Longrightarrow> cr_expected s < messages \<Longrightarrow>
     client_step cl messages s (Some (s\<lparr>cr_queue := (cr_queue s)\<lparr>cq_cpc :=
       C_tail_loaded (fst (last (cq_tails (cr_queue s))))\<rparr>\<rparr>))"
| c_access:
    "\<not> cr_c_done s \<Longrightarrow> cq_cpc (cr_queue s) \<noteq> C_idle \<Longrightarrow> consumer_step (cr_queue s) r \<Longrightarrow>
     client_step cl messages s (map_option (after_pop cl now s) r)"
| c_exit:
    "\<not> cr_c_done s \<Longrightarrow> cq_cpc (cr_queue s) = C_idle \<Longrightarrow> \<not> cr_expected s < messages \<or> cr_failed s \<Longrightarrow>
     client_step cl messages s (Some (s\<lparr>cr_c_done := True\<rparr>))"

inductive client_steps ::
    "('a, 'c) spsc_client \<Rightarrow> u64 \<Rightarrow> ('a, 'c) client_state \<Rightarrow> ('a, 'c) client_state \<Rightarrow> bool"
    for cl :: "('a, 'c) spsc_client" and messages :: u64 where
  steps_refl: "client_steps cl messages s s"
| steps_step: "client_step cl messages s (Some s1) \<Longrightarrow> client_steps cl messages s1 s' \<Longrightarrow>
    client_steps cl messages s s'"

definition both_done :: "('a, 'c) client_state \<Rightarrow> bool" where
  "both_done s \<longleftrightarrow> cr_p_done s \<and> cr_c_done s"

text \<open>\<open>queue.empty()\<close> after both threads have been joined.\<close>

definition joined_empty :: "('a, 'c) client_state \<Rightarrow> bool" where
  "joined_empty s \<longleftrightarrow> fst (last (cq_tails (cr_queue s))) = fst (last (cq_heads (cr_queue s)))"

section \<open>The stress tool\<close>

record stress_stats =
  ss_consumed :: u64
  ss_push_retries :: u64
  ss_pop_retries :: u64
  ss_push_spin :: ThreadSpinWait
  ss_pop_spin :: ThreadSpinWait

definition stress_start :: stress_stats where
  "stress_start = \<lparr>ss_consumed = 0, ss_push_retries = 0, ss_pop_retries = 0,
     ss_push_spin = thread_spin_default, ss_pop_spin = thread_spin_default\<rparr>"

definition stress_client :: "(u64, stress_stats) spsc_client" where
  "stress_client =
     \<lparr>cl_payload = (\<lambda>now value. value),
      cl_accept = (\<lambda>expected value. value = expected),
      cl_pushed = (\<lambda>c. c\<lparr>ss_push_spin := thread_spin_reset (ss_push_spin c)\<rparr>),
      cl_refused = (\<lambda>c. c\<lparr>ss_push_retries := ss_push_retries c + 1,
                          ss_push_spin := snd (thread_spin_wait (ss_push_spin c))\<rparr>),
      cl_popped = (\<lambda>now expected value c. c\<lparr>ss_consumed := expected,
                                  ss_pop_spin := thread_spin_reset (ss_pop_spin c)\<rparr>),
      cl_starved = (\<lambda>c. c\<lparr>ss_pop_retries := ss_pop_retries c + 1,
                          ss_pop_spin := snd (thread_spin_wait (ss_pop_spin c))\<rparr>)\<rparr>"

definition stress_passed :: "u64 \<Rightarrow> (u64, stress_stats) client_state \<Rightarrow> bool" where
  "stress_passed messages s \<longleftrightarrow>
     \<not> cr_failed s \<and> ss_consumed (cr_stats s) = messages \<and> joined_empty s"

record stress_options =
  so_stress_messages :: u64
  so_stress_capacity :: size_t

datatype stress_parse = Parse_ok stress_options | Parse_help | Parse_error

definition stress_parse_u64 :: "string \<Rightarrow> u64 option" where
  "stress_parse_u64 text =
     (case from_chars_u64 text of (ec, ptr, value) \<Rightarrow>
        if ec = Errc_none \<and> ptr = [] then Some value else None)"

fun stress_parse_args :: "string list \<Rightarrow> stress_options \<Rightarrow> stress_parse" where
  "stress_parse_args [] options = Parse_ok options"
| "stress_parse_args [arg] options = (if arg = ''--help'' then Parse_help else Parse_error)"
| "stress_parse_args (arg # text # args) options =
     (if arg = ''--help'' then Parse_help
      else if arg = ''--messages'' then
        (case stress_parse_u64 text of
           None \<Rightarrow> Parse_error
         | Some n \<Rightarrow> if n = 0 then Parse_error else stress_parse_args args (options\<lparr>so_stress_messages := n\<rparr>))
      else if arg = ''--capacity'' then
        (case stress_parse_u64 text of
           None \<Rightarrow> Parse_error
         | Some n \<Rightarrow> stress_parse_args args (options\<lparr>so_stress_capacity := n\<rparr>))
      else Parse_error)"

definition default_stress_options :: stress_options where
  "default_stress_options = \<lparr>so_stress_messages = 10000000, so_stress_capacity = 65536\<rparr>"

text \<open>\<open>main\<close>: an exit code, or the template capacity and the argument of \<open>run_stress\<close>.\<close>

definition stress_main :: "string list \<Rightarrow> nat + size_t \<times> u64" where
  "stress_main args =
     (case stress_parse_args (tl args) default_stress_options of
        Parse_help \<Rightarrow> Inl 0
      | Parse_error \<Rightarrow> Inl 1
      | Parse_ok options \<Rightarrow>
          if so_stress_capacity options \<in> {64, 256, 1024, 4096, 65536}
          then Inr (so_stress_capacity options, so_stress_messages options)
          else Inl 1)"

section \<open>The benchmark application\<close>

record bench_stats =
  bs_counters :: BrokerCounters
  bs_full_retries :: u64
  bs_empty_retries :: u64

definition bench_start :: bench_stats where
  "bench_start = \<lparr>bs_counters = counters_init, bs_full_retries = 0, bs_empty_retries = 0\<rparr>"

definition bench_payload :: "size_t \<Rightarrow> u64 \<Rightarrow> byte list" where
  "bench_payload payload_size i = (replicate (unat payload_size) 0)[0 := ucast (i AND 0xff)]"

definition bench_client :: "size_t \<Rightarrow> (byte list, bench_stats) spsc_client" where
  "bench_client payload_size =
     \<lparr>cl_payload = (\<lambda>now. bench_payload payload_size),
      cl_accept = (\<lambda>i payload. True),
      cl_pushed = (\<lambda>c. c\<lparr>bs_counters := record_published (bs_counters c)\<rparr>),
      cl_refused = (\<lambda>c. c\<lparr>bs_counters := record_publish_failed_full (bs_counters c),
                          bs_full_retries := bs_full_retries c + 1\<rparr>),
      cl_popped = (\<lambda>now i payload c. c\<lparr>bs_counters := record_consumed (bs_counters c)\<rparr>),
      cl_starved = (\<lambda>c. c\<lparr>bs_counters := record_consume_failed_empty (bs_counters c),
                          bs_empty_retries := bs_empty_retries c + 1\<rparr>)\<rparr>"

text \<open>The template arguments that \<open>dispatch\<close> selects for \<open>run\<close>; without a match it returns an empty
  result and nothing is run.\<close>

definition dispatch_capacity :: "size_t \<Rightarrow> size_t \<Rightarrow> (size_t \<times> size_t) option" where
  "dispatch_capacity payload_size capacity =
     (if capacity \<in> {64, 256, 1024, 4096, 65536} then Some (payload_size, capacity) else None)"

definition bench_dispatch :: "BenchOptions \<Rightarrow> (size_t \<times> size_t) option" where
  "bench_dispatch options =
     (if bo_payload_size options \<in> {8, 32, 64, 256, 1024}
      then dispatch_capacity (bo_payload_size options) (bo_capacity options) else None)"

text \<open>Up to the run: the exit code of a call that ends there, or what is run. A run ends with 0.\<close>

definition bench_main :: "string list \<Rightarrow> nat + (size_t \<times> size_t) option \<times> u64" where
  "bench_main args =
     (case parse_bench_args args of
        Expected_status s \<Rightarrow> Inl 2
      | Expected_value options \<Rightarrow>
          if bo_help options then Inl 0 else Inr (bench_dispatch options, bo_messages options))"

text \<open>What is written to the console and to the result file, without the times.\<close>

record BenchReport =
  br_messages :: u64
  br_payload_size :: size_t
  br_capacity :: size_t
  br_full_retries :: u64
  br_empty_retries :: u64
  br_published :: u64
  br_consumed :: u64
  br_publish_failed_full :: u64
  br_consume_failed_empty :: u64

definition bench_write :: "BenchOptions \<Rightarrow> bench_stats \<Rightarrow> BenchReport" where
  "bench_write options stats =
     (let metrics = counters_snapshot (bs_counters stats) in
      \<lparr>br_messages = bo_messages options, br_payload_size = bo_payload_size options, br_capacity = bo_capacity options,
       br_full_retries = bs_full_retries stats, br_empty_retries = bs_empty_retries stats,
       br_published = ms_published metrics, br_consumed = ms_consumed metrics,
       br_publish_failed_full = ms_publish_failed_full metrics,
       br_consume_failed_empty = ms_consume_failed_empty metrics\<rparr>)"

section \<open>Invariant\<close>

fun push_item :: "'a producer_pc \<Rightarrow> 'a option" where
  "push_item P_idle = None"
| "push_item (P_head_loaded v h) = Some v"
| "push_item (P_has_room v h) = Some v"
| "push_item (P_constructed v h) = Some v"

text \<open>The values for the loop variables below \<open>n\<close>, each made with some reading of the clock.\<close>

definition sent_values :: "('a, 'c) spsc_client \<Rightarrow> nat \<Rightarrow> 'a list \<Rightarrow> bool" where
  "sent_values cl n vs \<longleftrightarrow> length vs = n \<and> (\<forall>i < n. \<exists>now. vs ! i = cl_payload cl now (of_nat i))"

definition client_inv ::
    "('a, 'c) spsc_client \<Rightarrow> (u64 \<Rightarrow> u64 \<Rightarrow> 'c \<Rightarrow> bool) \<Rightarrow> size_t \<Rightarrow> u64 \<Rightarrow> ('a, 'c) client_state \<Rightarrow> bool" where
  "client_inv cl ci C messages s \<longleftrightarrow>
     spsc_inv C (cr_queue s) \<and>
     sent_values cl (unat (cr_value s)) (cq_pushed (cr_queue s)) \<and>
     length (cq_popped (cr_queue s)) = unat (cr_expected s) \<and>
     cr_value s \<le> messages \<and> cr_expected s \<le> messages \<and> \<not> cr_failed s \<and>
     (cq_ppc (cr_queue s) \<noteq> P_idle \<longrightarrow> \<not> cr_p_done s \<and> cr_value s < messages \<and>
        (\<exists>now. push_item (cq_ppc (cr_queue s)) = Some (cl_payload cl now (cr_value s)))) \<and>
     (cq_cpc (cr_queue s) \<noteq> C_idle \<longrightarrow> \<not> cr_c_done s \<and> cr_expected s < messages) \<and>
     (cr_p_done s \<longrightarrow> cr_value s = messages) \<and> (cr_c_done s \<longrightarrow> cr_expected s = messages) \<and>
     ci (cr_value s) (cr_expected s) (cr_stats s)"

lemma sent_values_Nil [simp]: "sent_values cl 0 vs \<longleftrightarrow> vs = []"
  by (simp add: sent_values_def)

lemma sent_values_snoc:
  "sent_values cl (unat v) vs \<Longrightarrow> sent_values cl (Suc (unat v)) (vs @ [cl_payload cl now v])"
  by (auto simp: sent_values_def nth_append less_Suc_eq)

lemma sent_values_payload:
  assumes "sent_values cl n vs" "unat e < length vs"
  obtains now where "vs ! unat e = cl_payload cl now e"
  using assms by (auto simp: sent_values_def)

lemma sent_values_fixed:
  assumes "sent_values cl n vs" "\<And>now. cl_payload cl now = f"
  shows "vs = map (\<lambda>i. f (of_nat i)) [0..<n]"
  using assms by (intro nth_equalityI) (auto simp: sent_values_def)

lemma unat_next: "v < m \<Longrightarrow> unat (v + 1) = Suc (unat v)" "v < m \<Longrightarrow> v + 1 \<le> m" for v m :: u64
  using unat_lt2p [of m]
  by (auto simp: word_less_nat_alt word_le_nat_alt unat_word_ariths(1))

lemma producer_outcome:
  assumes "producer_step q (Some q')" "cq_ppc q \<noteq> P_idle"
  shows "if cq_ppc q' \<noteq> P_idle then push_item (cq_ppc q') = push_item (cq_ppc q) \<and> cq_pushed q' = cq_pushed q
    else (\<exists>v h. cq_ppc q = P_constructed v h \<and> cq_pushed q' = cq_pushed q @ [v]) \<or>
      (\<exists>v h. cq_ppc q = P_head_loaded v h \<and> cq_pushed q' = cq_pushed q)"
  using assms
proof (cases rule: producer_step.cases)
  case (push_construct v head)
  then show ?thesis using push_construct_Some [of v head q q'] by simp
qed (simp_all add: acquire_tail_def push_publish_def)

lemma consumer_outcome:
  assumes "consumer_step q (Some q')" "cq_cpc q \<noteq> C_idle"
  shows "if cq_cpc q' \<noteq> C_idle then cq_popped q' = cq_popped q
    else (\<exists>v t. cq_cpc q = C_destroyed v t \<and> cq_popped q' = cq_popped q @ [v]) \<or>
      (\<exists>t. cq_cpc q = C_tail_loaded t \<and> cq_popped q' = cq_popped q)"
  using assms
proof (cases rule: consumer_step.cases)
  case (pop_move tail)
  then show ?thesis using pop_move_Some [of tail q q'] by auto
next
  case (pop_destroy v tail)
  then show ?thesis using pop_destroy_Some [of v tail q q'] by simp
qed (simp_all add: acquire_head_def pop_publish_def)

text \<open>The laws of a client: the consumer accepts what was sent, and \<open>ci\<close>, which relates what is
  counted to the two loop variables, is kept by every branch.\<close>

locale spsc_client_laws =
  fixes cl :: "('a, 'c) spsc_client"
    and ci :: "u64 \<Rightarrow> u64 \<Rightarrow> 'c \<Rightarrow> bool"
    and start :: 'c
  assumes accept: "cl_accept cl e (cl_payload cl now e)"
    and start: "ci 0 0 start"
    and pushed: "ci v e c \<Longrightarrow> ci (v + 1) e (cl_pushed cl c)"
    and refused: "ci v e c \<Longrightarrow> ci v e (cl_refused cl c)"
    and popped: "ci v e c \<Longrightarrow> unat (e + 1) = Suc (unat e) \<Longrightarrow>
      ci v (e + 1) (cl_popped cl now (e + 1) (cl_payload cl sent e) c)"
    and starved: "ci v e c \<Longrightarrow> ci v e (cl_starved cl c)"
begin

lemma inv_init: "static_capacity C \<Longrightarrow> client_inv cl ci C messages (client_init C start)"
  using start spsc_inv_init [of C] by (simp add: client_inv_def client_init_def) (simp add: spsc_init_def)

lemma inv_p_access:
  assumes inv: "client_inv cl ci C messages s"
    and step: "cq_ppc (cr_queue s) \<noteq> P_idle" "producer_step (cr_queue s) r"
  shows "\<exists>q. r = Some q \<and> client_inv cl ci C messages (after_push cl s q)"
proof -
  let ?q = "cr_queue s"
  have s: "spsc_inv C ?q" "sent_values cl (unat (cr_value s)) (cq_pushed ?q)"
      "\<exists>now. push_item (cq_ppc ?q) = Some (cl_payload cl now (cr_value s))" "cr_value s < messages"
    using inv step(1) by (auto simp: client_inv_def)
  obtain q where q: "r = Some q" "spsc_inv C q" using spsc_inv_producer_step [OF s(1) step(2)] by blast
  note keep = producer_step_keeps [OF step(2) [unfolded q(1)]]
  note out = producer_outcome [OF step(2) [unfolded q(1)] step(1)]
  consider (running) "cq_ppc q \<noteq> P_idle" "push_item (cq_ppc q) = push_item (cq_ppc ?q)" "cq_pushed q = cq_pushed ?q"
    | (true) v h where "cq_ppc q = P_idle" "cq_ppc ?q = P_constructed v h" "cq_pushed q = cq_pushed ?q @ [v]"
    | (false) v h where "cq_ppc q = P_idle" "cq_ppc ?q = P_head_loaded v h" "cq_pushed q = cq_pushed ?q"
    using out by (auto split: if_splits)
  then show ?thesis
  proof cases
    case running
    then show ?thesis using inv q keep step(1) by (simp add: client_inv_def after_push_def)
  next
    case true
    then obtain now where "v = cl_payload cl now (cr_value s)" using s(3) by auto
    then show ?thesis
      using true inv q keep s(2) unat_next [OF s(4)] pushed sent_values_snoc [OF s(2)]
      by (simp add: client_inv_def after_push_def)
  next
    case false
    then show ?thesis using inv q keep refused by (simp add: client_inv_def after_push_def)
  qed
qed

end

context spsc_client_laws
begin

lemma inv_c_access:
  assumes inv: "client_inv cl ci C messages s"
    and step: "cq_cpc (cr_queue s) \<noteq> C_idle" "consumer_step (cr_queue s) r"
  shows "\<exists>q. r = Some q \<and> client_inv cl ci C messages (after_pop cl now s q)"
proof -
  let ?q = "cr_queue s"
  have s: "spsc_inv C ?q" "sent_values cl (unat (cr_value s)) (cq_pushed ?q)"
      "length (cq_popped ?q) = unat (cr_expected s)" "cr_expected s < messages"
    using inv step(1) by (auto simp: client_inv_def)
  obtain q where q: "r = Some q" "spsc_inv C q" using spsc_inv_consumer_step [OF s(1) step(2)] by blast
  note keep = consumer_step_keeps [OF step(2) [unfolded q(1)]]
  note out = consumer_outcome [OF step(2) [unfolded q(1)] step(1)]
  consider (running) "cq_cpc q \<noteq> C_idle" "cq_popped q = cq_popped ?q"
    | (true) v t where "cq_cpc q = C_idle" "cq_cpc ?q = C_destroyed v t" "cq_popped q = cq_popped ?q @ [v]"
    | (false) t where "cq_cpc q = C_idle" "cq_cpc ?q = C_tail_loaded t" "cq_popped q = cq_popped ?q"
    using out by (auto split: if_splits)
  then show ?thesis
  proof cases
    case running
    then show ?thesis using inv q keep step(1) by (simp add: client_inv_def after_pop_def)
  next
    case true
    have "length (cq_popped ?q) < length (cq_pushed ?q) \<and> v = cq_pushed ?q ! length (cq_popped ?q)"
      using s(1) true(2) by (simp add: spsc_inv_def counters_inv_def)
    then obtain sent where "v = cl_payload cl sent (cr_expected s)" using sent_values_payload [OF s(2)] s(3) by auto
    then show ?thesis
      using true inv q keep s(3) unat_next [OF s(4)] popped accept by (simp add: client_inv_def after_pop_def)
  next
    case false
    then show ?thesis using inv q keep starved by (simp add: client_inv_def after_pop_def)
  qed
qed

lemma inv_step:
  assumes inv: "client_inv cl ci C messages s" and step: "client_step cl messages s r"
  shows "\<exists>s'. r = Some s' \<and> client_inv cl ci C messages s'"
  using step
proof (cases rule: client_step.cases)
  case (p_call now)
  then show ?thesis
    using inv spsc_inv_push_start [of C "cr_queue s"] by (simp add: client_inv_def) blast
next
  case (p_access r')
  then show ?thesis using inv_p_access [OF inv, of r'] by auto
next
  case p_exit
  then show ?thesis using inv by (auto simp: client_inv_def)
next
  case c_call
  then show ?thesis
    using inv spsc_inv_pop_start [of C "cr_queue s"] by (simp add: client_inv_def)
next
  case (c_access r' now)
  then show ?thesis using inv_c_access [OF inv, of r' now] by auto
next
  case c_exit
  then show ?thesis using inv by (auto simp: client_inv_def)
qed

lemma inv_steps: "client_steps cl messages s s' \<Longrightarrow> client_inv cl ci C messages s \<Longrightarrow> client_inv cl ci C messages s'"
  by (induction rule: client_steps.induct) (auto dest: inv_step)

lemma reachable_inv:
  "static_capacity C \<Longrightarrow> client_steps cl messages (client_init C start) s \<Longrightarrow> client_inv cl ci C messages s"
  using inv_steps inv_init by blast

lemma no_undefined: "client_inv cl ci C messages s \<Longrightarrow> \<not> client_step cl messages s None"
  using inv_step by blast

lemma done_complete:
  assumes inv: "client_inv cl ci C messages s" and "both_done s"
  shows "sent_values cl (unat messages) (cq_popped (cr_queue s))"
    "joined_empty s" "ci messages messages (cr_stats s)"
proof -
  have s: "cr_value s = messages" "cr_expected s = messages"
    using assms by (auto simp: client_inv_def both_done_def)
  then have q: "length (cq_popped (cr_queue s)) = unat messages" "spsc_inv C (cr_queue s)"
      "sent_values cl (unat messages) (cq_pushed (cr_queue s))"
    using inv by (simp_all add: client_inv_def)
  have "cq_popped (cr_queue s) = take (length (cq_popped (cr_queue s))) (cq_pushed (cr_queue s))"
    using q(2) by (simp add: spsc_inv_def)
  then have "cq_popped (cr_queue s) = cq_pushed (cr_queue s)" using q(1,3) by (simp add: sent_values_def)
  then show "sent_values cl (unat messages) (cq_popped (cr_queue s))" using q(3) by simp
  have "counters_inv C (cr_queue s)" using q(2) by (simp add: spsc_inv_def)
  then show "joined_empty s" using q(1,3) by (simp add: joined_empty_def last_messages sent_values_def)
  show "ci messages messages (cr_stats s)" using inv s by (simp add: client_inv_def)
qed

end

section \<open>Completion\<close>

text \<open>What is left to do: four accesses for each value to be sent, five for each to be received, and the
  two exits, if every operation that is started succeeds.\<close>

definition push_work :: "u64 \<Rightarrow> ('a, 'c) client_state \<Rightarrow> nat" where
  "push_work messages s =
     (let p = cq_ppc (cr_queue s); n = unat messages - unat (cr_value s) in
      (if p = P_idle then 4 * n else 4 * (n - 1) + producer_remaining p) + (if cr_p_done s then 0 else 1))"

definition pop_work :: "u64 \<Rightarrow> ('a, 'c) client_state \<Rightarrow> nat" where
  "pop_work messages s =
     (let c = cq_cpc (cr_queue s); n = unat messages - unat (cr_expected s) in
      (if c = C_idle then 5 * n else 5 * (n - 1) + consumer_remaining c) + (if cr_c_done s then 0 else 1))"

definition client_work :: "u64 \<Rightarrow> ('a, 'c) client_state \<Rightarrow> nat" where
  "client_work messages s = push_work messages s + pop_work messages s"

lemma push_keeps_pop_work:
  assumes "producer_step (cr_queue s) (Some q)"
  shows "pop_work messages (after_push cl s q) = pop_work messages s"
  using producer_step_keeps [OF assms]
  by (auto simp: pop_work_def after_push_def Let_def split: producer_pc.splits)

lemma pop_keeps_push_work:
  assumes "consumer_step (cr_queue s) (Some q)"
  shows "push_work messages (after_pop cl now s q) = push_work messages s"
  using consumer_step_keeps [OF assms]
  by (auto simp: push_work_def after_pop_def Let_def split: consumer_pc.splits)

lemma push_work_running:
  assumes "producer_step (cr_queue s) (Some q)" "cq_ppc (cr_queue s) \<noteq> P_idle" "cq_ppc q \<noteq> P_idle"
  shows "push_work messages (after_push cl s q) < push_work messages s"
  using producer_step_progress [OF assms(1,2)] assms(2,3) by (simp add: push_work_def after_push_def Let_def)

lemma pop_work_running:
  assumes "consumer_step (cr_queue s) (Some q)" "cq_cpc (cr_queue s) \<noteq> C_idle" "cq_cpc q \<noteq> C_idle"
  shows "pop_work messages (after_pop cl now s q) < pop_work messages s"
  using consumer_step_progress [OF assms(1,2)] assms(2,3) by (simp add: pop_work_def after_pop_def Let_def)

text \<open>With room in the queue a step of the producer leaves less to do.\<close>

lemma producer_works:
  assumes inv: "client_inv cl ci C messages s" and todo: "\<not> cr_p_done s" "cr_value s < messages"
    and room: "length (cq_pushed (cr_queue s)) < length (cq_popped (cr_queue s)) + unat C"
  shows "\<exists>s'. client_step cl messages s (Some s') \<and> client_work messages s' < client_work messages s"
proof -
  let ?q = "cr_queue s"
  have q: "spsc_inv C ?q" "counters_inv C ?q" "cq_capacity ?q = C" "static_capacity C"
    using inv by (auto simp: client_inv_def spsc_inv_def counters_inv_def)
  have n: "unat (cr_value s) < unat messages" using todo(2) by (simp add: word_less_nat_alt)
  have access: "\<exists>s'. client_step cl messages s (Some s') \<and> client_work messages s' < client_work messages s"
    if st: "producer_step ?q (Some q')" "cq_ppc ?q \<noteq> P_idle" "cq_ppc q' \<noteq> P_idle" for q'
    using p_access [OF todo(1) st(2,1), of cl messages] push_work_running [OF st, of messages cl]
      push_keeps_pop_work [OF st(1), of messages cl] by (auto simp: client_work_def)
  show ?thesis
  proof (cases "cq_ppc ?q")
    case P_idle
    then show ?thesis
      using p_call [OF todo(1) P_idle todo(2), of cl 0] n todo(1)
      by (intro exI conjI) (assumption, simp add: client_work_def push_work_def pop_work_def Let_def)
  next
    case (P_head_loaded v h)
    let ?T = "length (cq_popped ?q)"
    have "h = of_nat (length (cq_pushed ?q))" using q(1) P_head_loaded by (simp add: spsc_inv_def)
    moreover have "?T \<le> length (cq_pushed ?q)" "cq_p_read ?q \<le> ?T" using q(2) by (simp_all add: counters_inv_def)
    ultimately have "\<not> C \<le> h - fst (cq_tails ?q ! ?T)"
      using of_nat_diff_counter [OF q(4), of ?T "length (cq_pushed ?q)"] room
      by (simp add: tail_message [OF q(2) latest_messages(2) [OF q(2)]] word_le_nat_alt)
    then have "producer_step ?q (Some ((acquire_tail ?T ?q)\<lparr>cq_ppc := P_has_room v h\<rparr>))"
      using push_room [OF P_head_loaded \<open>cq_p_read ?q \<le> ?T\<close> latest_messages(2) [OF q(2)]] q(3) by simp
    from access [OF this] show ?thesis using P_head_loaded by simp
  next
    case (P_has_room v h)
    then obtain q' where "push_construct v h ?q = Some q'" using spsc_inv_push_construct [OF q(1)] by blast
    then show ?thesis
      using access [of q'] producer_step.push_construct [OF P_has_room] push_construct_Some(2) [of v h ?q q'] P_has_room
      by simp
  next
    case (P_constructed v h)
    note st = producer_step.push_publish [OF P_constructed]
    have "push_work messages (after_push cl s (push_publish v h ?q)) < push_work messages s"
      using P_constructed n unat_next(1) [OF todo(2)]
      by (simp add: after_push_def push_publish_def push_work_def Let_def)
    then show ?thesis
      using p_access [OF todo(1) _ st, of cl messages] P_constructed push_keeps_pop_work [OF st, of messages cl]
      by (auto simp: client_work_def)
  qed
qed

text \<open>With a value in the queue a step of the consumer leaves less to do.\<close>

lemma consumer_works:
  assumes inv: "client_inv cl ci C messages s" and todo: "\<not> cr_c_done s" "cr_expected s < messages"
    and accept: "\<And>e now. cl_accept cl e (cl_payload cl now e)"
    and some: "length (cq_popped (cr_queue s)) < length (cq_pushed (cr_queue s))"
  shows "\<exists>s'. client_step cl messages s (Some s') \<and> client_work messages s' < client_work messages s"
proof -
  let ?q = "cr_queue s"
  have q: "spsc_inv C ?q" "counters_inv C ?q" "static_capacity C"
    using inv by (auto simp: client_inv_def spsc_inv_def)
  have n: "unat (cr_expected s) < unat messages" using todo(2) by (simp add: word_less_nat_alt)
  have access: "\<exists>s'. client_step cl messages s (Some s') \<and> client_work messages s' < client_work messages s"
    if st: "consumer_step ?q (Some q')" "cq_cpc ?q \<noteq> C_idle" "cq_cpc q' \<noteq> C_idle" for q'
    using c_access [OF todo(1) st(2,1), of cl messages 0] pop_work_running [OF st, of messages cl 0]
      pop_keeps_push_work [OF st(1), of messages cl 0] by (auto simp: client_work_def)
  show ?thesis
  proof (cases "cq_cpc ?q")
    case C_idle
    then show ?thesis
      using c_call [OF todo(1) C_idle todo(2), of cl] n todo(1)
      by (intro exI conjI) (assumption, simp add: client_work_def push_work_def pop_work_def Let_def)
  next
    case (C_tail_loaded t)
    let ?H = "length (cq_pushed ?q)"
    have "t = of_nat (length (cq_popped ?q))" using q(1) C_tail_loaded by (simp add: spsc_inv_def)
    moreover have le: "?H \<le> length (cq_popped ?q) + unat C" "cq_c_read ?q \<le> ?H"
      using q(2) by (simp_all add: counters_inv_def)
    ultimately have "t \<noteq> fst (cq_heads ?q ! ?H)"
      using of_nat_counter_eq_iff [OF q(3) less_imp_le [OF some] le(1)] some
      by (simp add: head_message [OF q(2) latest_messages(4) [OF q(2)]])
    then have "consumer_step ?q (Some ((acquire_head ?H ?q)\<lparr>cq_cpc := C_nonempty t\<rparr>))"
      using pop_nonempty [OF C_tail_loaded le(2) latest_messages(4) [OF q(2)]] by simp
    from access [OF this] show ?thesis using C_tail_loaded by simp
  next
    case (C_nonempty t)
    then obtain q' where q': "pop_move t ?q = Some q'" using spsc_inv_pop_move [OF q(1)] by blast
    then show ?thesis
      using access [of q'] consumer_step.pop_move [OF C_nonempty] pop_move_Some(1) [OF q'] C_nonempty by auto
  next
    case (C_moved v t)
    then obtain q' where q': "pop_destroy v t ?q = Some q'" using spsc_inv_pop_destroy [OF q(1)] by blast
    then show ?thesis
      using access [of q'] consumer_step.pop_destroy [OF C_moved] pop_destroy_Some(2) [OF q'] C_moved by simp
  next
    case (C_destroyed v t)
    note st = consumer_step.pop_publish [OF C_destroyed]
    have "v = cq_pushed ?q ! length (cq_popped ?q)" using q(1) C_destroyed by (simp add: spsc_inv_def)
    moreover have "sent_values cl (unat (cr_value s)) (cq_pushed ?q)" "length (cq_popped ?q) = unat (cr_expected s)"
      using inv by (simp_all add: client_inv_def)
    ultimately obtain sent where "v = cl_payload cl sent (cr_expected s)"
      using sent_values_payload [of cl _ "cq_pushed ?q" "cr_expected s"] some by metis
    then have "pop_work messages (after_pop cl 0 s (pop_publish v t ?q)) < pop_work messages s"
      using C_destroyed n unat_next(1) [OF todo(2)] accept
      by (simp add: after_pop_def pop_publish_def pop_work_def Let_def)
    then show ?thesis
      using c_access [OF todo(1) _ st, of cl messages 0] C_destroyed pop_keeps_push_work [OF st, of messages cl 0]
      by (auto simp: client_work_def)
  qed
qed

context spsc_client_laws
begin

lemma step_works:
  assumes inv: "client_inv cl ci C messages s" and "\<not> both_done s"
  shows "\<exists>s'. client_step cl messages s (Some s') \<and> client_work messages s' < client_work messages s"
proof -
  let ?q = "cr_queue s"
  have inv_q: "spsc_inv C ?q" using inv by (simp add: client_inv_def)
  have q: "length (cq_pushed ?q) = unat (cr_value s)" "length (cq_popped ?q) = unat (cr_expected s)"
    using inv by (simp_all add: client_inv_def sent_values_def)
  have sub: "length (cq_popped ?q) \<le> length (cq_pushed ?q)" and C: "static_capacity C"
    using inv_q by (simp_all add: spsc_inv_def counters_inv_def)
  have le: "unat (cr_value s) \<le> unat messages" "unat (cr_expected s) \<le> unat messages"
    and fin: "cr_p_done s \<longrightarrow> cr_value s = messages" "cr_c_done s \<longrightarrow> cr_expected s = messages"
    using inv by (simp_all add: client_inv_def word_le_nat_alt)
  have eq: "x = y" if "unat x = unat y" for x y :: u64 using that by (simp add: unsigned_word_eqI)
  have "unat (cr_expected s) \<le> unat (cr_value s)" using q sub by simp
  then consider "unat (cr_expected s) < unat (cr_value s)"
    | "cr_expected s = cr_value s" "cr_value s < messages"
    | "cr_expected s = messages" "cr_value s = messages"
    using le eq [of "cr_expected s" "cr_value s"] eq [of "cr_value s" messages]
    by (auto simp: le_less word_less_nat_alt)
  then show ?thesis
  proof cases
    case 1
    then have "cr_expected s < messages" using le by (simp add: word_less_nat_alt)
    moreover from this have "\<not> cr_c_done s" using fin(2) by auto
    ultimately show ?thesis using consumer_works [OF inv _ _ accept] q(1,2) 1 by simp
  next
    case 2
    have "\<not> cr_p_done s" using fin(1) 2 by auto
    then show ?thesis
      using producer_works [OF inv _ 2(2)] q(1,2) 2(1) static_capacity_bounds(1) [OF C] by simp
  next
    case 3
    then have idle: "cq_ppc ?q = P_idle" "cq_cpc ?q = C_idle" using inv by (auto simp: client_inv_def)
    note work = client_work_def push_work_def pop_work_def Let_def
    show ?thesis
    proof (cases "cr_p_done s")
      case True
      then have "\<not> cr_c_done s" using assms(2) by (simp add: both_done_def)
      then show ?thesis using c_exit [of s messages cl] 3 idle
        by (intro exI [of _ "s\<lparr>cr_c_done := True\<rparr>"]) (simp add: work)
    next
      case False
      then show ?thesis using p_exit [of s messages cl] 3 idle
        by (intro exI [of _ "s\<lparr>cr_p_done := True\<rparr>"]) (simp add: work)
    qed
  qed
qed

lemma completes:
  "client_inv cl ci C messages s \<Longrightarrow> \<exists>s'. client_steps cl messages s s' \<and> both_done s'"
proof (induction "client_work messages s" arbitrary: s rule: less_induct)
  case less
  show ?case
  proof (cases "both_done s")
    case False
    then obtain s1 where s1: "client_step cl messages s (Some s1)" "client_work messages s1 < client_work messages s"
      using step_works [OF less.prems] by blast
    have "client_inv cl ci C messages s1" using inv_step [OF less.prems s1(1)] by simp
    from less.hyps [OF s1(2) this] show ?thesis using s1(1) steps_step by blast
  qed (blast intro: steps_refl)
qed

end

section \<open>The stress tool never fails\<close>

interpretation stress: spsc_client_laws stress_client "\<lambda>v e c. ss_consumed c = e" stress_start
  by unfold_locales (simp_all add: stress_client_def stress_start_def)

lemma stress_parse_messages:
  "stress_parse_args args options = Parse_ok options' \<Longrightarrow> so_stress_messages options \<noteq> 0 \<Longrightarrow>
     so_stress_messages options' \<noteq> 0"
  by (induction args options rule: stress_parse_args.induct) (auto split: if_splits option.splits)

lemma stress_main_runs:
  assumes "stress_main args = Inr (C, messages)"
  shows "static_capacity C" "messages \<noteq> 0"
proof -
  obtain options where options: "stress_parse_args (tl args) default_stress_options = Parse_ok options"
      "C = so_stress_capacity options" "messages = so_stress_messages options"
      "so_stress_capacity options \<in> {64, 256, 1024, 4096, 65536}"
    using assms by (auto simp: stress_main_def split: stress_parse.splits if_splits)
  have "x \<in> {64, 256, 1024, 4096, 65536} \<Longrightarrow> static_capacity x" for x
    by (auto simp: static_capacity_def is_power_of_two_def)
  then show "static_capacity C" using options(2,4) by blast
  show "messages \<noteq> 0"
    using stress_parse_messages [OF options(1)] options(3) by (simp add: default_stress_options_def)
qed

text \<open>
  C8. The validation of the stress tool. For every command line it runs with and every interleaving of
  its two threads: no step is undefined behaviour; the consumer never reports a failure; when both
  threads have ended the check that the tool prints is "passed"; and from every reachable state both
  threads can still end. A reported failure would therefore be a failure of the platform.
\<close>

theorem stress_validation_passes:
  assumes "stress_main args = Inr (C, messages)"
    and "client_steps stress_client messages (client_init C stress_start) s"
  shows "\<not> client_step stress_client messages s None \<and> \<not> cr_failed s \<and>
    (both_done s \<longrightarrow> stress_passed messages s) \<and>
    (\<exists>s'. client_steps stress_client messages s s' \<and> both_done s' \<and> stress_passed messages s')"
proof -
  have inv: "client_inv stress_client (\<lambda>v e c. ss_consumed c = e) C messages s"
    using stress.reachable_inv [OF stress_main_runs(1) [OF assms(1)] assms(2)] .
  have passed: "stress_passed messages t"
    if "client_inv stress_client (\<lambda>v e c. ss_consumed c = e) C messages t" "both_done t" for t
    using stress.done_complete [OF that] that(1) by (simp add: stress_passed_def client_inv_def)
  obtain s' where s': "client_steps stress_client messages s s'" "both_done s'"
    using stress.completes [OF inv] by blast
  then have "stress_passed messages s'" using passed stress.inv_steps [OF _ inv] by blast
  then show ?thesis
    using stress.no_undefined [OF inv] inv passed [OF inv] s' by (auto simp: client_inv_def)
qed

theorem stress_validation_passes_witness:
  "\<exists>s. client_steps stress_client 5 (client_init 64 stress_start) s \<and> both_done s \<and> stress_passed 5 s"
proof -
  have "stress_main [''stress_spsc'', ''--messages'', ''5'', ''--capacity'', ''64''] = Inr (64, 5)"
    by (simp add: stress_main_def default_stress_options_def stress_parse_u64_def from_chars_u64_def
        decimal_value_def digit_value_def is_digit_def Let_def)
  from stress_validation_passes [OF this steps_refl] show ?thesis by blast
qed

section \<open>The counters of the benchmark\<close>

definition bench_counts :: "u64 \<Rightarrow> u64 \<Rightarrow> bench_stats \<Rightarrow> bool" where
  "bench_counts v e c \<longleftrightarrow> bs_counters c = counters_init\<lparr>ct_published := v, ct_consumed := e,
     ct_publish_failed_full := bs_full_retries c, ct_consume_failed_empty := bs_empty_retries c\<rparr>"

lemma bench_laws: "spsc_client_laws (bench_client n) bench_counts bench_start"
  by unfold_locales (simp_all add: bench_client_def bench_start_def bench_counts_def counter_simps counters_init_def)

interpretation bench: spsc_client_laws "bench_client n" bench_counts bench_start for n
  by (rule bench_laws)

text \<open>
  C27. What \<open>aether_bench\<close> reports. For every command line it accepts (other than a request for help)
  the run is dispatched with the requested payload size, capacity and number of messages, and for every interleaving of its two
  threads: no step is undefined behaviour; the run can always be completed; and when it has ended the
  consumer has received the payloads of all messages in order, the metrics say that \<open>messages\<close> were
  published and consumed, the failures they count are the retries that the two loops counted, and
  every other counter is zero. The report that is written says the same.
\<close>

theorem bench_report_exact:
  assumes "parse_bench_args args = Expected_value options" "\<not> bo_help options"
    and "client_steps (bench_client (bo_payload_size options)) (bo_messages options)
      (client_init (bo_capacity options) bench_start) s"
  shows "bench_main args = Inr (Some (bo_payload_size options, bo_capacity options), bo_messages options) \<and>
    \<not> client_step (bench_client (bo_payload_size options)) (bo_messages options) s None \<and>
    (\<exists>s'. client_steps (bench_client (bo_payload_size options)) (bo_messages options) s s' \<and> both_done s') \<and>
    (both_done s \<longrightarrow>
       cq_popped (cr_queue s) = map (\<lambda>i. bench_payload (bo_payload_size options) (of_nat i)) [0..<unat (bo_messages options)] \<and>
       bs_counters (cr_stats s) = counters_init\<lparr>ct_published := bo_messages options, ct_consumed := bo_messages options,
         ct_publish_failed_full := bs_full_retries (cr_stats s), ct_consume_failed_empty := bs_empty_retries (cr_stats s)\<rparr> \<and>
       (\<exists>full empty. bench_write options (cr_stats s) =
          \<lparr>br_messages = bo_messages options, br_payload_size = bo_payload_size options, br_capacity = bo_capacity options,
           br_full_retries = full, br_empty_retries = empty, br_published = bo_messages options,
           br_consumed = bo_messages options, br_publish_failed_full = full, br_consume_failed_empty = empty\<rparr>))"
proof -
  have "static_capacity (bo_capacity options)"
    using parse_bench_args_supported [OF assms(1)] supported_capacity_static
    by (auto simp: static_capacity_def is_power_of_two_def)
  then have inv: "client_inv (bench_client (bo_payload_size options)) bench_counts (bo_capacity options) (bo_messages options) s"
    using bench.reachable_inv assms(3) by blast
  have "bench_dispatch options = Some (bo_payload_size options, bo_capacity options)"
    using parse_bench_args_supported [OF assms(1)]
    by (auto simp: bench_dispatch_def dispatch_capacity_def supported_capacities_def supported_payload_sizes_def)
  then have main: "bench_main args = Inr (Some (bo_payload_size options, bo_capacity options), bo_messages options)"
    using assms(1,2) by (simp add: bench_main_def)
  have "\<exists>full empty. bench_write options c =
      \<lparr>br_messages = bo_messages options, br_payload_size = bo_payload_size options, br_capacity = bo_capacity options,
       br_full_retries = full, br_empty_retries = empty, br_published = bo_messages options,
       br_consumed = bo_messages options, br_publish_failed_full = full, br_consume_failed_empty = empty\<rparr>"
    if "bench_counts (bo_messages options) (bo_messages options) c" for c
    using that by (simp add: bench_write_def bench_counts_def counters_snapshot_def)
  with main show ?thesis
    using bench.no_undefined [OF inv] bench.completes [OF inv] bench.done_complete(3) [OF inv]
      sent_values_fixed [OF bench.done_complete(1) [OF inv], of "bench_payload (bo_payload_size options)"]
    by (simp add: bench_counts_def) (simp add: bench_client_def)
qed

theorem bench_report_exact_witness:
  "\<exists>s. client_steps (bench_client 8) 3 (client_init 64 bench_start) s \<and> both_done s \<and>
     ct_published (bs_counters (cr_stats s)) = 3"
proof -
  let ?args = "[''aether_bench'', ''--messages=3'', ''--payload-size'', ''8'', ''--capacity=64'']"
  let ?options = "default_BenchOptions\<lparr>bo_messages := 3, bo_payload_size := 8, bo_capacity := 64\<rparr>"
  have p: "parse_bench_args ?args = Expected_value ?options" "bo_payload_size ?options = 8"
      "bo_messages ?options = 3" "bo_capacity ?options = 64" "\<not> bo_help ?options"
    by (simp_all add: parse_bench_args_def parse_loop.simps bench_body_def is_help_def matches_def
        option_supported_def option_u64_def arg_value_def expected_bind_def parse_size_def parse_u64_def
        from_chars_u64_def is_digit_def decimal_value_def digit_value_def is_supported_def
        supported_capacities_def supported_payload_sizes_def default_BenchOptions_def Let_def)
  have "\<exists>s'. client_steps (bench_client 8) 3 (client_init 64 bench_start) s' \<and> both_done s'"
    using bench_report_exact [OF p(1,5), of "client_init 64 bench_start"] steps_refl unfolding p(2-4) by blast
  then obtain s where s: "client_steps (bench_client 8) 3 (client_init 64 bench_start) s" "both_done s" by blast
  then have "bs_counters (cr_stats s) = counters_init\<lparr>ct_published := 3, ct_consumed := 3,
      ct_publish_failed_full := bs_full_retries (cr_stats s), ct_consume_failed_empty := bs_empty_retries (cr_stats s)\<rparr>"
    using bench_report_exact [OF p(1,5), of s] unfolding p(2-4) by blast
  then have "ct_published (bs_counters (cr_stats s)) = 3" by simp
  then show ?thesis using s by blast
qed

end
