(* ===== verification/Zero_Copy_Spsc.thy ===== *)
theory Zero_Copy_Spsc
  imports Spsc_Ring_Buffer
begin

text \<open>
  \<open>include/aether/zero_copy_spsc.hpp\<close>: the queue whose producer constructs a value in place. A
  producer reserves the next slot, constructs in it (possibly several times), and commits or cancels.

  \<^item> The queue's fields and operations are those of the ring buffer plus the flag
    \<open>active_reservation_\<close>. The \<open>Reservation\<close> is a separate object; \<open>rv_queue\<close> says whether its
    pointer \<open>queue_\<close> is non-null (it can only be the one queue modelled), \<open>rv_ptr\<close> is \<open>ptr_\<close> as the
    index of the slot, \<open>None\<close> for a null pointer.
  \<^item> A use of a null \<open>ptr_\<close>, a construction over a live object and a destruction of a raw slot are
    undefined behaviour: \<open>None\<close>.
  \<^item> Shown: the refinement of a list queue with a reservation phase, the bounded FIFO contract of
    reserve-construct-commit, and what the destructors leave alive.
\<close>

section \<open>Model\<close>

record 'a ZeroCopySpsc =
  zc_capacity :: size_t
  zc_buffer :: "'a option list"
  zc_head :: size_t
  zc_tail :: size_t
  zc_active :: bool

record Reservation =
  rv_queue :: bool
  rv_index :: size_t
  rv_ptr :: "nat option"
  rv_constructed :: bool

definition zc_init :: "size_t \<Rightarrow> 'a ZeroCopySpsc" where
  "zc_init C = \<lparr>zc_capacity = C, zc_buffer = replicate (unat C) None, zc_head = 0, zc_tail = 0,
     zc_active = False\<rparr>"

definition default_Reservation :: Reservation where
  "default_Reservation = \<lparr>rv_queue = False, rv_index = 0, rv_ptr = None, rv_constructed = False\<rparr>"

definition reservation_construct ::
    "'a \<Rightarrow> Reservation \<Rightarrow> 'a ZeroCopySpsc \<Rightarrow> (Reservation \<times> 'a ZeroCopySpsc) option" where
  "reservation_construct v r q =
     do { p \<leftarrow> rv_ptr r;
          buf \<leftarrow> (if rv_constructed r then destroy_at (zc_buffer q) p else Some (zc_buffer q));
          buf \<leftarrow> construct_at buf p v;
          Some (r\<lparr>rv_constructed := True\<rparr>, q\<lparr>zc_buffer := buf\<rparr>) }"

definition reservation_get :: "Reservation \<Rightarrow> nat option" where
  "reservation_get r = (if rv_constructed r then rv_ptr r else None)"

definition reservation_commit ::
    "Reservation \<Rightarrow> 'a ZeroCopySpsc \<Rightarrow> bool \<times> Reservation \<times> 'a ZeroCopySpsc" where
  "reservation_commit r q =
     (if \<not> rv_queue r \<or> \<not> rv_constructed r then (False, r, q)
      else (True, r\<lparr>rv_queue := False, rv_ptr := None, rv_constructed := False\<rparr>,
            q\<lparr>zc_head := rv_index r + 1, zc_active := False\<rparr>))"

definition reservation_cancel ::
    "Reservation \<Rightarrow> 'a ZeroCopySpsc \<Rightarrow> (Reservation \<times> 'a ZeroCopySpsc) option" where
  "reservation_cancel r q =
     (if \<not> rv_queue r then Some (r, q)
      else do {
        buf \<leftarrow> (if rv_constructed r then rv_ptr r \<bind> destroy_at (zc_buffer q) else Some (zc_buffer q));
        Some (r\<lparr>rv_queue := False, rv_ptr := None, rv_constructed := False\<rparr>,
              q\<lparr>zc_buffer := buf, zc_active := False\<rparr>) })"

definition reservation_destroy :: "Reservation \<Rightarrow> 'a ZeroCopySpsc \<Rightarrow> 'a ZeroCopySpsc option" where
  "reservation_destroy r q = map_option snd (reservation_cancel r q)"

text \<open>\<open>move_from\<close>: the new value of \<open>*this\<close> and of \<open>other\<close>.\<close>

definition reservation_move_from :: "Reservation \<Rightarrow> Reservation \<times> Reservation" where
  "reservation_move_from other =
     (other, other\<lparr>rv_queue := False, rv_ptr := None, rv_constructed := False\<rparr>)"

definition reservation_move_assign ::
    "bool \<Rightarrow> Reservation \<Rightarrow> Reservation \<Rightarrow> 'a ZeroCopySpsc
      \<Rightarrow> (Reservation \<times> Reservation \<times> 'a ZeroCopySpsc) option" where
  "reservation_move_assign self this other q =
     (if self then Some (this, other, q)
      else do {
        (_, q) \<leftarrow> reservation_cancel this q;
        let (this, other) = reservation_move_from other;
        Some (this, other, q) })"

definition zc_try_reserve :: "'a ZeroCopySpsc \<Rightarrow> Reservation option \<times> 'a ZeroCopySpsc" where
  "zc_try_reserve q =
     (if zc_active q then (None, q)
      else
        let q = q\<lparr>zc_active := True\<rparr>; head = zc_head q; tail = zc_tail q in
        if head - tail \<ge> zc_capacity q then (None, q\<lparr>zc_active := False\<rparr>)
        else (Some \<lparr>rv_queue = True, rv_index = head, rv_ptr = Some (slot_index (zc_capacity q) head),
                    rv_constructed = False\<rparr>, q))"

definition zc_try_consume ::
    "'a ZeroCopySpsc \<Rightarrow> 'a \<Rightarrow> (bool \<times> 'a \<times> 'a ZeroCopySpsc) option" where
  "zc_try_consume q out =
     (let tail = zc_tail q; head = zc_head q in
      if tail = head then Some (False, out, q)
      else do {
        let slot = slot_index (zc_capacity q) tail;
        v \<leftarrow> slot_value (zc_buffer q) slot;
        buf \<leftarrow> destroy_at (zc_buffer q) slot;
        Some (True, v, q\<lparr>zc_buffer := buf, zc_tail := tail + 1\<rparr>) })"

definition zc_empty :: "'a ZeroCopySpsc \<Rightarrow> bool" where
  "zc_empty q \<longleftrightarrow> zc_head q = zc_tail q"

definition zc_size_approx :: "'a ZeroCopySpsc \<Rightarrow> size_t" where
  "zc_size_approx q = zc_head q - zc_tail q"

definition zc_full :: "'a ZeroCopySpsc \<Rightarrow> bool" where
  "zc_full q \<longleftrightarrow> zc_size_approx q \<ge> zc_capacity q"

text \<open>\<open>destroy_remaining\<close>, the same loop as in the ring buffer.\<close>

definition zc_destroy :: "'a ZeroCopySpsc \<Rightarrow> 'a option list option" where
  "zc_destroy q = destroy_loop (zc_capacity q) (zc_buffer q) (zc_tail q) (zc_head q)"

section \<open>Specification\<close>

text \<open>
  The abstract state is the list of committed values and the phase of the producer's reservation.
  The client keeps one \<open>Reservation\<close> object and moves a granted reservation into it.
\<close>

datatype 'a zc_phase = Free | Reserved | Built 'a

datatype 'a zc_op = Reserve | Construct 'a | Commit | Cancel | Consume

datatype 'a zc_res = Granted bool | Constructed | Committed bool | Cancelled | Consumed "'a option"

fun zc_spec_step ::
    "nat \<Rightarrow> 'a list \<times> 'a zc_phase \<Rightarrow> 'a zc_op \<Rightarrow> ('a zc_res \<times> 'a list \<times> 'a zc_phase) option" where
  "zc_spec_step n (xs, ph) Reserve =
     (if ph = Free \<and> length xs < n then Some (Granted True, xs, Reserved)
      else Some (Granted False, xs, ph))"
| "zc_spec_step n (xs, ph) (Construct v) =
     (if ph = Free then None else Some (Constructed, xs, Built v))"
| "zc_spec_step n (xs, ph) Commit =
     (case ph of Built v \<Rightarrow> Some (Committed True, xs @ [v], Free) | _ \<Rightarrow> Some (Committed False, xs, ph))"
| "zc_spec_step n (xs, ph) Cancel = Some (Cancelled, xs, Free)"
| "zc_spec_step n (xs, ph) Consume =
     (case xs of [] \<Rightarrow> Some (Consumed None, xs, ph) | x # xs \<Rightarrow> Some (Consumed (Some x), xs, ph))"

fun zc_step ::
    "'a \<Rightarrow> Reservation \<times> 'a ZeroCopySpsc \<Rightarrow> 'a zc_op
      \<Rightarrow> ('a zc_res \<times> Reservation \<times> 'a ZeroCopySpsc) option" where
  "zc_step out (r, q) Reserve =
     (case zc_try_reserve q of
        (None, q) \<Rightarrow> Some (Granted False, r, q)
      | (Some r', q) \<Rightarrow>
          map_option (\<lambda>(r, _, q). (Granted True, r, q)) (reservation_move_assign False r r' q))"
| "zc_step out (r, q) (Construct v) =
     map_option (\<lambda>(r, q). (Constructed, r, q)) (reservation_construct v r q)"
| "zc_step out (r, q) Commit = (case reservation_commit r q of (b, r, q) \<Rightarrow> Some (Committed b, r, q))"
| "zc_step out (r, q) Cancel = map_option (\<lambda>(r, q). (Cancelled, r, q)) (reservation_cancel r q)"
| "zc_step out (r, q) Consume =
     map_option (\<lambda>(b, x, q). (Consumed (if b then Some x else None), r, q)) (zc_try_consume q out)"

fun run_ops :: "('s \<Rightarrow> 'o \<Rightarrow> ('r \<times> 's) option) \<Rightarrow> 's \<Rightarrow> 'o list \<Rightarrow> ('r list \<times> 's) option" where
  "run_ops step s [] = Some ([], s)"
| "run_ops step s (p # ps) =
     do { (r, s) \<leftarrow> step s p; (rs, s) \<leftarrow> run_ops step s ps; Some (r # rs, s) }"

section \<open>Representation\<close>

definition zc_ring :: "'a ZeroCopySpsc \<Rightarrow> 'a SpscRingBuffer" where
  "zc_ring q = \<lparr>rb_capacity = zc_capacity q, rb_buffer = zc_buffer q, rb_head = zc_head q,
     rb_tail = zc_tail q\<rparr>"

definition head_slot :: "'a ZeroCopySpsc \<Rightarrow> nat" where
  "head_slot q = slot_index (zc_capacity q) (zc_head q)"

text \<open>The queue without the object that is under construction.\<close>

definition without_pending :: "'a ZeroCopySpsc \<Rightarrow> 'a ZeroCopySpsc" where
  "without_pending q = q\<lparr>zc_buffer := (zc_buffer q)[head_slot q := None]\<rparr>"

definition holds_slot :: "Reservation \<Rightarrow> 'a ZeroCopySpsc \<Rightarrow> 'a list \<Rightarrow> bool" where
  "holds_slot r q xs \<longleftrightarrow> rv_queue r \<and> zc_active q \<and> rv_index r = zc_head q \<and>
     rv_ptr r = Some (head_slot q) \<and> length xs < unat (zc_capacity q)"

fun zc_rep :: "Reservation \<times> 'a ZeroCopySpsc \<Rightarrow> 'a list \<times> 'a zc_phase \<Rightarrow> bool" where
  "zc_rep (r, q) (xs, Free) \<longleftrightarrow> \<not> rv_queue r \<and> rv_ptr r = None \<and> \<not> rv_constructed r \<and> \<not> zc_active q \<and>
     ring_rep (zc_ring q) xs"
| "zc_rep (r, q) (xs, Reserved) \<longleftrightarrow> holds_slot r q xs \<and> \<not> rv_constructed r \<and> ring_rep (zc_ring q) xs"
| "zc_rep (r, q) (xs, Built v) \<longleftrightarrow> holds_slot r q xs \<and> rv_constructed r \<and>
     zc_buffer q ! head_slot q = Some v \<and> ring_rep (zc_ring (without_pending q)) xs"

lemma zc_ring_simps [simp]:
  "rb_capacity (zc_ring q) = zc_capacity q" "rb_buffer (zc_ring q) = zc_buffer q"
  "rb_head (zc_ring q) = zc_head q" "rb_tail (zc_ring q) = zc_tail q"
  by (simp_all add: zc_ring_def)

lemma without_pending_simps [simp]:
  "zc_capacity (without_pending q) = zc_capacity q" "zc_head (without_pending q) = zc_head q"
  "zc_tail (without_pending q) = zc_tail q" "zc_active (without_pending q) = zc_active q"
  "zc_buffer (without_pending q) = (zc_buffer q)[head_slot q := None]"
  by (simp_all add: without_pending_def)

lemma ring_rep_cong:
  "rb_capacity q = rb_capacity q' \<Longrightarrow> rb_buffer q = rb_buffer q' \<Longrightarrow> rb_head q = rb_head q' \<Longrightarrow>
   rb_tail q = rb_tail q' \<Longrightarrow> ring_rep q xs \<longleftrightarrow> ring_rep q' xs"
  by (simp add: ring_rep_def)

lemma head_slot_simps [simp]:
  "head_slot (q\<lparr>zc_buffer := b\<rparr>) = head_slot q" "head_slot (q\<lparr>zc_active := a\<rparr>) = head_slot q"
  "head_slot (q\<lparr>zc_tail := t\<rparr>) = head_slot q"
  by (simp_all add: head_slot_def)

lemma free_head_slot:
  assumes "ring_rep (zc_ring q) xs" "length xs < unat (zc_capacity q)"
  shows "head_slot q < length (zc_buffer q)" "zc_buffer q ! head_slot q = None" "without_pending q = q"
    "(zc_buffer q)[head_slot q := None] = zc_buffer q"
proof -
  show "head_slot q < length (zc_buffer q)"
    using assms(1) slot_index_less by (auto simp: ring_rep_def head_slot_def)
  have "zc_buffer q ! slot_index (zc_capacity q) (zc_tail q + of_nat (length xs)) = None"
    using assms by (simp add: ring_rep_def)
  then show none: "zc_buffer q ! head_slot q = None" using assms(1) by (simp add: ring_rep_def head_slot_def)
  show "without_pending q = q" "(zc_buffer q)[head_slot q := None] = zc_buffer q"
    using none list_update_id [of "zc_buffer q" "head_slot q"] by (simp_all add: without_pending_def)
qed

lemma pending_head_slot:
  "ring_rep (zc_ring (without_pending q)) xs \<Longrightarrow> head_slot q < length (zc_buffer q)"
  using slot_index_less by (auto simp: ring_rep_def head_slot_def)

text \<open>Consuming is \<open>try_pop\<close> of the ring.\<close>

lemma zc_consume_ring:
  "zc_try_consume q out = map_option (\<lambda>(b, x, m). (b, x, q\<lparr>zc_buffer := rb_buffer m, zc_tail := rb_tail m\<rparr>))
     (ring_try_pop (zc_ring q) out)"
  by (auto simp: zc_try_consume_def ring_try_pop_def Let_def split: option.splits bind_splits)

lemma zc_consume_rep:
  assumes "ring_rep (zc_ring q) xs"
  shows "\<exists>b x q'. zc_try_consume q out = Some (b, x, q') \<and> ring_rep (zc_ring q') (tl xs) \<and>
    b = (xs \<noteq> []) \<and> (b \<longrightarrow> x = hd xs) \<and> (\<not> b \<longrightarrow> q' = q) \<and>
    zc_head q' = zc_head q \<and> zc_capacity q' = zc_capacity q \<and> zc_active q' = zc_active q"
proof (cases xs)
  case Nil
  then show ?thesis using ring_try_pop_empty [of "zc_ring q" out] assms
    by (intro exI [of _ False] exI [of _ out] exI [of _ q]) (simp add: zc_consume_ring)
next
  case (Cons x ys)
  then obtain m where m: "ring_try_pop (zc_ring q) out = Some (True, x, m)" "ring_rep m ys"
    using ring_try_pop_some [of "zc_ring q" x ys out] assms by auto
  then have "ring_rep (zc_ring (q\<lparr>zc_buffer := rb_buffer m, zc_tail := rb_tail m\<rparr>)) ys"
    using ring_try_pop_head [OF m(1)] by (subst ring_rep_cong [of _ m]) simp_all
  then show ?thesis
    using Cons m(1)
    by (intro exI [of _ True] exI [of _ x] exI [of _ "q\<lparr>zc_buffer := rb_buffer m, zc_tail := rb_tail m\<rparr>"])
      (simp add: zc_consume_ring)
qed

text \<open>Consuming does not touch the object under construction.\<close>

lemma zc_consume_pending:
  assumes rep: "ring_rep (zc_ring (without_pending q)) xs" and room: "length xs < unat (zc_capacity q)"
  shows "zc_try_consume (without_pending q) out =
     map_option (\<lambda>(b, x, q). (b, x, without_pending q)) (zc_try_consume q out)"
    "zc_try_consume q out = Some (b, x, q') \<Longrightarrow> zc_buffer q' ! head_slot q = zc_buffer q ! head_slot q"
proof -
  let ?p = "head_slot q" and ?t = "slot_index (zc_capacity q) (zc_tail q)"
  have C: "static_capacity (zc_capacity q)" and head: "zc_head q = zc_tail q + of_nat (length xs)"
    using rep by (simp_all add: ring_rep_def)
  have diff: "?t \<noteq> ?p" if "zc_tail q \<noteq> zc_head q"
  proof -
    have "length xs \<noteq> 0" using that ring_rep_empty_iff [OF rep] by auto
    then show ?thesis
      using slot_index_inj [OF C, of 0 "length xs" "zc_tail q"] room by (simp add: head_slot_def head)
  qed
  show "zc_try_consume (without_pending q) out =
     map_option (\<lambda>(b, x, q). (b, x, without_pending q)) (zc_try_consume q out)"
    using diff by (auto simp: zc_try_consume_def Let_def slot_value_def destroy_at_def
      without_pending_def list_update_swap)
  show "zc_try_consume q out = Some (b, x, q') \<Longrightarrow> zc_buffer q' ! ?p = zc_buffer q ! ?p"
    using diff by (auto simp: zc_try_consume_def Let_def bind_eq_Some_conv destroy_at_def split: if_splits)
qed

lemma zc_commit_rep:
  assumes "zc_rep (r, q) (xs, Built v)"
  shows "ring_rep (zc_ring (q\<lparr>zc_head := zc_head q + 1, zc_active := False\<rparr>)) (xs @ [v])"
proof -
  let ?m = "zc_ring (without_pending q)"
  have rep: "ring_rep ?m xs" and room: "length xs < unat (rb_capacity ?m)"
    and v: "zc_buffer q ! head_slot q = Some v"
    using assms by (simp_all add: holds_slot_def)
  obtain m' where push: "ring_try_push ?m v = Some (True, m')" "ring_rep m' (xs @ [v])"
    using ring_try_push_room [OF rep room, of v] by blast
  have "(zc_buffer q)[head_slot q := Some v] = zc_buffer q"
    using list_update_id [of "zc_buffer q" "head_slot q"] v by simp
  then have "m' = ?m\<lparr>rb_buffer := zc_buffer q, rb_head := zc_head q + 1\<rparr>"
    using push(1) by (auto simp: ring_try_push_def ring_try_emplace_def Let_def bind_eq_Some_conv
      construct_at_def head_slot_def split: if_splits)
  then show ?thesis using push(2) by (subst ring_rep_cong [of _ m']) simp_all
qed

section \<open>Refinement\<close>

lemma zc_rep_pending: "zc_rep (r, q) (xs, ph) \<Longrightarrow> ring_rep (zc_ring (without_pending q)) xs \<or> ph = Free"
  using free_head_slot(3) [of q xs] by (cases ph) (auto simp: holds_slot_def)

lemma zc_step_reserve:
  assumes "zc_rep (r, q) (xs, ph)"
  shows "rel_option (\<lambda>(a, s) (b, t). a = b \<and> zc_rep s t) (zc_step out (r, q) Reserve)
     (zc_spec_step (unat (zc_capacity q)) (xs, ph) Reserve)"
proof (cases ph)
  case Free
  have "zc_head q - zc_tail q \<ge> zc_capacity q \<longleftrightarrow> length xs = unat (zc_capacity q)"
    "length xs \<le> unat (zc_capacity q)"
    using ring_rep_full_iff [of "zc_ring q" xs] assms Free by (simp_all add: ring_rep_def)
  moreover have "ring_rep (zc_ring (q\<lparr>zc_active := b\<rparr>)) xs" for b
    using assms Free by (subst ring_rep_cong [of _ "zc_ring q"]) simp_all
  ultimately show ?thesis
    using assms Free by (simp add: zc_try_reserve_def Let_def reservation_move_assign_def
      reservation_cancel_def reservation_move_from_def holds_slot_def head_slot_def)
qed (use assms in \<open>simp_all add: zc_try_reserve_def holds_slot_def\<close>)

lemma zc_step_construct:
  assumes "zc_rep (r, q) (xs, ph)"
  shows "rel_option (\<lambda>(a, s) (b, t). a = b \<and> zc_rep s t) (zc_step out (r, q) (Construct v))
     (zc_spec_step (unat (zc_capacity q)) (xs, ph) (Construct v))"
proof (cases ph)
  case Free
  then show ?thesis using assms by (simp add: reservation_construct_def)
next
  case Reserved
  note f = free_head_slot [of q xs]
  let ?q' = "q\<lparr>zc_buffer := (zc_buffer q)[head_slot q := Some v]\<rparr>"
  have "ring_rep (zc_ring (without_pending ?q')) xs"
    using assms Reserved f by (subst ring_rep_cong [of _ "zc_ring q"])
      (simp_all add: holds_slot_def)
  then show ?thesis
    using assms Reserved f
    by (simp add: reservation_construct_def construct_at_def holds_slot_def)
next
  case (Built w)
  let ?q' = "q\<lparr>zc_buffer := (zc_buffer q)[head_slot q := Some v]\<rparr>"
  have "ring_rep (zc_ring (without_pending ?q')) xs"
    using assms Built by (subst ring_rep_cong [of _ "zc_ring (without_pending q)"])
      simp_all
  then show ?thesis
    using assms Built pending_head_slot [of q xs]
    by (simp add: reservation_construct_def construct_at_def destroy_at_def holds_slot_def)
qed

lemma zc_step_commit:
  assumes "zc_rep (r, q) (xs, ph)"
  shows "rel_option (\<lambda>(a, s) (b, t). a = b \<and> zc_rep s t) (zc_step out (r, q) Commit)
     (zc_spec_step (unat (zc_capacity q)) (xs, ph) Commit)"
  using assms zc_commit_rep [of r q xs]
  by (cases ph) (auto simp: reservation_commit_def holds_slot_def)

lemma zc_step_cancel:
  assumes "zc_rep (r, q) (xs, ph)"
  shows "rel_option (\<lambda>(a, s) (b, t). a = b \<and> zc_rep s t) (zc_step out (r, q) Cancel)
     (zc_spec_step (unat (zc_capacity q)) (xs, ph) Cancel)"
proof -
  have "ring_rep (zc_ring (q\<lparr>zc_active := b\<rparr>)) xs \<longleftrightarrow> ring_rep (zc_ring q) xs"
    "ring_rep (zc_ring (q\<lparr>zc_buffer := (zc_buffer q)[head_slot q := None], zc_active := b\<rparr>)) xs \<longleftrightarrow>
     ring_rep (zc_ring (without_pending q)) xs" for b
    by (intro ring_rep_cong; simp)+
  then show ?thesis
    using assms pending_head_slot [of q xs]
    by (cases ph) (auto simp: reservation_cancel_def holds_slot_def destroy_at_def)
qed

lemma zc_step_consume:
  assumes "zc_rep (r, q) (xs, ph)"
  shows "rel_option (\<lambda>(a, s) (b, t). a = b \<and> zc_rep s t) (zc_step out (r, q) Consume)
     (zc_spec_step (unat (zc_capacity q)) (xs, ph) Consume)"
proof (cases ph)
  case (Built v)
  then have rep: "ring_rep (zc_ring (without_pending q)) xs" and room: "length xs < unat (zc_capacity q)"
    using assms by (simp_all add: holds_slot_def)
  obtain b x m where m: "zc_try_consume (without_pending q) out = Some (b, x, m)" "ring_rep (zc_ring m) (tl xs)"
    "b = (xs \<noteq> [])" "b \<longrightarrow> x = hd xs" "zc_head m = zc_head (without_pending q)"
    "zc_capacity m = zc_capacity (without_pending q)" "zc_active m = zc_active (without_pending q)"
    using zc_consume_rep [OF rep, of out] by blast
  obtain q' where q': "zc_try_consume q out = Some (b, x, q')" "m = without_pending q'"
    using m(1) unfolding zc_consume_pending(1) [OF rep room] by auto
  show ?thesis
    using assms Built m q' zc_consume_pending(2) [OF rep room q'(1)]
    by (cases xs) (simp_all add: holds_slot_def head_slot_def)
next
  case Free
  then show ?thesis
    using assms zc_consume_rep [of q xs out] by (cases xs) auto
next
  case Reserved
  then show ?thesis
    using assms zc_consume_rep [of q xs out] by (cases xs) (auto simp: holds_slot_def head_slot_def)
qed

lemmas zc_steps = zc_step_reserve zc_step_construct zc_step_commit zc_step_cancel zc_step_consume

lemma zc_try_consume_capacity: "zc_try_consume q out = Some (b, x, q') \<Longrightarrow> zc_capacity q' = zc_capacity q"
  by (auto simp: zc_try_consume_def Let_def bind_eq_Some_conv split: if_splits)

lemma reservation_cancel_capacity: "reservation_cancel r q = Some (r', q') \<Longrightarrow> zc_capacity q' = zc_capacity q"
  by (auto simp: reservation_cancel_def bind_eq_Some_conv split: if_splits)

lemma zc_step_capacity: "zc_step out (r, q) p = Some (x, r', q') \<Longrightarrow> zc_capacity q' = zc_capacity q"
  by (cases p)
    (auto simp: zc_try_reserve_def Let_def reservation_move_assign_def reservation_move_from_def
      reservation_construct_def      reservation_commit_def bind_eq_Some_conv dest: zc_try_consume_capacity reservation_cancel_capacity
      split: if_splits prod.splits)

lemma zc_run_refines:
  assumes "zc_rep (r, q) (xs, ph)"
  shows "rel_option (\<lambda>(rs, s) (rs', t). rs = rs' \<and> zc_rep s t) (run_ops (zc_step out) (r, q) ops)
    (run_ops (zc_spec_step (unat (zc_capacity q))) (xs, ph) ops)"
  using assms
proof (induction ops arbitrary: r q xs ph)
  case (Cons p ops)
  let ?n = "unat (zc_capacity q)"
  have rel: "rel_option (\<lambda>(a, s) (b, t). a = b \<and> zc_rep s t) (zc_step out (r, q) p) (zc_spec_step ?n (xs, ph) p)"
    using zc_steps [OF Cons.prems] by (cases p) auto
  show ?case
  proof (cases "zc_step out (r, q) p")
    case None
    then show ?thesis using rel by simp
  next
    case (Some a)
    obtain x r' q' where a: "a = (x, r', q')" by (cases a)
    with Some rel obtain ys ph' where spec: "zc_spec_step ?n (xs, ph) p = Some (x, ys, ph')"
        "zc_rep (r', q') (ys, ph')"
      by (auto simp: option_rel_Some1)
    have "zc_capacity q' = zc_capacity q" using zc_step_capacity [of out r q p x r' q'] Some a by simp
    with Cons.IH [OF spec(2)] show ?thesis
      using Some a spec(1) by (auto simp: option_rel_Some1 option_rel_Some2 rel_option_iff split: option.splits)
  qed
qed simp

lemma zc_init_rep: "static_capacity C \<Longrightarrow> zc_rep (default_Reservation, zc_init C) ([], Free)"
  using ring_init_rep [of C]
  by (simp add: default_Reservation_def zc_init_def zc_ring_def ring_init_def)

section \<open>Reserve, construct, commit as one push\<close>

definition zc_push :: "'a ZeroCopySpsc \<Rightarrow> 'a \<Rightarrow> (bool \<times> 'a ZeroCopySpsc) option" where
  "zc_push q v =
     (case zc_try_reserve q of
        (None, q) \<Rightarrow> Some (False, q)
      | (Some r, q) \<Rightarrow>
          do { (r, q) \<leftarrow> reservation_construct v r q;
               let (b, r, q) = reservation_commit r q;
               q \<leftarrow> reservation_destroy r q;
               Some (b, q) })"

definition zc_inv :: "'a ZeroCopySpsc \<Rightarrow> bool" where
  "zc_inv q \<longleftrightarrow> \<not> zc_active q \<and> ring_inv (zc_ring q)"

definition zc_contents :: "'a ZeroCopySpsc \<Rightarrow> 'a list" where
  "zc_contents q = ring_contents (zc_ring q)"

text \<open>The push is that of the ring buffer.\<close>

lemma zc_push_ring:
  assumes "zc_inv q"
  shows "zc_push q v = map_option (\<lambda>(b, m). (b, q\<lparr>zc_buffer := rb_buffer m, zc_head := rb_head m\<rparr>))
     (ring_try_push (zc_ring q) v)"
  using assms
  by (auto simp: zc_inv_def zc_push_def zc_try_reserve_def ring_try_push_def ring_try_emplace_def Let_def
      reservation_construct_def reservation_commit_def reservation_destroy_def reservation_cancel_def
      split: option.splits bind_splits)

lemma zc_ring_upd:
  "rb_capacity m = zc_capacity q \<Longrightarrow> rb_tail m = zc_tail q \<Longrightarrow>
   zc_ring (q\<lparr>zc_buffer := rb_buffer m, zc_head := rb_head m\<rparr>) = m"
  "rb_capacity m = zc_capacity q \<Longrightarrow> rb_head m = zc_head q \<Longrightarrow>
   zc_ring (q\<lparr>zc_buffer := rb_buffer m, zc_tail := rb_tail m\<rparr>) = m"
  by (simp_all add: zc_ring_def)

lemma zc_push_Some:
  assumes "zc_inv q" "ring_try_push (zc_ring q) v = Some (b, m)"
  shows "\<exists>q'. zc_push q v = Some (b, q') \<and> zc_ring q' = m \<and> \<not> zc_active q' \<and> zc_capacity q' = zc_capacity q"
  using assms ring_try_push_tail [OF assms(2)]
  by (intro exI [of _ "q\<lparr>zc_buffer := rb_buffer m, zc_head := rb_head m\<rparr>"])
    (simp add: zc_push_ring zc_ring_upd zc_inv_def)

lemma zc_consume_Some:
  assumes "zc_inv q" "ring_try_pop (zc_ring q) out = Some (b, x, m)"
  shows "\<exists>q'. zc_try_consume q out = Some (b, x, q') \<and> zc_ring q' = m \<and> \<not> zc_active q' \<and>
    zc_capacity q' = zc_capacity q"
  using assms ring_try_pop_head [OF assms(2)]
  by (intro exI [of _ "q\<lparr>zc_buffer := rb_buffer m, zc_tail := rb_tail m\<rparr>"])
    (simp add: zc_consume_ring zc_ring_upd zc_inv_def)

interpretation zero_copy: bounded_fifo zc_inv zc_contents "\<lambda>q. unat (zc_capacity q)" zc_push zc_try_consume
proof unfold_locales
  fix q :: "'a ZeroCopySpsc" and v out x :: 'a and xs
  assume inv: "zc_inv q"
  then have ri: "ring_inv (zc_ring q)" by (simp add: zc_inv_def)
  show "length (zc_contents q) \<le> unat (zc_capacity q)"
    using ring.within_cap [OF ri] by (simp add: zc_contents_def)
  show "\<exists>q'. zc_push q v = Some (True, q') \<and> zc_inv q' \<and> zc_contents q' = zc_contents q @ [v] \<and>
      unat (zc_capacity q') = unat (zc_capacity q)" if "length (zc_contents q) < unat (zc_capacity q)"
    using ring.push_room [OF ri, of v] that
    by (fastforce simp: zc_contents_def zc_inv_def dest: zc_push_Some [OF inv])
  show "\<exists>q'. zc_push q v = Some (False, q') \<and> zc_inv q' \<and> zc_contents q' = zc_contents q \<and>
      unat (zc_capacity q') = unat (zc_capacity q)" if "length (zc_contents q) = unat (zc_capacity q)"
    using ring.push_full [OF ri, of v] that
    by (fastforce simp: zc_contents_def zc_inv_def dest: zc_push_Some [OF inv])
  show "\<exists>q'. zc_try_consume q out = Some (True, x, q') \<and> zc_inv q' \<and> zc_contents q' = xs \<and>
      unat (zc_capacity q') = unat (zc_capacity q)" if "zc_contents q = x # xs"
    using ring.pop_some [OF ri, of x xs out] that
    by (fastforce simp: zc_contents_def zc_inv_def dest: zc_consume_Some [OF inv])
  show "\<exists>q'. zc_try_consume q out = Some (False, out, q') \<and> zc_inv q' \<and> zc_contents q' = [] \<and>
      unat (zc_capacity q') = unat (zc_capacity q)" if "zc_contents q = []"
    using ring.pop_empty [OF ri, of out] that
    by (fastforce simp: zc_contents_def zc_inv_def dest: zc_consume_Some [OF inv])
qed

lemma zc_capacity_init [simp]: "zc_capacity (zc_init C) = C"
  by (simp add: zc_init_def)

section \<open>Destruction\<close>

lemma zc_destroy_ring: "zc_destroy q = ring_destroy (zc_ring q)"
  by (simp add: zc_destroy_def ring_destroy_def)

lemma zc_destroy_step:
  "zc_try_consume q out = Some (True, x, q') \<Longrightarrow> zc_tail q \<noteq> zc_head q \<Longrightarrow> zc_destroy q = zc_destroy q'"
  by (auto simp: zc_try_consume_def zc_destroy_def Let_def bind_eq_Some_conv
      destroy_loop.simps [of "zc_capacity q" "zc_buffer q" "zc_tail q" "zc_head q"])

lemma zc_destroy_pending:
  "ring_rep (zc_ring (without_pending q)) xs \<Longrightarrow> length xs < unat (zc_capacity q) \<Longrightarrow>
   zc_buffer q ! head_slot q = Some v \<Longrightarrow>
   zc_destroy q = Some ((replicate (unat (zc_capacity q)) None)[head_slot q := Some v])"
proof (induction xs arbitrary: q)
  case Nil
  have "zc_tail q = zc_head q" using ring_rep_empty_iff [OF Nil(1)] by simp
  moreover have mask: "replicate (unat (zc_capacity q)) None = (zc_buffer q)[head_slot q := None]"
    using ring_rep_Nil_buffer [OF Nil(1)] by simp
  have "zc_buffer q = (replicate (unat (zc_capacity q)) None)[head_slot q := Some v]"
    unfolding mask using Nil(3) list_update_id [of "zc_buffer q" "head_slot q"] by simp
  ultimately show ?case by (simp add: zc_destroy_def destroy_loop.simps)
next
  case (Cons x xs)
  obtain b y m where m: "zc_try_consume (without_pending q) x = Some (b, y, m)" "ring_rep (zc_ring m) xs" "b"
      "zc_head m = zc_head (without_pending q)" "zc_capacity m = zc_capacity (without_pending q)"
    using zc_consume_rep [OF Cons.prems(1), of x] by auto
  obtain q' where q': "zc_try_consume q x = Some (b, y, q')" "m = without_pending q'"
    using m(1) unfolding zc_consume_pending(1) [OF Cons.prems(1,2)] by auto
  have ne: "zc_tail q \<noteq> zc_head q" using ring_rep_empty_iff [OF Cons.prems(1)] by auto
  have same: "head_slot q' = head_slot q" "zc_capacity q' = zc_capacity q"
    using m(4,5) q'(2) by (simp_all add: head_slot_def)
  have "zc_buffer q' ! head_slot q' = Some v"
    using zc_consume_pending(2) [OF Cons.prems(1,2) q'(1)] Cons.prems(3) same(1) by simp
  then show ?case
    using Cons.IH [of q'] m(2,3) q' same Cons.prems(2) zc_destroy_step [OF _ ne] by simp
qed

section \<open>Properties\<close>

text \<open>
  C12. Refinement of the zero-copy queue. From a new queue, every sequence of \<open>try_reserve\<close> (the
  granted reservation moved into the producer's variable), \<open>construct\<close>, \<open>commit\<close>, \<open>cancel\<close> and
  \<open>try_consume\<close> gives the results of a list queue with one reservation: at most one reservation is
  granted at a time and only when there is room, a value reaches the consumer only by \<open>commit\<close>,
  constructing again replaces the value, a cancelled one is destroyed and never seen. The only
  undefined behaviour is a \<open>construct\<close> through a reservation that holds no slot.
\<close>

theorem zero_copy_refines:
  assumes "static_capacity C"
  shows "rel_option (\<lambda>(rs, s) (rs', t). rs = rs' \<and> zc_rep s t)
    (run_ops (zc_step out) (default_Reservation, zc_init C) ops)
    (run_ops (zc_spec_step (unat C)) ([], Free) ops)"
  using zc_run_refines [OF zc_init_rep [OF assms], of out ops] by simp

theorem zero_copy_refines_witness:
  "\<exists>s. run_ops (zc_step 0) (default_Reservation, zc_init 2)
      [Reserve, Reserve, Construct 1, Consume, Construct 2, Commit, Reserve, Construct 3, Cancel, Consume, Consume]
    = Some ([Granted True, Granted False, Constructed, Consumed None, Constructed, Committed True, Granted True,
        Constructed, Cancelled, Consumed (Some (2::nat)), Consumed None], s)"
proof -
  have C: "static_capacity 2" by (simp add: static_capacity_def)
  show ?thesis
    using zero_copy_refines [OF C, of "0::nat" "[Reserve, Reserve, Construct 1, Consume, Construct 2, Commit,
      Reserve, Construct 3, Cancel, Consume, Consume]"]
    by (auto simp: option_rel_Some2)
qed

text \<open>
  C30. Lifetimes. In every state the client can reach, destroying the reservation and then the queue
  destroys every live object exactly once and leaves only raw storage. In the other order, which the
  header forbids, an object under construction is left alive in its slot.
\<close>

theorem zero_copy_lifetimes:
  assumes "zc_rep (r, q) (xs, ph)"
  shows "reservation_destroy r q \<bind> zc_destroy = Some (replicate (unat (zc_capacity q)) None) \<and>
    (\<forall>v. ph = Built v \<longrightarrow>
       zc_destroy q = Some ((replicate (unat (zc_capacity q)) None)[head_slot q := Some v]))"
proof -
  obtain r' q' where c: "reservation_cancel r q = Some (r', q')" "zc_rep (r', q') (xs, Free)"
    using zc_step_cancel [OF assms, of undefined] by (auto simp: option_rel_Some2)
  have "zc_destroy q' = Some (replicate (unat (zc_capacity q')) None)"
    using ring_rep_destroy [of "zc_ring q'" xs] c(2) by (simp add: zc_destroy_ring)
  then show ?thesis
    using c reservation_cancel_capacity [OF c(1)] zc_destroy_pending [of q xs] assms
    by (auto simp: reservation_destroy_def holds_slot_def)
qed

theorem zero_copy_lifetimes_witness:
  "\<exists>r q. run_ops (zc_step 0) (default_Reservation, zc_init 2) [Reserve, Construct (5::nat)] =
      Some ([Granted True, Constructed], r, q) \<and>
    reservation_destroy r q \<bind> zc_destroy = Some (replicate (unat (zc_capacity q)) None)"
proof -
  have C: "static_capacity 2" by (simp add: static_capacity_def)
  obtain r q where "run_ops (zc_step 0) (default_Reservation, zc_init 2) [Reserve, Construct (5::nat)] =
      Some ([Granted True, Constructed], r, q)" "zc_rep (r, q) ([], Built 5)"
    using zc_run_refines [OF zc_init_rep [OF C], of "0::nat" "[Reserve, Construct 5]"]
    by (auto simp: option_rel_Some2)
  then show ?thesis using zero_copy_lifetimes [of r q "[]" "Built 5"] by blast
qed

end
