(* ===== verification/Zero_Copy_Concurrent.thy ===== *)
theory Zero_Copy_Concurrent
  imports Spsc_Concurrent Zero_Copy_Spsc
begin

text \<open>
  \<open>include/aether/zero_copy_spsc.hpp\<close> under concurrency: one producer thread that reserves, constructs,
  commits and cancels, one consumer thread in \<open>try_consume\<close>, interleaved at every access to shared
  memory, under the memory model of \<open>Spsc_Concurrent\<close>.

  \<^item> \<open>head_\<close>, \<open>tail_\<close>, the slots and the clocks are those of \<open>spsc_conc\<close> (whose \<open>cq_ppc\<close> stays idle);
    \<open>try_consume\<close> makes the accesses of \<open>try_pop\<close>, so the steps of the consumer are \<open>consumer_step\<close>.
  \<^item> The producer keeps one \<open>Reservation\<close> object and moves a granted reservation into it. Only the
    producer thread reads and writes \<open>active_reservation_\<close>, so that flag has its current value.
  \<^item> \<open>construct\<close> is called only on a reservation that holds a slot: on any other one it dereferences a
    null pointer.
  \<^item> \<open>cq_pushed\<close> records the object in the slot at the release store of \<open>commit\<close>.
  \<^item> Shown: no undefined behaviour and FIFO delivery in every interleaving, although a slot may be
    built, destroyed and rebuilt any number of times before it is published; agreement of every
    call of the producer with the sequential model of \<open>Zero_Copy_Spsc\<close>.
\<close>

section \<open>Model\<close>

datatype 'a zc_pc =
    Z_idle
  | Z_flag_taken
  | Z_head_loaded size_t
  | Z_no_room
  | Z_granted Reservation
  | Z_rebuild 'a
  | Z_published
  | Z_cancelled "Reservation option"

record 'a zc_conc =
  zq_mem :: "'a spsc_conc"
  zq_active :: bool
  zq_reservation :: Reservation
  zq_pc :: "'a zc_pc"

definition zq_init :: "size_t \<Rightarrow> 'a zc_conc" where
  "zq_init C = \<lparr>zq_mem = spsc_init C, zq_active = False, zq_reservation = default_Reservation, zq_pc = Z_idle\<rparr>"

text \<open>An access of the producer to the slot that \<open>ptr_\<close> points to, with the check for a race.\<close>

definition pointer_access :: "nat \<Rightarrow> 'a spsc_conc \<Rightarrow> 'a spsc_conc option" where
  "pointer_access i m =
     (if cq_c_access m ! i \<le> cq_p_aware m
      then Some (m\<lparr>cq_p_clock := Suc (cq_p_clock m), cq_p_access := (cq_p_access m)[i := Suc (cq_p_clock m)]\<rparr>)
      else None)"

text \<open>\<open>std::construct_at(ptr_, ...)\<close> and \<open>std::destroy_at(ptr_)\<close> of a reservation.\<close>

definition reservation_build :: "'a \<Rightarrow> 'a zc_conc \<Rightarrow> 'a zc_conc option" where
  "reservation_build v s =
     do { p \<leftarrow> rv_ptr (zq_reservation s);
          m \<leftarrow> pointer_access p (zq_mem s);
          slots \<leftarrow> construct_at (cq_slots m) p v;
          Some (s\<lparr>zq_mem := m\<lparr>cq_slots := slots\<rparr>,
                  zq_reservation := (zq_reservation s)\<lparr>rv_constructed := True\<rparr>, zq_pc := Z_idle\<rparr>) }"

definition reservation_unbuild :: "'a zc_pc \<Rightarrow> 'a zc_conc \<Rightarrow> 'a zc_conc option" where
  "reservation_unbuild pc s =
     do { p \<leftarrow> rv_ptr (zq_reservation s);
          m \<leftarrow> pointer_access p (zq_mem s);
          slots \<leftarrow> destroy_at (cq_slots m) p;
          Some (s\<lparr>zq_mem := m\<lparr>cq_slots := slots\<rparr>, zq_pc := pc\<rparr>) }"

text \<open>The release store of \<open>head_\<close> in \<open>commit\<close>. The committed value is the object in the slot.\<close>

definition commit_publish :: "'a zc_conc \<Rightarrow> 'a zc_conc option" where
  "commit_publish s =
     do { let m = zq_mem s; let r = zq_reservation s;
          p \<leftarrow> rv_ptr r;
          v \<leftarrow> slot_value (cq_slots m) p;
          Some (s\<lparr>zq_mem := m\<lparr>cq_heads := cq_heads m @ [(rv_index r + 1, cq_p_clock m)],
                             cq_pushed := cq_pushed m @ [v]\<rparr>, zq_pc := Z_published\<rparr>) }"

text \<open>
  \<open>active_reservation_.store(false)\<close> at the end of \<open>commit\<close> and \<open>cancel\<close>, with the assignments to the
  reservation's own fields; \<open>moved\<close> is the reservation that a move assignment takes over afterwards.
\<close>

definition released :: "Reservation \<Rightarrow> Reservation" where
  "released r = r\<lparr>rv_queue := False, rv_ptr := None, rv_constructed := False\<rparr>"

definition release_flag :: "Reservation option \<Rightarrow> 'a zc_conc \<Rightarrow> 'a zc_conc" where
  "release_flag moved s =
     s\<lparr>zq_active := False, zq_pc := Z_idle,
       zq_reservation := (case moved of None \<Rightarrow> released (zq_reservation s) | Some r \<Rightarrow> r)\<rparr>"

text \<open>\<open>cancel()\<close> from its call to its first access to shared memory.\<close>

definition cancel_start :: "Reservation option \<Rightarrow> 'a zc_conc \<Rightarrow> 'a zc_conc option" where
  "cancel_start moved s =
     (let r = zq_reservation s in
      if \<not> rv_queue r then
        Some (s\<lparr>zq_pc := Z_idle, zq_reservation := (case moved of None \<Rightarrow> r | Some r' \<Rightarrow> r')\<rparr>)
      else if rv_constructed r then reservation_unbuild (Z_cancelled moved) s
      else Some (release_flag moved s))"

text \<open>\<open>construct(v)\<close> likewise.\<close>

definition construct_start :: "'a \<Rightarrow> 'a zc_conc \<Rightarrow> 'a zc_conc option" where
  "construct_start v s =
     (if rv_constructed (zq_reservation s)
      then map_option (\<lambda>s. s\<lparr>zq_reservation := (zq_reservation s)\<lparr>rv_constructed := False\<rparr>\<rparr>)
             (reservation_unbuild (Z_rebuild v) s)
      else reservation_build v s)"

definition commit_start :: "'a zc_conc \<Rightarrow> 'a zc_conc option" where
  "commit_start s =
     (if \<not> rv_queue (zq_reservation s) \<or> \<not> rv_constructed (zq_reservation s) then Some s else commit_publish s)"

definition granted :: "size_t \<Rightarrow> size_t \<Rightarrow> Reservation" where
  "granted C head = \<lparr>rv_queue = True, rv_index = head, rv_ptr = Some (slot_index C head), rv_constructed = False\<rparr>"

text \<open>
  The first step of a call: what the operation does up to and including its first access to shared memory.
  A call on the reservation that finds nothing to do, and a \<open>try_reserve\<close> that finds the flag set, return here.
\<close>

inductive zc_call :: "'a zc_op \<Rightarrow> 'a zc_conc \<Rightarrow> 'a zc_conc option \<Rightarrow> bool" where
  reserve_busy:
    "zq_pc s = Z_idle \<Longrightarrow> zq_active s \<Longrightarrow> zc_call Reserve s (Some s)"
| reserve_take:
    "zq_pc s = Z_idle \<Longrightarrow> \<not> zq_active s \<Longrightarrow>
     zc_call Reserve s (Some (s\<lparr>zq_active := True, zq_pc := Z_flag_taken\<rparr>))"
| construct_first:
    "zq_pc s = Z_idle \<Longrightarrow> rv_queue (zq_reservation s) \<Longrightarrow> zc_call (Construct v) s (construct_start v s)"
| commit_first:
    "zq_pc s = Z_idle \<Longrightarrow> zc_call Commit s (commit_start s)"
| cancel_first:
    "zq_pc s = Z_idle \<Longrightarrow> zc_call Cancel s (cancel_start None s)"

inductive zc_producer_step :: "'a zc_conc \<Rightarrow> 'a zc_conc option \<Rightarrow> bool" where
  first_step:
    "zc_call op s r \<Longrightarrow> zc_producer_step s r"
| reserve_head:
    "zq_pc s = Z_flag_taken \<Longrightarrow>
     zc_producer_step s (Some (s\<lparr>zq_pc := Z_head_loaded (fst (last (cq_heads (zq_mem s))))\<rparr>))"
| reserve_full:
    "zq_pc s = Z_head_loaded head \<Longrightarrow> cq_p_read (zq_mem s) \<le> j \<Longrightarrow> j < length (cq_tails (zq_mem s)) \<Longrightarrow>
     head - fst (cq_tails (zq_mem s) ! j) \<ge> cq_capacity (zq_mem s) \<Longrightarrow>
     zc_producer_step s (Some (s\<lparr>zq_mem := acquire_tail j (zq_mem s), zq_pc := Z_no_room\<rparr>))"
| reserve_back:
    "zq_pc s = Z_no_room \<Longrightarrow> zc_producer_step s (Some (s\<lparr>zq_active := False, zq_pc := Z_idle\<rparr>))"
| reserve_room:
    "zq_pc s = Z_head_loaded head \<Longrightarrow> cq_p_read (zq_mem s) \<le> j \<Longrightarrow> j < length (cq_tails (zq_mem s)) \<Longrightarrow>
     \<not> head - fst (cq_tails (zq_mem s) ! j) \<ge> cq_capacity (zq_mem s) \<Longrightarrow>
     zc_producer_step s (Some (s\<lparr>zq_mem := acquire_tail j (zq_mem s),
       zq_pc := Z_granted (granted (cq_capacity (zq_mem s)) head)\<rparr>))"
| reserve_move:
    "zq_pc s = Z_granted r \<Longrightarrow> zc_producer_step s (cancel_start (Some r) s)"
| construct_again:
    "zq_pc s = Z_rebuild v \<Longrightarrow> zc_producer_step s (reservation_build v s)"
| commit_flag:
    "zq_pc s = Z_published \<Longrightarrow> zc_producer_step s (Some (release_flag None s))"
| cancel_flag:
    "zq_pc s = Z_cancelled moved \<Longrightarrow> zc_producer_step s (Some (release_flag moved s))"
| reserve_observe:
    "zq_pc s = Z_idle \<Longrightarrow> cq_p_read (zq_mem s) \<le> j \<Longrightarrow> j < length (cq_tails (zq_mem s)) \<Longrightarrow>
     zc_producer_step s (Some (s\<lparr>zq_mem := acquire_tail j (zq_mem s)\<rparr>))"

inductive zc_consumer_step :: "'a zc_conc \<Rightarrow> 'a zc_conc option \<Rightarrow> bool" where
  consume:
    "consumer_step (zq_mem s) r \<Longrightarrow> zc_consumer_step s (map_option (\<lambda>m. s\<lparr>zq_mem := m\<rparr>) r)"

definition zc_conc_step :: "'a zc_conc \<Rightarrow> 'a zc_conc option \<Rightarrow> bool" where
  "zc_conc_step s r \<longleftrightarrow> zc_producer_step s r \<or> zc_consumer_step s r"

inductive zc_reach :: "size_t \<Rightarrow> 'a zc_conc \<Rightarrow> bool" for C :: size_t where
  zc_reach_init: "zc_reach C (zq_init C)"
| zc_reach_step: "zc_reach C s \<Longrightarrow> zc_conc_step s (Some s') \<Longrightarrow> zc_reach C s'"

section \<open>Invariant\<close>

text \<open>
  The shared memory. As in the ring buffer, but a cancelled reservation leaves accesses behind that
  belong to no item: the clock of a published item is whatever it was at the release store, and the
  slot at \<open>head_\<close> may have been accessed at any time since there was room for it. \<open>b\<close> says whether it
  holds an object under construction.
\<close>

definition zm_counters :: "size_t \<Rightarrow> 'a spsc_conc \<Rightarrow> bool" where
  "zm_counters C m \<longleftrightarrow> cq_capacity m = C \<and>
     map fst (cq_heads m) = map of_nat [0..<Suc (length (cq_pushed m))] \<and> sorted (map snd (cq_heads m)) \<and>
     snd (last (cq_heads m)) \<le> cq_p_clock m \<and>
     cq_tails m = map (\<lambda>i. (of_nat i, 2 * i)) [0..<Suc (length (cq_popped m))] \<and>
     length (cq_popped m) \<le> cq_c_read m \<and> cq_c_read m \<le> length (cq_pushed m) \<and>
     length (cq_pushed m) \<le> cq_p_read m + unat C \<and> cq_p_read m \<le> length (cq_popped m) \<and>
     cq_p_aware m = 2 * cq_p_read m \<and> cq_c_aware m = snd (cq_heads m ! cq_c_read m) \<and>
     cq_c_clock m = moved_items m + destroyed_items m"

definition zm_access :: "size_t \<Rightarrow> 'a spsc_conc \<Rightarrow> bool" where
  "zm_access C m \<longleftrightarrow>
     length (cq_p_access m) = unat C \<and> length (cq_c_access m) = unat C \<and>
     (\<forall>i < unat C. cq_p_access m ! i = 0 \<or>
        (\<exists>k < length (cq_pushed m). k mod unat C = i \<and> cq_p_access m ! i \<le> snd (cq_heads m ! Suc k)) \<or>
        (i = length (cq_pushed m) mod unat C \<and> length (cq_pushed m) < cq_p_read m + unat C \<and>
         cq_p_access m ! i \<le> cq_p_clock m)) \<and>
     (\<forall>i < unat C. cq_c_access m ! i = 0 \<or>
        (\<exists>k < moved_items m. k mod unat C = i \<and> cq_c_access m ! i \<le> 2 * k + 2))"

definition zm_slots :: "size_t \<Rightarrow> bool \<Rightarrow> 'a spsc_conc \<Rightarrow> bool" where
  "zm_slots C b m \<longleftrightarrow> length (cq_slots m) = unat C \<and>
     (\<forall>k. destroyed_items m \<le> k \<and> k < length (cq_pushed m) \<longrightarrow>
        cq_slots m ! (k mod unat C) = Some (cq_pushed m ! k)) \<and>
     (\<forall>k. length (cq_pushed m) \<le> k \<and> k < destroyed_items m + unat C \<longrightarrow>
        cq_slots m ! (k mod unat C) = None \<longleftrightarrow> \<not> (b \<and> k = length (cq_pushed m)))"

definition zm_inv :: "size_t \<Rightarrow> bool \<Rightarrow> 'a spsc_conc \<Rightarrow> bool" where
  "zm_inv C b m \<longleftrightarrow> static_capacity C \<and> zm_counters C m \<and> consumer_inv m (cq_cpc m) \<and> zm_access C m \<and>
     zm_slots C b m \<and> (b \<longrightarrow> length (cq_pushed m) < cq_p_read m + unat C) \<and>
     cq_popped m = take (length (cq_popped m)) (cq_pushed m)"

text \<open>The producer: it has the flag exactly while a reservation is being made or held.\<close>

definition owns_slot :: "size_t \<Rightarrow> 'a spsc_conc \<Rightarrow> Reservation \<Rightarrow> bool" where
  "owns_slot C m r \<longleftrightarrow> rv_queue r \<and> rv_index r = of_nat (length (cq_pushed m)) \<and>
     rv_ptr r = Some (length (cq_pushed m) mod unat C) \<and> length (cq_pushed m) < cq_p_read m + unat C"

definition no_reservation :: "Reservation \<Rightarrow> bool" where
  "no_reservation r \<longleftrightarrow> \<not> rv_queue r \<and> rv_ptr r = None \<and> \<not> rv_constructed r"

fun zp_inv :: "size_t \<Rightarrow> 'a spsc_conc \<Rightarrow> bool \<Rightarrow> Reservation \<Rightarrow> 'a zc_pc \<Rightarrow> bool" where
  "zp_inv C m a r Z_idle \<longleftrightarrow> (if a then owns_slot C m r else no_reservation r)"
| "zp_inv C m a r Z_flag_taken \<longleftrightarrow> a \<and> no_reservation r"
| "zp_inv C m a r (Z_head_loaded h) \<longleftrightarrow> a \<and> no_reservation r \<and> h = of_nat (length (cq_pushed m))"
| "zp_inv C m a r Z_no_room \<longleftrightarrow> a \<and> no_reservation r"
| "zp_inv C m a r (Z_granted r') \<longleftrightarrow> a \<and> no_reservation r \<and> owns_slot C m r' \<and> \<not> rv_constructed r'"
| "zp_inv C m a r (Z_rebuild v) \<longleftrightarrow> a \<and> owns_slot C m r \<and> \<not> rv_constructed r"
| "zp_inv C m a r Z_published \<longleftrightarrow> a"
| "zp_inv C m a r (Z_cancelled moved) \<longleftrightarrow> a \<and> moved = None"

fun building :: "Reservation \<Rightarrow> 'a zc_pc \<Rightarrow> bool" where
  "building r Z_published \<longleftrightarrow> False"
| "building r (Z_cancelled moved) \<longleftrightarrow> False"
| "building r _ \<longleftrightarrow> rv_constructed r"

definition zq_inv :: "size_t \<Rightarrow> 'a zc_conc \<Rightarrow> bool" where
  "zq_inv C s \<longleftrightarrow> zm_inv C (building (zq_reservation s) (zq_pc s)) (zq_mem s) \<and>
     zp_inv C (zq_mem s) (zq_active s) (zq_reservation s) (zq_pc s)"

lemma zq_inv_init: "static_capacity C \<Longrightarrow> zq_inv C (zq_init C)"
  by (auto simp: zq_inv_def zm_inv_def zm_counters_def zm_access_def zm_slots_def zq_init_def spsc_init_def
      default_Reservation_def no_reservation_def moved_items_def destroyed_items_def static_capacity_bounds(1))

lemma zm_tail:
  assumes "zm_inv C b m"
  shows "fst (last (cq_tails m)) = of_nat (length (cq_popped m))"
    "length (cq_tails m) = Suc (length (cq_popped m))"
    "j < length (cq_tails m) \<Longrightarrow> cq_tails m ! j = (of_nat j, 2 * j)"
  using assms by (simp_all add: zm_inv_def zm_counters_def del: upt_Suc) simp

lemma zm_head:
  assumes "zm_inv C b m"
  shows "length (cq_heads m) = Suc (length (cq_pushed m))"
    "j < length (cq_heads m) \<Longrightarrow> fst (cq_heads m ! j) = of_nat j"
    "fst (last (cq_heads m)) = of_nat (length (cq_pushed m))"
    "i \<le> j \<Longrightarrow> j < length (cq_heads m) \<Longrightarrow> snd (cq_heads m ! i) \<le> snd (cq_heads m ! j)"
    "last (cq_heads m) = cq_heads m ! length (cq_pushed m)"
proof -
  have f: "map fst (cq_heads m) = map of_nat [0..<Suc (length (cq_pushed m))]" and s: "sorted (map snd (cq_heads m))"
    using assms by (simp_all add: zm_inv_def zm_counters_def del: upt_Suc)
  show l: "length (cq_heads m) = Suc (length (cq_pushed m))" using arg_cong [OF f, of length] by (simp del: upt_Suc)
  show n: "j < length (cq_heads m) \<Longrightarrow> fst (cq_heads m ! j) = of_nat j" for j
    using arg_cong [OF f, of "\<lambda>xs. xs ! j"] l by (simp del: upt_Suc)
  show la: "last (cq_heads m) = cq_heads m ! length (cq_pushed m)"
    using l last_conv_nth [of "cq_heads m"] by fastforce
  show "fst (last (cq_heads m)) = of_nat (length (cq_pushed m))" using n [of "length (cq_pushed m)"] l la by simp
  show "i \<le> j \<Longrightarrow> j < length (cq_heads m) \<Longrightarrow> snd (cq_heads m ! i) \<le> snd (cq_heads m ! j)"
    using sorted_nth_mono [OF s, of i j] by simp
qed

lemma zm_bounds:
  assumes "zm_inv C b m"
  shows "moved_items m \<le> length (cq_pushed m)" "length (cq_pushed m) \<le> length (cq_popped m) + unat C"
    "destroyed_items m \<le> moved_items m" "length (cq_popped m) \<le> destroyed_items m"
    "cq_p_read m \<le> length (cq_popped m)" "static_capacity C" "0 < unat C" "cq_capacity m = C"
proof -
  show "moved_items m \<le> length (cq_pushed m)"
    using assms by (cases "cq_cpc m") (auto simp: zm_inv_def zm_counters_def moved_items_def)
  show C: "static_capacity C" using assms by (simp add: zm_inv_def)
  then show "0 < unat C" using static_capacity_bounds(1) [of C] by simp
  show "length (cq_pushed m) \<le> length (cq_popped m) + unat C" "cq_p_read m \<le> length (cq_popped m)" "cq_capacity m = C"
    using assms by (simp_all add: zm_inv_def zm_counters_def)
  show "destroyed_items m \<le> moved_items m" "length (cq_popped m) \<le> destroyed_items m"
    by (auto simp: moved_items_def destroyed_items_def split: consumer_pc.splits)
qed

subsection \<open>No races\<close>

lemma pointer_no_race:
  assumes inv: "zm_inv C b m" and room: "length (cq_pushed m) < cq_p_read m + unat C"
  shows "cq_c_access m ! (length (cq_pushed m) mod unat C) \<le> cq_p_aware m"
proof -
  let ?n = "unat C" and ?H = "length (cq_pushed m)"
  note b = zm_bounds [OF inv]
  have aware: "cq_p_aware m = 2 * cq_p_read m" using inv by (simp add: zm_inv_def zm_counters_def)
  consider "cq_c_access m ! (?H mod ?n) = 0" | k where "k < moved_items m" "k mod ?n = ?H mod ?n"
      "cq_c_access m ! (?H mod ?n) \<le> 2 * k + 2"
    using inv mod_less_divisor [OF b(7), of ?H] unfolding zm_inv_def zm_access_def by metis
  then show ?thesis
  proof cases
    case (2 k)
    then have "k + ?n \<le> ?H" using congruent_below [of k ?H ?n] b(1,7) by simp
    then show ?thesis using 2(3) room aware by simp
  qed simp
qed

lemma zc_consumer_no_race:
  assumes inv: "zm_inv C b m" and pc: "length (cq_popped m) < cq_c_read m"
  shows "cq_p_access m ! (length (cq_popped m) mod unat C) \<le> cq_c_aware m"
proof -
  let ?n = "unat C" and ?T = "length (cq_popped m)" and ?H = "length (cq_pushed m)"
  note b = zm_bounds [OF inv] and h = zm_head [OF inv]
  have aware: "cq_c_aware m = snd (cq_heads m ! cq_c_read m)" and le: "cq_c_read m \<le> ?H"
    using inv by (simp_all add: zm_inv_def zm_counters_def)
  consider "cq_p_access m ! (?T mod ?n) = 0" | k where "k < ?H" "k mod ?n = ?T mod ?n"
      "cq_p_access m ! (?T mod ?n) \<le> snd (cq_heads m ! Suc k)"
    | "?T mod ?n = ?H mod ?n" "?H < cq_p_read m + ?n"
    using inv mod_less_divisor [OF b(7), of ?T] unfolding zm_inv_def zm_access_def by metis
  then show ?thesis
  proof cases
    case (2 k)
    then have "k \<le> ?T" using congruent_below [of ?T k ?n] b(2,7) by (cases "?T < k") auto
    then have "snd (cq_heads m ! Suc k) \<le> snd (cq_heads m ! cq_c_read m)" using h(1,4) pc le by simp
    then show ?thesis using 2(3) aware by simp
  next
    case 3
    then show ?thesis using congruent_below [of ?T ?H ?n] pc le b(5,7) by simp
  qed simp
qed
subsection \<open>The consumer\<close>

lemma zm_pop_start:
  assumes inv: "zm_inv C b m" and pc: "cq_cpc m = C_idle"
  shows "zm_inv C b (m\<lparr>cq_cpc := C_tail_loaded (fst (last (cq_tails m)))\<rparr>)" (is "zm_inv C b ?m")
proof -
  have its: "moved_items ?m = moved_items m" "destroyed_items ?m = destroyed_items m"
    using pc by (simp_all add: moved_items_def destroyed_items_def)
  have "zm_counters C ?m" "zm_access C ?m" "zm_slots C b ?m"
    using inv unfolding zm_inv_def zm_counters_def zm_access_def zm_slots_def its by simp_all
  then show ?thesis using inv zm_tail(1) [OF inv] by (simp add: zm_inv_def)
qed

lemma zm_acquire_head_to:
  assumes inv: "zm_inv C b m" and j: "cq_c_read m \<le> j" "j < length (cq_heads m)"
    and pc: "cq_cpc m = C_tail_loaded t \<or> cq_cpc m = C_idle" "pc = C_nonempty t \<or> pc = C_idle"
    and ok: "consumer_inv ((acquire_head j m)\<lparr>cq_cpc := pc\<rparr>) pc"
  shows "zm_inv C b ((acquire_head j m)\<lparr>cq_cpc := pc\<rparr>)"
proof -
  let ?m = "(acquire_head j m)\<lparr>cq_cpc := pc\<rparr>"
  have le: "length (cq_popped m) \<le> j" "j \<le> length (cq_pushed m)"
    using zm_head(1) [OF inv] inv j by (simp_all add: zm_inv_def zm_counters_def)
  have "max (cq_c_aware m) (snd (cq_heads m ! j)) = snd (cq_heads m ! j)"
    using zm_head(4) [OF inv j] inv by (simp add: zm_inv_def zm_counters_def)
  then have m: "?m = m\<lparr>cq_c_read := j, cq_c_aware := snd (cq_heads m ! j), cq_cpc := pc\<rparr>" by (simp add: acquire_head_def)
  have its: "moved_items ?m = moved_items m" "destroyed_items ?m = destroyed_items m"
    using pc by (auto simp: m moved_items_def destroyed_items_def)
  have "zm_counters C ?m" using inv le unfolding zm_inv_def zm_counters_def its by (simp add: m)
  moreover have "zm_access C ?m" "zm_slots C b ?m"
    using inv unfolding zm_inv_def zm_access_def zm_slots_def its by (simp_all add: m)
  ultimately show ?thesis using inv ok by (simp add: zm_inv_def) (simp add: acquire_head_def)
qed

lemma zm_acquire_head:
  assumes inv: "zm_inv C b m" and j: "cq_c_read m \<le> j" "j < length (cq_heads m)"
  shows "cq_cpc m = C_tail_loaded t \<or> cq_cpc m = C_idle \<Longrightarrow> zm_inv C b ((acquire_head j m)\<lparr>cq_cpc := C_idle\<rparr>)"
    and "cq_cpc m = C_tail_loaded t \<Longrightarrow> t \<noteq> fst (cq_heads m ! j) \<Longrightarrow>
      zm_inv C b ((acquire_head j m)\<lparr>cq_cpc := C_nonempty t\<rparr>)"
proof -
  show "cq_cpc m = C_tail_loaded t \<or> cq_cpc m = C_idle \<Longrightarrow> zm_inv C b ((acquire_head j m)\<lparr>cq_cpc := C_idle\<rparr>)"
    by (rule zm_acquire_head_to [OF inv j, of t]) simp_all
  assume t: "cq_cpc m = C_tail_loaded t" "t \<noteq> fst (cq_heads m ! j)"
  have le: "length (cq_popped m) \<le> j" "j \<le> length (cq_popped m) + unat C"
    using zm_head(1) [OF inv] zm_bounds(2) [OF inv] inv j by (simp_all add: zm_inv_def zm_counters_def)
  have tv: "t = of_nat (length (cq_popped m))" using inv t by (simp add: zm_inv_def)
  then have "length (cq_popped m) < j"
    using of_nat_counter_eq_iff [OF zm_bounds(6) [OF inv] le] t(2) zm_head(2) [OF inv j(2)] le(1)
    by (cases "length (cq_popped m) = j") auto
  with tv show "zm_inv C b ((acquire_head j m)\<lparr>cq_cpc := C_nonempty t\<rparr>)"
    by (intro zm_acquire_head_to [OF inv j, of t]) (simp_all add: t(1) acquire_head_def)
qed

lemma zm_pop_move:
  assumes inv: "zm_inv C b m" and pc: "cq_cpc m = C_nonempty t"
  shows "\<exists>m'. pop_move t m = Some m' \<and> zm_inv C b m' \<and> cq_pushed m' = cq_pushed m \<and> cq_p_read m' = cq_p_read m"
proof -
  let ?n = "unat C" and ?T = "length (cq_popped m)"
  let ?i = "?T mod ?n" and ?v = "cq_pushed m ! ?T"
  let ?m = "m\<lparr>cq_c_clock := Suc (cq_c_clock m), cq_c_access := (cq_c_access m)[?i := Suc (cq_c_clock m)],
              cq_cpc := C_moved ?v t\<rparr>"
  note bd = zm_bounds [OF inv]
  have t: "t = of_nat ?T" and lt: "?T < cq_c_read m" "cq_c_read m \<le> length (cq_pushed m)" and lens: "length (cq_slots m) = ?n"
    using inv pc by (simp_all add: zm_inv_def zm_counters_def zm_slots_def)
  have its: "destroyed_items ?m = ?T" "moved_items ?m = Suc ?T" "destroyed_items m = ?T" "moved_items m = ?T"
    using pc by (simp_all add: destroyed_items_def moved_items_def)
  have live: "cq_slots m ! ?i = Some ?v" using inv bd(7) its(3) lt by (simp add: zm_inv_def zm_slots_def)
  have def: "pop_move t m = Some ?m"
    using zc_consumer_no_race [OF inv lt(1)] live bd(7) lens
    by (simp add: pop_move_def consumer_access_def bd(8) t slot_index_of_nat [OF bd(6)] slot_value_def Let_def)
  have "zm_access C ?m"
    using inv access_update [of ?n "cq_c_access m" ?T "\<lambda>k. 2 * k + 2" "Suc ?T" ?T "Suc (?T + ?T)"] bd(7)
    unfolding zm_access_def its zm_inv_def zm_counters_def by simp
  moreover have "zm_slots C b ?m" using inv unfolding zm_inv_def zm_slots_def its by simp
  moreover have "zm_counters C ?m" using inv unfolding zm_inv_def zm_counters_def its by simp
  ultimately have "zm_inv C b ?m" using inv t lt by (simp add: zm_inv_def)
  with def show ?thesis by simp
qed

lemma zm_pop_destroy:
  assumes inv: "zm_inv C b m" and pc: "cq_cpc m = C_moved v t"
  shows "\<exists>m'. pop_destroy v t m = Some m' \<and> zm_inv C b m' \<and> cq_pushed m' = cq_pushed m \<and> cq_p_read m' = cq_p_read m"
proof -
  let ?n = "unat C" and ?T = "length (cq_popped m)" and ?H = "length (cq_pushed m)"
  let ?i = "?T mod ?n"
  let ?m = "m\<lparr>cq_c_clock := Suc (cq_c_clock m), cq_c_access := (cq_c_access m)[?i := Suc (cq_c_clock m)],
              cq_slots := (cq_slots m)[?i := None], cq_cpc := C_destroyed v t\<rparr>"
  note bd = zm_bounds [OF inv]
  have t: "t = of_nat ?T" and lt: "?T < cq_c_read m" "cq_c_read m \<le> ?H" and lens: "length (cq_slots m) = ?n"
    and v: "v = cq_pushed m ! ?T" and b: "b \<longrightarrow> ?H < cq_p_read m + ?n"
    using inv pc by (simp_all add: zm_inv_def zm_counters_def zm_slots_def)
  have its: "destroyed_items ?m = Suc ?T" "moved_items ?m = Suc ?T" "destroyed_items m = ?T" "moved_items m = Suc ?T"
    using pc by (simp_all add: destroyed_items_def moved_items_def)
  have live: "cq_slots m ! ?i = Some (cq_pushed m ! ?T)" using inv bd(7) its(3) lt by (simp add: zm_inv_def zm_slots_def)
  have def: "pop_destroy v t m = Some ?m"
    using zc_consumer_no_race [OF inv lt(1)] live bd(7) lens
    by (simp add: pop_destroy_def consumer_access_def bd(8) t slot_index_of_nat [OF bd(6)] destroy_at_def Let_def)
  have "zm_slots C b ?m"
    unfolding zm_slots_def its
  proof (intro conjI allI impI)
    fix k assume k: "Suc ?T \<le> k \<and> k < length (cq_pushed ?m)"
    then have "k mod ?n \<noteq> ?i" using congruent_window [of ?T k ?n ?T] bd(2,7) by auto
    then show "cq_slots ?m ! (k mod ?n) = Some (cq_pushed ?m ! k)"
      using inv k its(3) by (simp add: zm_inv_def zm_slots_def)
  next
    fix k assume k: "length (cq_pushed ?m) \<le> k \<and> k < Suc ?T + ?n"
    show "cq_slots ?m ! (k mod ?n) = None \<longleftrightarrow> \<not> (b \<and> k = length (cq_pushed ?m))"
    proof (cases "k < ?T + ?n")
      case True
      then have "k mod ?n \<noteq> ?i" using congruent_window [of ?T k ?n ?T] k lt bd(7) by auto
      then show ?thesis using True inv k its(3) by (simp add: zm_inv_def zm_slots_def)
    next
      case False
      then have "k = ?T + ?n" using k by simp
      then show ?thesis using bd(2,5,7) b lens by auto
    qed
  qed (simp add: lens)
  moreover have "zm_access C ?m"
    using inv access_update [of ?n "cq_c_access m" "Suc ?T" "\<lambda>k. 2 * k + 2" "Suc ?T" ?T "Suc (Suc ?T + ?T)"] bd(7)
    unfolding zm_access_def its zm_inv_def zm_counters_def by simp
  moreover have "zm_counters C ?m" using inv unfolding zm_inv_def zm_counters_def its by simp
  ultimately have "zm_inv C b ?m" using inv t lt v by (simp add: zm_inv_def)
  with def show ?thesis by simp
qed

lemma zm_pop_publish:
  assumes inv: "zm_inv C b m" and pc: "cq_cpc m = C_destroyed v t"
  shows "zm_inv C b (pop_publish v t m)"
proof -
  let ?m = "pop_publish v t m" and ?T = "length (cq_popped m)"
  have lt: "?T < cq_c_read m" "cq_c_read m \<le> length (cq_pushed m)" and v: "v = cq_pushed m ! ?T"
    and t: "t = of_nat ?T" using inv pc by (simp_all add: zm_inv_def zm_counters_def)
  have its: "destroyed_items ?m = destroyed_items m" "moved_items ?m = moved_items m"
    "destroyed_items m = Suc ?T" "moved_items m = Suc ?T"
    using pc by (simp_all add: destroyed_items_def moved_items_def pop_publish_def)
  have "zm_counters C ?m"
    using inv lt t unfolding zm_inv_def zm_counters_def its by (simp add: pop_publish_def add.commute)
  moreover have "zm_access C ?m" "zm_slots C b ?m"
    using inv unfolding zm_inv_def zm_access_def zm_slots_def its by (simp_all add: pop_publish_def)
  moreover have "cq_popped ?m = take (length (cq_popped ?m)) (cq_pushed ?m)"
    using inv lt v by (simp add: zm_inv_def pop_publish_def take_Suc_conv_app_nth)
  ultimately show ?thesis
    using inv by (simp add: zm_inv_def) (simp add: pop_publish_def)
qed

lemma zm_consumer_step:
  assumes inv: "zm_inv C b m" and step: "consumer_step m r"
  shows "\<exists>m'. r = Some m' \<and> zm_inv C b m' \<and> cq_pushed m' = cq_pushed m \<and> cq_p_read m' = cq_p_read m"
  using step
proof (cases rule: consumer_step.cases)
  case (pop_observe j)
  then have "(acquire_head j m)\<lparr>cq_cpc := C_idle\<rparr> = acquire_head j m" by (simp add: acquire_head_def)
  then have "zm_inv C b (acquire_head j m)" using zm_acquire_head(1) [OF inv pop_observe(3,4)] pop_observe(2) by metis
  then show ?thesis using pop_observe(1) by (simp add: acquire_head_def)
qed (use inv zm_pop_start [OF inv] zm_acquire_head [OF inv] zm_pop_move [OF inv] zm_pop_destroy [OF inv]
      zm_pop_publish [OF inv] in \<open>simp_all add: acquire_head_def pop_publish_def\<close>)

subsection \<open>The producer\<close>

lemma zm_acquire_tail:
  assumes inv: "zm_inv C b m" and j: "cq_p_read m \<le> j" "j < length (cq_tails m)"
  shows "zm_inv C b (acquire_tail j m)"
    and "of_nat (length (cq_pushed m)) - fst (cq_tails m ! j) \<ge> C \<longleftrightarrow> length (cq_pushed m) = j + unat C"
proof -
  let ?m = "acquire_tail j m" and ?H = "length (cq_pushed m)"
  note t = zm_tail(2,3) [OF inv] and bd = zm_bounds [OF inv]
  have le: "j \<le> length (cq_popped m)" "j \<le> ?H" "?H \<le> j + unat C"
    using t(1) bd(1,3,4) inv j by (simp_all add: zm_inv_def zm_counters_def)
  show "of_nat ?H - fst (cq_tails m ! j) \<ge> C \<longleftrightarrow> ?H = j + unat C"
    using of_nat_diff_counter [OF bd(6) le(2,3)] le t(2) [OF j(2)] by (simp add: word_le_nat_alt) linarith
  have aware: "cq_p_aware m = 2 * cq_p_read m" using inv by (simp add: zm_inv_def zm_counters_def)
  then have m: "?m = m\<lparr>cq_p_read := j, cq_p_aware := 2 * j\<rparr>" using t(2) [OF j(2)] j(1) by (simp add: acquire_tail_def)
  have its: "moved_items ?m = moved_items m" "destroyed_items ?m = destroyed_items m"
    by (simp_all add: m moved_items_def destroyed_items_def)
  have "zm_counters C ?m" using inv le unfolding zm_inv_def zm_counters_def its by (simp add: m)
  moreover have "zm_slots C b ?m" using inv unfolding zm_inv_def zm_slots_def its by (simp add: m)
  moreover have "zm_access C ?m"
  proof -
    have "?H < j + unat C" if "?H < cq_p_read m + unat C" using that j(1) by simp
    then show ?thesis using inv unfolding zm_inv_def zm_access_def its by (simp add: m) blast
  qed
  moreover have "consumer_inv ?m (cq_cpc ?m)" using inv by (cases "cq_cpc m") (simp_all add: zm_inv_def m)
  ultimately show "zm_inv C b ?m" using inv j(1) by (simp add: zm_inv_def) (auto simp: m)
qed

lemma zm_pointer_access:
  assumes inv: "zm_inv C b m" and room: "length (cq_pushed m) < cq_p_read m + unat C"
  shows "\<exists>m'. pointer_access (length (cq_pushed m) mod unat C) m = Some m' \<and> zm_inv C b m' \<and>
    cq_slots m' = cq_slots m \<and> cq_pushed m' = cq_pushed m \<and> cq_p_read m' = cq_p_read m"
proof -
  let ?i = "length (cq_pushed m) mod unat C"
  let ?m = "m\<lparr>cq_p_clock := Suc (cq_p_clock m), cq_p_access := (cq_p_access m)[?i := Suc (cq_p_clock m)]\<rparr>"
  have def: "pointer_access ?i m = Some ?m" using pointer_no_race [OF assms] by (simp add: pointer_access_def)
  have its: "moved_items ?m = moved_items m" "destroyed_items ?m = destroyed_items m"
    by (simp_all add: moved_items_def destroyed_items_def)
  have "zm_counters C ?m" "zm_slots C b ?m"
    using inv unfolding zm_inv_def zm_counters_def zm_slots_def its by simp_all
  moreover have "zm_access C ?m"
    unfolding zm_access_def its
  proof (intro conjI allI impI)
    fix i assume i: "i < unat C"
    show "cq_p_access ?m ! i = 0 \<or>
        (\<exists>k < length (cq_pushed ?m). k mod unat C = i \<and> cq_p_access ?m ! i \<le> snd (cq_heads ?m ! Suc k)) \<or>
        (i = length (cq_pushed ?m) mod unat C \<and> length (cq_pushed ?m) < cq_p_read ?m + unat C \<and>
         cq_p_access ?m ! i \<le> cq_p_clock ?m)"
    proof (cases "i = ?i")
      case True
      then show ?thesis using room inv i by (simp add: zm_inv_def zm_access_def)
    next
      case False
      have "cq_p_access m ! i = 0 \<or> (\<exists>k < length (cq_pushed m). k mod unat C = i \<and> cq_p_access m ! i \<le> snd (cq_heads m ! Suc k))"
        using inv i False unfolding zm_inv_def zm_access_def by blast
      then show ?thesis using False by simp
    qed
  qed (use inv in \<open>simp_all add: zm_inv_def zm_access_def\<close>)
  moreover have "consumer_inv ?m (cq_cpc ?m)" using inv by (cases "cq_cpc m") (simp_all add: zm_inv_def)
  ultimately have "zm_inv C b ?m" using inv by (simp add: zm_inv_def)
  with def show ?thesis by simp
qed

lemma zm_set_slot:
  assumes inv: "zm_inv C b m" and room: "length (cq_pushed m) < cq_p_read m + unat C"
  shows "zm_inv C (x \<noteq> None) (m\<lparr>cq_slots := (cq_slots m)[length (cq_pushed m) mod unat C := x]\<rparr>)"
    and "cq_slots m ! (length (cq_pushed m) mod unat C) = None \<longleftrightarrow> \<not> b"
    and "length (cq_pushed m) mod unat C < length (cq_slots m)"
proof -
  let ?n = "unat C" and ?H = "length (cq_pushed m)" and ?d = "destroyed_items m"
  let ?i = "?H mod ?n" and ?m = "m\<lparr>cq_slots := (cq_slots m)[?H mod ?n := x]\<rparr>"
  note bd = zm_bounds [OF inv]
  have win: "?d \<le> ?H" "?H < ?d + ?n" using bd room by simp_all
  have lens: "length (cq_slots m) = ?n" using inv by (simp add: zm_inv_def zm_slots_def)
  then show "?i < length (cq_slots m)" using bd(7) by simp
  show "cq_slots m ! ?i = None \<longleftrightarrow> \<not> b" using inv win by (simp add: zm_inv_def zm_slots_def)
  have its: "moved_items ?m = moved_items m" "destroyed_items ?m = ?d"
    by (simp_all add: moved_items_def destroyed_items_def)
  have neq: "k mod ?n \<noteq> ?i" if "?d \<le> k" "k < ?d + ?n" "k \<noteq> ?H" for k
    using congruent_window [of ?d k ?n ?H] that win by auto
  have "zm_counters C ?m" "zm_access C ?m"
    using inv unfolding zm_inv_def zm_counters_def zm_access_def its by simp_all
  moreover have "zm_slots C (x \<noteq> None) ?m"
    unfolding zm_slots_def its
  proof (intro conjI allI impI)
    fix k assume k: "?d \<le> k \<and> k < length (cq_pushed ?m)"
    then show "cq_slots ?m ! (k mod ?n) = Some (cq_pushed ?m ! k)"
      using neq [of k] win inv by (simp add: zm_inv_def zm_slots_def)
  next
    fix k assume k: "length (cq_pushed ?m) \<le> k \<and> k < ?d + ?n"
    show "cq_slots ?m ! (k mod ?n) = None \<longleftrightarrow> \<not> (x \<noteq> None \<and> k = length (cq_pushed ?m))"
    proof (cases "k = ?H")
      case False
      then show ?thesis using neq [of k] k win(1) inv by (simp add: zm_inv_def zm_slots_def)
    qed (use lens bd(7) in simp)
  qed (simp add: lens)
  moreover have "consumer_inv ?m (cq_cpc ?m)" using inv by (cases "cq_cpc m") (simp_all add: zm_inv_def)
  ultimately show "zm_inv C (x \<noteq> None) ?m" using inv room by (simp add: zm_inv_def)
qed

lemma zm_publish:
  assumes inv: "zm_inv C True m" and v: "cq_slots m ! (length (cq_pushed m) mod unat C) = Some v"
  shows "zm_inv C False (m\<lparr>cq_heads := cq_heads m @ [(of_nat (length (cq_pushed m)) + 1, cq_p_clock m)],
    cq_pushed := cq_pushed m @ [v]\<rparr>)" (is "zm_inv C False ?m")
proof -
  let ?n = "unat C" and ?H = "length (cq_pushed m)"
  note bd = zm_bounds [OF inv] and h = zm_head [OF inv]
  have room: "?H < cq_p_read m + ?n" using inv by (simp add: zm_inv_def)
  have its: "moved_items ?m = moved_items m" "destroyed_items ?m = destroyed_items m"
    by (simp_all add: moved_items_def destroyed_items_def)
  have cnt: "zm_counters C m" using inv by (simp add: zm_inv_def)
  have clocks: "sorted (map snd (cq_heads m @ [(of_nat ?H + 1, cq_p_clock m)]))"
  proof -
    have "snd x \<le> cq_p_clock m" if x: "x \<in> set (cq_heads m)" for x
    proof -
      obtain i where "i < length (cq_heads m)" "x = cq_heads m ! i" using x by (auto simp: in_set_conv_nth)
      then have "snd x \<le> snd (last (cq_heads m))" using h(1,4,5) by simp
      then show ?thesis using cnt by (simp add: zm_counters_def)
    qed
    then show ?thesis using cnt by (auto simp: zm_counters_def sorted_append)
  qed
  have "zm_counters C ?m"
    using cnt room clocks h(1) unfolding zm_counters_def its by (simp add: nth_append add.commute)
  moreover have "zm_access C ?m"
    unfolding zm_access_def its
  proof (intro conjI allI impI)
    fix i assume i: "i < ?n"
    have "cq_p_access m ! i = 0 \<or> (\<exists>k < ?H. k mod ?n = i \<and> cq_p_access m ! i \<le> snd (cq_heads m ! Suc k)) \<or>
        (i = ?H mod ?n \<and> cq_p_access m ! i \<le> cq_p_clock m)"
      using inv i unfolding zm_inv_def zm_access_def by blast
    then show "cq_p_access ?m ! i = 0 \<or>
        (\<exists>k < length (cq_pushed ?m). k mod ?n = i \<and> cq_p_access ?m ! i \<le> snd (cq_heads ?m ! Suc k)) \<or>
        (i = length (cq_pushed ?m) mod ?n \<and> length (cq_pushed ?m) < cq_p_read ?m + ?n \<and>
         cq_p_access ?m ! i \<le> cq_p_clock ?m)"
    proof (elim disjE exE conjE)
      fix k assume "k < ?H" "k mod ?n = i" "cq_p_access m ! i \<le> snd (cq_heads m ! Suc k)"
      then have "k < length (cq_pushed ?m) \<and> k mod ?n = i \<and> cq_p_access ?m ! i \<le> snd (cq_heads ?m ! Suc k)"
        using h(1) by (simp add: nth_append)
      then show ?thesis by blast
    next
      assume "i = ?H mod ?n" "cq_p_access m ! i \<le> cq_p_clock m"
      then have "?H < length (cq_pushed ?m) \<and> ?H mod ?n = i \<and> cq_p_access ?m ! i \<le> snd (cq_heads ?m ! Suc ?H)"
        using h(1) by (simp add: nth_append)
      then show ?thesis by blast
    qed simp
  qed (use inv in \<open>simp_all add: zm_inv_def zm_access_def\<close>)
  moreover have "zm_slots C False ?m"
    unfolding zm_slots_def its
  proof (intro conjI allI impI)
    fix k assume "destroyed_items m \<le> k \<and> k < length (cq_pushed ?m)"
    then show "cq_slots ?m ! (k mod ?n) = Some (cq_pushed ?m ! k)"
      using inv v by (cases "k = ?H") (simp_all add: zm_inv_def zm_slots_def nth_append)
  next
    fix k assume "length (cq_pushed ?m) \<le> k \<and> k < destroyed_items m + ?n"
    then show "cq_slots ?m ! (k mod ?n) = None \<longleftrightarrow> \<not> (False \<and> k = length (cq_pushed ?m))"
      using inv by (simp add: zm_inv_def zm_slots_def)
  qed (use inv in \<open>simp add: zm_inv_def zm_slots_def\<close>)
  moreover have "consumer_inv ?m (cq_cpc ?m)"
    using inv by (cases "cq_cpc m") (simp_all add: zm_inv_def zm_counters_def nth_append)
  ultimately show ?thesis using inv bd(1,3,4) by (simp add: zm_inv_def)
qed

subsection \<open>Preservation\<close>

lemma zp_inv_cong:
  "cq_pushed m' = cq_pushed m \<Longrightarrow> cq_p_read m' = cq_p_read m \<Longrightarrow> zp_inv C m' a r pc = zp_inv C m a r pc"
  by (cases pc) (simp_all add: owns_slot_def)

lemma owns_slot_mono: "owns_slot C m r \<Longrightarrow> cq_pushed m' = cq_pushed m \<Longrightarrow> cq_p_read m \<le> cq_p_read m' \<Longrightarrow> owns_slot C m' r"
  by (simp add: owns_slot_def)

lemma owns_slot_simps:
  "owns_slot C m r \<Longrightarrow> rv_ptr r = Some (length (cq_pushed m) mod unat C)"
  "owns_slot C m r \<Longrightarrow> length (cq_pushed m) < cq_p_read m + unat C"
  "owns_slot C m (r\<lparr>rv_constructed := c\<rparr>) = owns_slot C m r"
  by (simp_all add: owns_slot_def)

lemma zq_build:
  assumes m: "zm_inv C False (zq_mem s)" and o: "owns_slot C (zq_mem s) (zq_reservation s)" and a: "zq_active s"
  shows "\<exists>s'. reservation_build v s = Some s' \<and> zq_inv C s'"
proof -
  let ?i = "length (cq_pushed (zq_mem s)) mod unat C"
  obtain m' where m': "pointer_access ?i (zq_mem s) = Some m'" "zm_inv C False m'"
      "cq_slots m' = cq_slots (zq_mem s)" "cq_pushed m' = cq_pushed (zq_mem s)" "cq_p_read m' = cq_p_read (zq_mem s)"
    using zm_pointer_access [OF m owns_slot_simps(2) [OF o]] by auto
  have room: "length (cq_pushed m') < cq_p_read m' + unat C" using owns_slot_simps(2) [OF o] m' by simp
  note st = zm_set_slot(1) [OF m'(2) room, of "Some v"] zm_set_slot(2,3) [OF m'(2) room]
  have "reservation_build v s = Some (s\<lparr>zq_mem := m'\<lparr>cq_slots := (cq_slots m')[?i := Some v]\<rparr>,
      zq_reservation := (zq_reservation s)\<lparr>rv_constructed := True\<rparr>, zq_pc := Z_idle\<rparr>)"
    using m' st(2,3) owns_slot_simps(1) [OF o] by (simp add: reservation_build_def construct_at_def)
  moreover have "owns_slot C (m'\<lparr>cq_slots := (cq_slots m')[?i := Some v]\<rparr>) (zq_reservation s)"
    using o m' by (simp add: owns_slot_def)
  ultimately show ?thesis using st(1) m'(4) a by (simp add: zq_inv_def owns_slot_simps(3))
qed

lemma zq_unbuild:
  assumes m: "zm_inv C True (zq_mem s)" and o: "owns_slot C (zq_mem s) (zq_reservation s)"
  shows "\<exists>m'. reservation_unbuild pc s = Some (s\<lparr>zq_mem := m', zq_pc := pc\<rparr>) \<and> zm_inv C False m' \<and>
    owns_slot C m' (zq_reservation s)"
proof -
  let ?i = "length (cq_pushed (zq_mem s)) mod unat C"
  obtain m' where m': "pointer_access ?i (zq_mem s) = Some m'" "zm_inv C True m'"
      "cq_slots m' = cq_slots (zq_mem s)" "cq_pushed m' = cq_pushed (zq_mem s)" "cq_p_read m' = cq_p_read (zq_mem s)"
    using zm_pointer_access [OF m owns_slot_simps(2) [OF o]] by auto
  have room: "length (cq_pushed m') < cq_p_read m' + unat C" using owns_slot_simps(2) [OF o] m' by simp
  note st = zm_set_slot(1) [OF m'(2) room, of None] zm_set_slot(2,3) [OF m'(2) room]
  have "reservation_unbuild pc s = Some (s\<lparr>zq_mem := m'\<lparr>cq_slots := (cq_slots m')[?i := None]\<rparr>, zq_pc := pc\<rparr>)"
    using m' st(2,3) owns_slot_simps(1) [OF o] by (simp add: reservation_unbuild_def destroy_at_def)
  moreover have "owns_slot C (m'\<lparr>cq_slots := (cq_slots m')[?i := None]\<rparr>) (zq_reservation s)"
    using o m' by (simp add: owns_slot_def)
  ultimately show ?thesis using st(1) m'(4) by auto
qed

lemma zq_inv_idle:
  assumes "zq_inv C s" "zq_pc s = Z_idle"
  shows "zm_inv C (rv_constructed (zq_reservation s)) (zq_mem s)"
    "if zq_active s then owns_slot C (zq_mem s) (zq_reservation s) else no_reservation (zq_reservation s)"
    "rv_queue (zq_reservation s) = zq_active s"
  using assms by (auto simp: zq_inv_def no_reservation_def owns_slot_def split: if_splits)

lemma zq_construct_start:
  assumes inv: "zq_inv C s" "zq_pc s = Z_idle" and q: "rv_queue (zq_reservation s)"
  shows "\<exists>s'. construct_start v s = Some s' \<and> zq_inv C s'"
proof -
  note i = zq_inv_idle [OF inv]
  have o: "owns_slot C (zq_mem s) (zq_reservation s)" and a: "zq_active s" using i(2,3) q by simp_all
  show ?thesis
  proof (cases "rv_constructed (zq_reservation s)")
    case True
    then obtain m' where "reservation_unbuild (Z_rebuild v) s = Some (s\<lparr>zq_mem := m', zq_pc := Z_rebuild v\<rparr>)"
        "zm_inv C False m'" "owns_slot C m' (zq_reservation s)"
      using zq_unbuild [OF _ o, of "Z_rebuild v"] i(1) by auto
    then show ?thesis using True a by (simp add: construct_start_def zq_inv_def owns_slot_simps(3))
  next
    case False
    then show ?thesis using zq_build [OF _ o a, of v] i(1) by (simp add: construct_start_def)
  qed
qed

lemma no_reservation_released: "no_reservation (released r)"
  by (simp add: no_reservation_def released_def)

lemma zq_release:
  "zm_inv C False (zq_mem s) \<Longrightarrow> zq_inv C (release_flag None s)"
  using no_reservation_released [of "zq_reservation s"]
  by (simp add: zq_inv_def release_flag_def) (simp add: no_reservation_def)

lemma zq_cancel_start:
  assumes inv: "zq_inv C s" "zq_pc s = Z_idle"
  shows "\<exists>s'. cancel_start None s = Some s' \<and> zq_inv C s'"
proof (cases "zq_active s")
  case True
  note i = zq_inv_idle [OF inv]
  have o: "owns_slot C (zq_mem s) (zq_reservation s)" using i(2) True by simp
  show ?thesis
  proof (cases "rv_constructed (zq_reservation s)")
    case c: True
    then obtain m' where "reservation_unbuild (Z_cancelled None) s = Some (s\<lparr>zq_mem := m', zq_pc := Z_cancelled None\<rparr>)"
        "zm_inv C False m'"
      using zq_unbuild [OF _ o, of "Z_cancelled None"] i(1) by auto
    then show ?thesis using c True i(3) by (simp add: cancel_start_def zq_inv_def)
  next
    case False
    then show ?thesis using zq_release [of C s] True i(1,3) by (simp add: cancel_start_def)
  qed
next
  case False
  then have "cancel_start None s = Some s" using inv(2) zq_inv_idle(3) [OF inv] by (simp add: cancel_start_def)
  then show ?thesis using inv(1) by simp
qed

lemma zq_commit_start:
  assumes inv: "zq_inv C s" "zq_pc s = Z_idle"
  shows "\<exists>s'. commit_start s = Some s' \<and> zq_inv C s'"
proof (cases "rv_queue (zq_reservation s) \<and> rv_constructed (zq_reservation s)")
  case True
  note i = zq_inv_idle [OF inv]
  let ?m = "zq_mem s"
  have o: "owns_slot C ?m (zq_reservation s)" and a: "zq_active s" and m: "zm_inv C True ?m"
    using i True by simp_all
  obtain v where v: "cq_slots ?m ! (length (cq_pushed ?m) mod unat C) = Some v"
    using zm_set_slot(2) [OF m owns_slot_simps(2) [OF o]] by auto
  have "commit_publish s = Some (s\<lparr>zq_mem := ?m\<lparr>cq_heads := cq_heads ?m @
      [(of_nat (length (cq_pushed ?m)) + 1, cq_p_clock ?m)], cq_pushed := cq_pushed ?m @ [v]\<rparr>, zq_pc := Z_published\<rparr>)"
    using o v zm_set_slot(3) [OF m owns_slot_simps(2) [OF o]]
    by (simp add: commit_publish_def slot_value_def owns_slot_def Let_def)
  then show ?thesis using True a zm_publish [OF m v] by (simp add: commit_start_def zq_inv_def)
qed (use inv(1) in \<open>auto simp: commit_start_def\<close>)

lemma zq_reserve:
  assumes inv: "zq_inv C s" "zq_pc s = Z_head_loaded h"
    and j: "cq_p_read (zq_mem s) \<le> j" "j < length (cq_tails (zq_mem s))"
  shows "zq_inv C (s\<lparr>zq_mem := acquire_tail j (zq_mem s), zq_pc := Z_no_room\<rparr>)"
    and "\<not> h - fst (cq_tails (zq_mem s) ! j) \<ge> C \<Longrightarrow>
      zq_inv C (s\<lparr>zq_mem := acquire_tail j (zq_mem s), zq_pc := Z_granted (granted C h)\<rparr>)"
proof -
  have m: "zm_inv C False (zq_mem s)" and p: "zq_active s" "no_reservation (zq_reservation s)"
      "h = of_nat (length (cq_pushed (zq_mem s)))"
    using inv by (auto simp: zq_inv_def no_reservation_def)
  note t = zm_acquire_tail [OF m j]
  show "zq_inv C (s\<lparr>zq_mem := acquire_tail j (zq_mem s), zq_pc := Z_no_room\<rparr>)"
    using t(1) p by (simp add: zq_inv_def) (simp add: no_reservation_def)
  assume "\<not> h - fst (cq_tails (zq_mem s) ! j) \<ge> C"
  then have "length (cq_pushed (zq_mem s)) < j + unat C"
    using t(2) p(3) j m by (simp add: zm_inv_def zm_counters_def)
  then have "owns_slot C (acquire_tail j (zq_mem s)) (granted C h)"
    using p(3) slot_index_of_nat [OF zm_bounds(6) [OF m]] by (simp add: owns_slot_def granted_def acquire_tail_def)
  then show "zq_inv C (s\<lparr>zq_mem := acquire_tail j (zq_mem s), zq_pc := Z_granted (granted C h)\<rparr>)"
    using t(1) p by (simp add: zq_inv_def granted_def) (simp add: no_reservation_def)
qed

lemma zq_inv_call:
  assumes inv: "zq_inv C s" and step: "zc_call op s r"
  shows "\<exists>s'. r = Some s' \<and> zq_inv C s'"
  using step
proof (cases rule: zc_call.cases)
  case reserve_take
  then show ?thesis using inv by (simp add: zq_inv_def)
qed (use inv zq_construct_start [OF inv] zq_commit_start [OF inv] zq_cancel_start [OF inv] in simp_all)

lemma zq_inv_producer_step:
  assumes inv: "zq_inv C s" and step: "zc_producer_step s r"
  shows "\<exists>s'. r = Some s' \<and> zq_inv C s'"
  using step
proof (cases rule: zc_producer_step.cases)
  case (first_step op)
  then show ?thesis using zq_inv_call [OF inv] by simp
next
  case reserve_head
  then have "zm_inv C (rv_constructed (zq_reservation s)) (zq_mem s)" using inv by (simp add: zq_inv_def)
  then show ?thesis using reserve_head inv zm_head(3) by (auto simp: zq_inv_def)
next
  case (reserve_full h j)
  then show ?thesis using zq_reserve(1) [OF inv] by simp
next
  case reserve_back
  then show ?thesis using inv by (simp add: zq_inv_def)
next
  case (reserve_room h j)
  then show ?thesis using zq_reserve(2) [OF inv reserve_room(2-4)] inv by (simp add: zq_inv_def zm_inv_def zm_counters_def)
next
  case (reserve_move r')
  then show ?thesis using inv by (auto simp: zq_inv_def cancel_start_def no_reservation_def)
next
  case (construct_again v)
  then show ?thesis using zq_build [of C s v] inv unfolding zq_inv_def by (cases "rv_constructed (zq_reservation s)") simp_all
next
  case commit_flag
  then show ?thesis using zq_release [of C s] inv by (simp add: zq_inv_def)
next
  case (cancel_flag moved)
  then show ?thesis using zq_release [of C s] inv by (simp add: zq_inv_def)
next
  case (reserve_observe j)
  have "zm_inv C (rv_constructed (zq_reservation s)) (acquire_tail j (zq_mem s))"
    using zm_acquire_tail(1) [OF zq_inv_idle(1) [OF inv reserve_observe(2)] reserve_observe(3,4)] .
  moreover have "zp_inv C (acquire_tail j (zq_mem s)) (zq_active s) (zq_reservation s) Z_idle"
    using zq_inv_idle(2) [OF inv reserve_observe(2)] owns_slot_mono [of C "zq_mem s" _ "acquire_tail j (zq_mem s)"]
      reserve_observe(3) by (auto simp: acquire_tail_def)
  ultimately show ?thesis using reserve_observe by (simp add: zq_inv_def)
qed

lemma zq_inv_consumer_step:
  assumes inv: "zq_inv C s" and step: "zc_consumer_step s r"
  shows "\<exists>s'. r = Some s' \<and> zq_inv C s'"
proof -
  obtain x where x: "consumer_step (zq_mem s) x" "r = map_option (\<lambda>m. s\<lparr>zq_mem := m\<rparr>) x"
    using step by (auto elim: zc_consumer_step.cases)
  obtain m' where "x = Some m'" "zm_inv C (building (zq_reservation s) (zq_pc s)) m'"
      "cq_pushed m' = cq_pushed (zq_mem s)" "cq_p_read m' = cq_p_read (zq_mem s)"
    using zm_consumer_step [OF _ x(1)] inv unfolding zq_inv_def by blast
  then show ?thesis using x(2) inv zp_inv_cong [of m' "zq_mem s"] by (simp add: zq_inv_def)
qed

lemmas zq_inv_steps = zq_inv_producer_step zq_inv_consumer_step

lemma zc_reach_inv: "zc_reach C s \<Longrightarrow> static_capacity C \<Longrightarrow> zq_inv C s"
  by (induction rule: zc_reach.induct) (auto simp: zq_inv_init zc_conc_step_def dest: zq_inv_steps)

section \<open>Agreement with the sequential model\<close>

definition zc_of :: "'a zc_conc \<Rightarrow> 'a ZeroCopySpsc" where
  "zc_of s = \<lparr>zc_capacity = cq_capacity (zq_mem s), zc_buffer = cq_slots (zq_mem s),
     zc_head = fst (last (cq_heads (zq_mem s))), zc_tail = fst (last (cq_tails (zq_mem s))), zc_active = zq_active s\<rparr>"

text \<open>
  A call of an operation is its first step and then steps of the producer until it returns; the consumer,
  which may be in the middle of its own call, does not step.
\<close>

inductive zc_finishes :: "'a zc_conc \<Rightarrow> 'a zc_conc \<Rightarrow> bool" where
  operation_returned: "zq_pc s = Z_idle \<Longrightarrow> zc_finishes s s"
| operation_goes_on:
    "zq_pc s \<noteq> Z_idle \<Longrightarrow> zc_producer_step s (Some s1) \<Longrightarrow> zc_finishes s1 s' \<Longrightarrow> zc_finishes s s'"

definition operation_call :: "'a zc_op \<Rightarrow> 'a zc_conc \<Rightarrow> 'a zc_conc \<Rightarrow> bool" where
  "operation_call op s s' \<longleftrightarrow> (\<exists>s1. zc_call op s (Some s1) \<and> zc_finishes s1 s')"

lemma zc_finishes_simps:
  "zq_pc s = Z_idle \<Longrightarrow> zc_finishes s s' \<longleftrightarrow> s' = s"
  "zq_pc s \<noteq> Z_idle \<Longrightarrow> zc_finishes s s' \<longleftrightarrow> (\<exists>s1. zc_producer_step s (Some s1) \<and> zc_finishes s1 s')"
  by (subst zc_finishes.simps; blast)+

lemma zc_call_at:
  "zc_call Reserve s r \<longleftrightarrow>
     zq_pc s = Z_idle \<and> r = Some (if zq_active s then s else s\<lparr>zq_active := True, zq_pc := Z_flag_taken\<rparr>)"
  "zc_call (Construct v) s r \<longleftrightarrow> zq_pc s = Z_idle \<and> rv_queue (zq_reservation s) \<and> construct_start v s = r"
  "zc_call Commit s r \<longleftrightarrow> zq_pc s = Z_idle \<and> commit_start s = r"
  "zc_call Cancel s r \<longleftrightarrow> zq_pc s = Z_idle \<and> cancel_start None s = r"
  by (auto simp: zc_call.simps [of _ s])

lemma zc_call_idle: "zc_call op s r \<Longrightarrow> zq_pc s = Z_idle"
  by (cases rule: zc_call.cases) simp_all

lemma zc_producer_step_at:
  "zq_pc s = Z_flag_taken \<Longrightarrow> zc_producer_step s r \<longleftrightarrow> r = Some (s\<lparr>zq_pc := Z_head_loaded (fst (last (cq_heads (zq_mem s))))\<rparr>)"
  "zq_pc s = Z_no_room \<Longrightarrow> zc_producer_step s r \<longleftrightarrow> r = Some (s\<lparr>zq_active := False, zq_pc := Z_idle\<rparr>)"
  "zq_pc s = Z_granted g \<Longrightarrow> zc_producer_step s r \<longleftrightarrow> cancel_start (Some g) s = r"
  "zq_pc s = Z_rebuild v \<Longrightarrow> zc_producer_step s r \<longleftrightarrow> reservation_build v s = r"
  "zq_pc s = Z_published \<Longrightarrow> zc_producer_step s r \<longleftrightarrow> r = Some (release_flag None s)"
  "zq_pc s = Z_cancelled moved \<Longrightarrow> zc_producer_step s r \<longleftrightarrow> r = Some (release_flag moved s)"
  "zq_pc s = Z_head_loaded h \<Longrightarrow> zc_producer_step s r \<longleftrightarrow>
     (\<exists>j. cq_p_read (zq_mem s) \<le> j \<and> j < length (cq_tails (zq_mem s)) \<and>
       r = Some (s\<lparr>zq_mem := acquire_tail j (zq_mem s),
         zq_pc := (if h - fst (cq_tails (zq_mem s) ! j) \<ge> cq_capacity (zq_mem s) then Z_no_room
           else Z_granted (granted (cq_capacity (zq_mem s)) h))\<rparr>))"
  by (auto simp: zc_producer_step.simps [of s] dest: zc_call_idle)

lemma pointer_access_Some:
  assumes "pointer_access i m = Some m'"
  shows "cq_slots m' = cq_slots m" "cq_capacity m' = cq_capacity m" "cq_heads m' = cq_heads m" "cq_tails m' = cq_tails m"
    "cq_pushed m' = cq_pushed m" "cq_popped m' = cq_popped m" "cq_cpc m' = cq_cpc m"
  using assms by (auto simp: pointer_access_def split: if_splits)

lemma reservation_build_Some:
  assumes "reservation_build v s = Some s'"
  shows "rv_ptr (zq_reservation s) \<noteq> None" "zq_pc s' = Z_idle" "zq_reservation s' = (zq_reservation s)\<lparr>rv_constructed := True\<rparr>"
    "construct_at (cq_slots (zq_mem s)) (the (rv_ptr (zq_reservation s))) v = Some (cq_slots (zq_mem s'))"
    "zc_of s' = (zc_of s)\<lparr>zc_buffer := cq_slots (zq_mem s')\<rparr>"
    "cq_pushed (zq_mem s') = cq_pushed (zq_mem s)" "cq_popped (zq_mem s') = cq_popped (zq_mem s)"
    "cq_cpc (zq_mem s') = cq_cpc (zq_mem s)"
  using assms by (auto simp: reservation_build_def zc_of_def bind_eq_Some_conv pointer_access_Some)

lemma reservation_unbuild_Some:
  assumes "reservation_unbuild pc s = Some s'"
  shows "rv_ptr (zq_reservation s) \<noteq> None" "zq_pc s' = pc" "zq_reservation s' = zq_reservation s" "zq_active s' = zq_active s"
    "destroy_at (cq_slots (zq_mem s)) (the (rv_ptr (zq_reservation s))) = Some (cq_slots (zq_mem s'))"
    "zc_of s' = (zc_of s)\<lparr>zc_buffer := cq_slots (zq_mem s')\<rparr>"
    "cq_pushed (zq_mem s') = cq_pushed (zq_mem s)" "cq_popped (zq_mem s') = cq_popped (zq_mem s)"
    "cq_cpc (zq_mem s') = cq_cpc (zq_mem s)"
  using assms by (auto simp: reservation_unbuild_def zc_of_def bind_eq_Some_conv pointer_access_Some)

lemma commit_publish_Some:
  assumes "commit_publish s = Some s'"
  shows "zq_pc s' = Z_published" "zq_reservation s' = zq_reservation s"
    "cq_pushed (zq_mem s') = cq_pushed (zq_mem s) @ [the (cq_slots (zq_mem s) ! the (rv_ptr (zq_reservation s)))]"
    "cq_popped (zq_mem s') = cq_popped (zq_mem s)" "cq_cpc (zq_mem s') = cq_cpc (zq_mem s)"
    "zc_of s' = (zc_of s)\<lparr>zc_head := rv_index (zq_reservation s) + 1\<rparr>"
  using assms by (auto simp: commit_publish_def Let_def bind_eq_Some_conv slot_value_def zc_of_def split: if_splits)

lemma release_flag_sel [simp]:
  "zq_pc (release_flag mv s) = Z_idle" "zq_active (release_flag mv s) = False" "zq_mem (release_flag mv s) = zq_mem s"
  "zc_of (release_flag mv s) = (zc_of s)\<lparr>zc_active := False\<rparr>"
  "zq_reservation (release_flag None s) = released (zq_reservation s)"
  by (simp_all add: release_flag_def zc_of_def)

lemma zc_finishes_at:
  "zq_pc s = Z_published \<Longrightarrow> zc_finishes s s' \<longleftrightarrow> s' = release_flag None s"
  "zq_pc s = Z_cancelled moved \<Longrightarrow> zc_finishes s s' \<longleftrightarrow> s' = release_flag moved s"
  "zq_pc s = Z_no_room \<Longrightarrow> zc_finishes s s' \<longleftrightarrow> s' = s\<lparr>zq_active := False, zq_pc := Z_idle\<rparr>"
  by (simp_all add: zc_finishes_simps(2) zc_producer_step_at zc_finishes_simps(1))

lemma zc_finishes_rebuild:
  assumes "zq_pc s = Z_rebuild v"
  shows "zc_finishes s s' \<longleftrightarrow> reservation_build v s = Some s'"
proof -
  have "zc_finishes s s' \<longleftrightarrow> (\<exists>s1. reservation_build v s = Some s1 \<and> zc_finishes s1 s')"
    using assms by (simp add: zc_finishes_simps(2) zc_producer_step_at)
  then show ?thesis by (metis reservation_build_Some(2) zc_finishes_simps(1))
qed

lemma zc_finishes_granted:
  assumes "zq_pc s = Z_granted g" "\<not> rv_queue (zq_reservation s)"
  shows "zc_finishes s s' \<longleftrightarrow> s' = s\<lparr>zq_pc := Z_idle, zq_reservation := g\<rparr>"
  using assms by (simp add: zc_finishes_simps(2) zc_producer_step_at cancel_start_def zc_finishes_simps(1))

text \<open>The calls, operation by operation.\<close>

lemma construct_call_iff:
  assumes "zq_pc s = Z_idle" "rv_queue (zq_reservation s)"
  shows "operation_call (Construct v) s s' \<longleftrightarrow>
    (if rv_constructed (zq_reservation s)
     then \<exists>t. reservation_unbuild (Z_rebuild v) s = Some t \<and>
       reservation_build v (t\<lparr>zq_reservation := (zq_reservation t)\<lparr>rv_constructed := False\<rparr>\<rparr>) = Some s'
     else reservation_build v s = Some s')"
proof -
  have call: "operation_call (Construct v) s s' \<longleftrightarrow> (\<exists>s1. construct_start v s = Some s1 \<and> zc_finishes s1 s')"
    using assms by (simp add: operation_call_def zc_call_at)
  show ?thesis
  proof (cases "rv_constructed (zq_reservation s)")
    case True
    have "zc_finishes (t\<lparr>zq_reservation := x\<rparr>) s' \<longleftrightarrow> reservation_build v (t\<lparr>zq_reservation := x\<rparr>) = Some s'"
      if "reservation_unbuild (Z_rebuild v) s = Some t" for t x
      using reservation_unbuild_Some(2) [OF that] by (simp add: zc_finishes_rebuild)
    then show ?thesis using True unfolding call construct_start_def by auto
  next
    case False
    then show ?thesis unfolding call construct_start_def by (simp, metis reservation_build_Some(2) zc_finishes_simps(1))
  qed
qed

lemma commit_call_iff:
  assumes "zq_pc s = Z_idle"
  shows "operation_call Commit s s' \<longleftrightarrow>
    (if rv_queue (zq_reservation s) \<and> rv_constructed (zq_reservation s)
     then \<exists>s1. commit_publish s = Some s1 \<and> s' = release_flag None s1 else s' = s)"
proof -
  have call: "operation_call Commit s s' \<longleftrightarrow> (\<exists>s1. commit_start s = Some s1 \<and> zc_finishes s1 s')"
    using assms by (simp add: operation_call_def zc_call_at)
  show ?thesis
  proof (cases "rv_queue (zq_reservation s) \<and> rv_constructed (zq_reservation s)")
    case True
    then show ?thesis unfolding call commit_start_def by (simp, metis commit_publish_Some(1) zc_finishes_at(1))
  next
    case False
    then show ?thesis using assms unfolding call commit_start_def by (auto simp: zc_finishes_simps(1))
  qed
qed

lemma cancel_call_iff:
  assumes "zq_pc s = Z_idle"
  shows "operation_call Cancel s s' \<longleftrightarrow>
    (if \<not> rv_queue (zq_reservation s) then s' = s
     else if rv_constructed (zq_reservation s)
     then \<exists>s1. reservation_unbuild (Z_cancelled None) s = Some s1 \<and> s' = release_flag None s1
     else s' = release_flag None s)"
proof -
  have call: "operation_call Cancel s s' \<longleftrightarrow> (\<exists>s1. cancel_start None s = Some s1 \<and> zc_finishes s1 s')"
    using assms by (simp add: operation_call_def zc_call_at)
  have e: "s\<lparr>zq_pc := Z_idle, zq_reservation := zq_reservation s\<rparr> = s" using assms by (cases s) simp
  have "(\<exists>s1. reservation_unbuild (Z_cancelled None) s = Some s1 \<and> zc_finishes s1 s') \<longleftrightarrow>
      (\<exists>s1. reservation_unbuild (Z_cancelled None) s = Some s1 \<and> s' = release_flag None s1)"
    by (metis reservation_unbuild_Some(2) zc_finishes_at(2))
  then show ?thesis unfolding call cancel_start_def using assms by (simp add: Let_def e zc_finishes_simps(1))
qed

lemma reserve_call_iff:
  assumes idle: "zq_pc s = Z_idle" and free: "\<not> zq_active s" "\<not> rv_queue (zq_reservation s)"
  shows "operation_call Reserve s s' \<longleftrightarrow>
    (let m = zq_mem s; h = fst (last (cq_heads m)) in
     \<exists>j. cq_p_read m \<le> j \<and> j < length (cq_tails m) \<and>
       s' = (if cq_capacity m \<le> h - fst (cq_tails m ! j) then s\<lparr>zq_mem := acquire_tail j m\<rparr>
             else s\<lparr>zq_mem := acquire_tail j m, zq_active := True, zq_reservation := granted (cq_capacity m) h\<rparr>))"
proof -
  let ?m = "zq_mem s" and ?C = "cq_capacity (zq_mem s)" and ?h = "fst (last (cq_heads (zq_mem s)))"
  let ?s1 = "s\<lparr>zq_active := True, zq_pc := Z_flag_taken\<rparr>" and ?s2 = "s\<lparr>zq_active := True, zq_pc := Z_head_loaded ?h\<rparr>"
  let ?s3 = "\<lambda>j. s\<lparr>zq_active := True, zq_mem := acquire_tail j ?m,
    zq_pc := (if ?C \<le> ?h - fst (cq_tails ?m ! j) then Z_no_room else Z_granted (granted ?C ?h))\<rparr>"
  have "operation_call Reserve s s' \<longleftrightarrow> zc_finishes ?s1 s'"
    using idle free by (simp add: operation_call_def zc_call_at)
  also have "\<dots> \<longleftrightarrow> zc_finishes ?s2 s'"
  proof -
    have "zc_producer_step ?s1 (Some t) \<longleftrightarrow> t = ?s2" for t by (simp add: zc_producer_step_at(1))
    then show ?thesis using zc_finishes_simps(2) [of ?s1 s'] by auto
  qed
  also have "\<dots> \<longleftrightarrow> (\<exists>j. cq_p_read ?m \<le> j \<and> j < length (cq_tails ?m) \<and> zc_finishes (?s3 j) s')"
  proof -
    have "zc_producer_step ?s2 (Some t) \<longleftrightarrow> (\<exists>j. cq_p_read ?m \<le> j \<and> j < length (cq_tails ?m) \<and> t = ?s3 j)" for t
      by (simp add: zc_producer_step_at(7))
    moreover have "zc_finishes ?s2 s' \<longleftrightarrow> (\<exists>t. zc_producer_step ?s2 (Some t) \<and> zc_finishes t s')"
      by (rule zc_finishes_simps(2)) simp
    ultimately show ?thesis by metis
  qed
  finally have call: "operation_call Reserve s s' \<longleftrightarrow>
    (\<exists>j. cq_p_read ?m \<le> j \<and> j < length (cq_tails ?m) \<and> zc_finishes (?s3 j) s')" .
  have e: "s\<lparr>zq_mem := m, zq_active := False, zq_pc := Z_idle\<rparr> = s\<lparr>zq_mem := m\<rparr>"
      "s\<lparr>zq_active := True, zq_mem := m, zq_pc := Z_idle, zq_reservation := g\<rparr> =
       s\<lparr>zq_mem := m, zq_active := True, zq_reservation := g\<rparr>" for m g
    using idle free(1) by (cases s; simp)+
  have fin: "zc_finishes (?s3 j) s' \<longleftrightarrow> s' = (if ?C \<le> ?h - fst (cq_tails ?m ! j) then s\<lparr>zq_mem := acquire_tail j ?m\<rparr>
      else s\<lparr>zq_mem := acquire_tail j ?m, zq_active := True, zq_reservation := granted ?C ?h\<rparr>)" for j
    using free(2) e by (simp add: zc_finishes_at(3) zc_finishes_granted)
  show ?thesis unfolding call fin Let_def ..
qed

text \<open>
  A call that did what the sequential operation does, and grew the committed values by the object in the
  slot exactly when that operation is a \<open>commit\<close> that returned true; and a \<open>try_reserve\<close> that refused,
  and changed nothing, because a \<open>tail_\<close> older than the newest one made the queue look full.
\<close>

definition sequential_call :: "'a \<Rightarrow> 'a zc_op \<Rightarrow> 'a zc_conc \<Rightarrow> 'a zc_conc \<Rightarrow> bool" where
  "sequential_call out op s s' \<longleftrightarrow>
     (\<exists>res. zc_step out (zq_reservation s, zc_of s) op = Some (res, zq_reservation s', zc_of s') \<and>
        cq_pushed (zq_mem s') = cq_pushed (zq_mem s) @
          (if res = Committed True then [the (cq_slots (zq_mem s) ! the (rv_ptr (zq_reservation s)))] else []))"

definition stale_refusal :: "'a zc_op \<Rightarrow> 'a zc_conc \<Rightarrow> 'a zc_conc \<Rightarrow> bool" where
  "stale_refusal op s s' \<longleftrightarrow>
     op = Reserve \<and> \<not> zq_active s \<and> zq_reservation s' = zq_reservation s \<and> zc_of s' = zc_of s \<and>
     cq_pushed (zq_mem s') = cq_pushed (zq_mem s) \<and>
     Suc (cq_p_read (zq_mem s')) < length (cq_tails (zq_mem s)) \<and>
     cq_capacity (zq_mem s) \<le> fst (last (cq_heads (zq_mem s))) - fst (cq_tails (zq_mem s) ! cq_p_read (zq_mem s'))"

definition leaves_consumer :: "'a zc_conc \<Rightarrow> 'a zc_conc \<Rightarrow> bool" where
  "leaves_consumer s s' \<longleftrightarrow> cq_cpc (zq_mem s') = cq_cpc (zq_mem s) \<and> cq_popped (zq_mem s') = cq_popped (zq_mem s)"

lemma construct_call_result:
  assumes "zq_pc s = Z_idle" "rv_queue (zq_reservation s)" "operation_call (Construct v) s s'"
  shows "zq_pc s' = Z_idle \<and> leaves_consumer s s' \<and> sequential_call out (Construct v) s s'"
proof (cases "rv_constructed (zq_reservation s)")
  case True
  then obtain t where t: "reservation_unbuild (Z_rebuild v) s = Some t"
      and b: "reservation_build v (t\<lparr>zq_reservation := (zq_reservation t)\<lparr>rv_constructed := False\<rparr>\<rparr>) = Some s'"
    using assms(3) unfolding construct_call_iff [OF assms(1,2)] by auto
  note t' = reservation_unbuild_Some [OF t] and b' = reservation_build_Some [OF b]
  show ?thesis using True t' b'
    by (auto simp: sequential_call_def leaves_consumer_def reservation_construct_def zc_of_def)
next
  case False
  then have b: "reservation_build v s = Some s'" using assms(3) unfolding construct_call_iff [OF assms(1,2)] by auto
  show ?thesis using False reservation_build_Some [OF b]
    by (auto simp: sequential_call_def leaves_consumer_def reservation_construct_def zc_of_def)
qed

lemma commit_call_result:
  assumes "zq_pc s = Z_idle" "operation_call Commit s s'"
  shows "zq_pc s' = Z_idle \<and> leaves_consumer s s' \<and> sequential_call out Commit s s'"
proof (cases "rv_queue (zq_reservation s) \<and> rv_constructed (zq_reservation s)")
  case True
  then obtain s1 where s1: "commit_publish s = Some s1" "s' = release_flag None s1"
    using assms(2) unfolding commit_call_iff [OF assms(1)] by auto
  show ?thesis using True s1(2) commit_publish_Some [OF s1(1)]
    by (simp add: sequential_call_def leaves_consumer_def reservation_commit_def released_def)
next
  case False
  then have "s' = s" using assms(2) unfolding commit_call_iff [OF assms(1)] by auto
  then show ?thesis using False assms(1) by (auto simp: sequential_call_def leaves_consumer_def reservation_commit_def)
qed

lemma cancel_call_result:
  assumes "zq_pc s = Z_idle" "operation_call Cancel s s'"
  shows "zq_pc s' = Z_idle \<and> leaves_consumer s s' \<and> sequential_call out Cancel s s'"
proof (cases "rv_queue (zq_reservation s) \<and> rv_constructed (zq_reservation s)")
  case True
  then obtain s1 where s1: "reservation_unbuild (Z_cancelled None) s = Some s1" "s' = release_flag None s1"
    using assms(2) unfolding cancel_call_iff [OF assms(1)] by (auto split: if_splits)
  show ?thesis using True s1(2) reservation_unbuild_Some [OF s1(1)]
    by (auto simp: sequential_call_def leaves_consumer_def reservation_cancel_def released_def zc_of_def)
next
  case False
  then have "s' = (if rv_queue (zq_reservation s) then release_flag None s else s)" using assms(2) unfolding cancel_call_iff [OF assms(1)] by (auto split: if_splits)
  then show ?thesis using False assms(1)
    by (auto simp: sequential_call_def leaves_consumer_def reservation_cancel_def released_def zc_of_def)
qed

lemma newest_tail:
  assumes "zq_inv C s" "zq_pc s = Z_idle"
  defines "m \<equiv> zq_mem s"
  shows "cq_p_read m \<le> length (cq_popped m)" "length (cq_tails m) = Suc (length (cq_popped m))"
    "cq_tails m ! length (cq_popped m) = last (cq_tails m)"
    "cq_p_read m \<le> j \<Longrightarrow> j < length (cq_tails m) \<Longrightarrow> \<not> C \<le> fst (last (cq_heads m)) - fst (cq_tails m ! j) \<Longrightarrow>
      \<not> C \<le> fst (last (cq_heads m)) - fst (last (cq_tails m))"
proof -
  have inv: "zm_inv C (rv_constructed (zq_reservation s)) m" using zq_inv_idle(1) [OF assms(1,2)] by (simp add: m_def)
  show r: "cq_p_read m \<le> length (cq_popped m)" using zm_bounds(5) [OF inv] .
  show l: "length (cq_tails m) = Suc (length (cq_popped m))" using zm_tail(2) [OF inv] .
  then have "cq_tails m \<noteq> []" by auto
  then show t: "cq_tails m ! length (cq_popped m) = last (cq_tails m)" using l by (simp add: last_conv_nth)
  assume j: "cq_p_read m \<le> j" "j < length (cq_tails m)" "\<not> C \<le> fst (last (cq_heads m)) - fst (cq_tails m ! j)"
  then have "length (cq_pushed m) \<noteq> j + unat C" using zm_acquire_tail(2) [OF inv j(1,2)] zm_head(3) [OF inv] by simp
  moreover have "j \<le> length (cq_popped m)" "length (cq_pushed m) \<le> j + unat C"
    using j l inv by (simp_all add: zm_inv_def zm_counters_def)
  ultimately have "length (cq_pushed m) \<noteq> length (cq_popped m) + unat C" by simp
  then show "\<not> C \<le> fst (last (cq_heads m)) - fst (last (cq_tails m))"
    using zm_acquire_tail(2) [OF inv r] l t zm_head(3) [OF inv] by simp
qed

lemma reserve_granted_sequential:
  assumes "\<not> zq_active s" "\<not> rv_queue (zq_reservation s)"
    and "\<not> cq_capacity (zq_mem s) \<le> fst (last (cq_heads (zq_mem s))) - fst (last (cq_tails (zq_mem s)))"
    and "s' = s\<lparr>zq_mem := acquire_tail j (zq_mem s), zq_active := True,
      zq_reservation := granted (cq_capacity (zq_mem s)) (fst (last (cq_heads (zq_mem s))))\<rparr>"
  shows "sequential_call out Reserve s s'"
  using assms by (simp add: sequential_call_def zc_try_reserve_def zc_of_def acquire_tail_def Let_def
    reservation_move_assign_def reservation_cancel_def reservation_move_from_def granted_def)

lemma reserve_refused_sequential:
  assumes "\<not> zq_active s" "s' = s\<lparr>zq_mem := acquire_tail j (zq_mem s)\<rparr>"
    and "cq_capacity (zq_mem s) \<le> fst (last (cq_heads (zq_mem s))) - fst (last (cq_tails (zq_mem s)))"
  shows "sequential_call out Reserve s s'"
  using assms by (simp add: sequential_call_def zc_try_reserve_def zc_of_def acquire_tail_def Let_def)

lemma reserve_call_result:
  assumes inv: "zq_inv C s" "zq_pc s = Z_idle" and call: "operation_call Reserve s s'"
  shows "zq_pc s' = Z_idle \<and> leaves_consumer s s' \<and> (sequential_call out Reserve s s' \<or> stale_refusal Reserve s s')"
proof (cases "zq_active s")
  case True
  then have "s' = s" using call inv(2) by (simp add: operation_call_def zc_call_at zc_finishes_simps(1))
  then show ?thesis using True inv(2) by (simp add: leaves_consumer_def sequential_call_def zc_try_reserve_def zc_of_def)
next
  case False
  let ?m = "zq_mem s"
  let ?h = "fst (last (cq_heads ?m))"
  note n = newest_tail [OF inv]
  have free: "\<not> rv_queue (zq_reservation s)" and C: "cq_capacity ?m = C"
    using zq_inv_idle [OF inv] False zm_bounds(8) by auto
  obtain j where j: "cq_p_read ?m \<le> j" "j < length (cq_tails ?m)"
      and s': "s' = (if C \<le> ?h - fst (cq_tails ?m ! j) then s\<lparr>zq_mem := acquire_tail j ?m\<rparr>
        else s\<lparr>zq_mem := acquire_tail j ?m, zq_active := True, zq_reservation := granted C ?h\<rparr>)"
    using call unfolding reserve_call_iff [OF inv(2) False free] Let_def C by blast
  have keep: "zq_pc s' = Z_idle" "leaves_consumer s s'"
    using s' inv(2) by (simp_all add: leaves_consumer_def acquire_tail_def)
  show ?thesis
  proof (cases "C \<le> ?h - fst (cq_tails ?m ! j)")
    case full: True
    have "sequential_call out Reserve s s'" if "j = length (cq_popped ?m)"
      using reserve_refused_sequential [OF False, of s' j] full s' C n(3) that by simp
    moreover have "stale_refusal Reserve s s'" if "j \<noteq> length (cq_popped ?m)"
      using that full s' C False j n(2) by (simp add: stale_refusal_def acquire_tail_def zc_of_def)
    ultimately show ?thesis using keep by blast
  next
    case room: False
    then have "sequential_call out Reserve s s'"
      using reserve_granted_sequential [OF False free _, of s' j] n(4) [OF j room] s' C by simp
    then show ?thesis using keep by blast
  qed
qed

lemma reserve_call_sequential:
  assumes inv: "zq_inv C s" "zq_pc s = Z_idle"
  shows "\<exists>s'. operation_call Reserve s s' \<and> sequential_call out Reserve s s'"
proof (cases "zq_active s")
  case True
  then have "operation_call Reserve s s" using inv(2) by (simp add: operation_call_def zc_call_at zc_finishes_simps(1))
  moreover have "sequential_call out Reserve s s" using True by (simp add: sequential_call_def zc_try_reserve_def zc_of_def)
  ultimately show ?thesis by blast
next
  case False
  let ?m = "zq_mem s"
  let ?h = "fst (last (cq_heads ?m))" and ?j = "length (cq_popped ?m)"
  let ?s' = "if cq_capacity ?m \<le> ?h - fst (cq_tails ?m ! ?j) then s\<lparr>zq_mem := acquire_tail ?j ?m\<rparr>
    else s\<lparr>zq_mem := acquire_tail ?j ?m, zq_active := True, zq_reservation := granted (cq_capacity ?m) ?h\<rparr>"
  note n = newest_tail [OF inv]
  have free: "\<not> rv_queue (zq_reservation s)" using zq_inv_idle [OF inv] False by auto
  have "operation_call Reserve s ?s'"
    unfolding reserve_call_iff [OF inv(2) False free] Let_def by (rule exI [of _ ?j]) (simp add: n(1,2))
  moreover have "sequential_call out Reserve s ?s'"
    using reserve_refused_sequential [OF False, of _ ?j] reserve_granted_sequential [OF False free, of _ ?j] n(3) by simp
  ultimately show ?thesis by blast
qed

lemma operation_call_exists:
  assumes inv: "zq_inv C s" and step: "zc_call op s r" and op: "op \<noteq> Reserve"
  shows "\<exists>s'. operation_call op s s'"
proof -
  obtain s1 where s1: "r = Some s1" and inv1: "zq_inv C s1" using zq_inv_call [OF inv step] by blast
  have "zq_pc s1 \<in> {Z_idle, Z_published, Z_cancelled None} \<or> (\<exists>v. zq_pc s1 = Z_rebuild v)"
    using step op s1
    by (cases rule: zc_call.cases)
      (auto simp: construct_start_def commit_start_def cancel_start_def Let_def split: if_splits
        dest: commit_publish_Some(1) reservation_unbuild_Some(2) reservation_build_Some(2))
  moreover have "\<exists>s'. reservation_build v s1 = Some s'" if "zq_pc s1 = Z_rebuild v" for v
    using zq_inv_producer_step [OF inv1 construct_again [OF that]] by blast
  ultimately have "\<exists>s'. zc_finishes s1 s'"
    by (auto simp: zc_finishes_simps(1) zc_finishes_at(1,2) zc_finishes_rebuild)
  then show ?thesis using step s1 by (auto simp: operation_call_def)
qed

text \<open>
  C22. The zero-copy queue under concurrency agrees with the sequential one. Take any reachable state in
  which the producer is between two calls, whatever the consumer is in the middle of, and any of the
  producer's operations (\<open>construct\<close> only on a reservation that holds a slot). A call of it can run to its
  return and do what the sequential operation does. And every call of it, whichever values its loads
  return, ends between two calls, leaves the consumer alone and does what the sequential operation does:
  the same reservation, the same queue, and the object in the slot appended to the committed values
  exactly when the operation is a \<open>commit\<close> that succeeds. The only exception is a \<open>try_reserve\<close> that changed
  nothing because it read a \<open>tail_\<close> older than the newest one, at which the queue was full.
\<close>

theorem zero_copy_solo_sequential:
  assumes "static_capacity C" "zc_reach C s" "zq_pc s = Z_idle"
    and "op \<in> {Reserve, Commit, Cancel} \<or> (\<exists>v. op = Construct v \<and> rv_queue (zq_reservation s))"
  shows "(\<exists>s'. operation_call op s s' \<and> sequential_call out op s s') \<and>
    (\<forall>s'. operation_call op s s' \<longrightarrow>
       zq_pc s' = Z_idle \<and> leaves_consumer s s' \<and> (sequential_call out op s s' \<or> stale_refusal op s s'))"
proof -
  have inv: "zq_inv C s" using zc_reach_inv assms(1,2) by blast
  note exists = operation_call_exists [OF inv]
  consider "op = Reserve" | "op = Commit" | "op = Cancel" | v where "op = Construct v" "rv_queue (zq_reservation s)"
    using assms(4) by blast
  then show ?thesis
  proof cases
    case 1
    then show ?thesis using reserve_call_sequential [OF inv assms(3)] reserve_call_result [OF inv assms(3)] by blast
  next
    case 2
    then have "\<exists>s'. operation_call op s s'" using exists [OF commit_first [OF assms(3)]] by simp
    then show ?thesis using 2 commit_call_result [OF assms(3)] by blast
  next
    case 3
    then have "\<exists>s'. operation_call op s s'" using exists [OF cancel_first [OF assms(3)]] by simp
    then show ?thesis using 3 cancel_call_result [OF assms(3)] by blast
  next
    case 4
    then have "\<exists>s'. operation_call op s s'" using exists [OF construct_first [OF assms(3)]] by simp
    then show ?thesis using 4 construct_call_result [OF assms(3)] by blast
  qed
qed

section \<open>Safety\<close>

text \<open>
  C10. The zero-copy queue under concurrency. In every state that one producer and one consumer can reach,
  in any interleaving, with any stale values of the acquire loads and after any number of rebuilt or
  cancelled reservations: no next step of either thread is a data race on a slot, constructs over a
  live object, or touches an object that is not alive; what the consumer has received are, in order,
  the first of the committed values, so it never sees a value under construction; no more than
  \<open>Capacity\<close> committed values are in flight; and a reservation is granted only when none is held.
\<close>

theorem zero_copy_concurrent:
  assumes "static_capacity C" "zc_reach C s"
  shows "\<not> zc_conc_step s None \<and>
    (\<exists>rest. cq_pushed (zq_mem s) = cq_popped (zq_mem s) @ rest \<and> length rest \<le> unat C) \<and>
    (\<forall>r. zq_pc s = Z_granted r \<longrightarrow> \<not> rv_queue (zq_reservation s))"
proof -
  let ?m = "zq_mem s"
  have inv: "zq_inv C s" using zc_reach_inv assms by blast
  then have m: "zm_inv C (building (zq_reservation s) (zq_pc s)) ?m" by (simp add: zq_inv_def)
  have "cq_pushed ?m = cq_popped ?m @ drop (length (cq_popped ?m)) (cq_pushed ?m)"
    using m append_take_drop_id [of "length (cq_popped ?m)" "cq_pushed ?m"] by (simp add: zm_inv_def)
  moreover have "length (drop (length (cq_popped ?m)) (cq_pushed ?m)) \<le> unat C" using zm_bounds(2) [OF m] by simp
  moreover have "\<not> zc_conc_step s None" using zq_inv_steps [OF inv] by (auto simp: zc_conc_step_def)
  moreover have "\<forall>r. zq_pc s = Z_granted r \<longrightarrow> \<not> rv_queue (zq_reservation s)"
    using inv by (auto simp: zq_inv_def no_reservation_def)
  ultimately show ?thesis by blast
qed

definition producer_runs :: "'a zc_conc \<Rightarrow> 'a zc_conc \<Rightarrow> bool" where
  "producer_runs s s' \<longleftrightarrow> (\<lambda>a b. zc_producer_step a (Some b))\<^sup>*\<^sup>* s s'"

lemma producer_runs_refl [intro, simp]: "producer_runs s s"
  by (simp add: producer_runs_def)

lemma producer_runs_step [intro]: "zc_producer_step s (Some s1) \<Longrightarrow> producer_runs s1 s' \<Longrightarrow> producer_runs s s'"
  unfolding producer_runs_def by (rule converse_rtranclp_into_rtranclp)

lemma zc_reach_runs: "producer_runs s s' \<Longrightarrow> zc_reach C s \<Longrightarrow> zc_reach C s'"
  unfolding producer_runs_def
  by (induction rule: rtranclp_induct) (auto intro: zc_reach_step simp: zc_conc_step_def)

lemma replicate_two: "replicate 2 x = [x, x]"
  by (simp add: numeral_2_eq_2)

text \<open>A reachable state in which a value has been committed.\<close>

lemma zc_reach_committed: "\<exists>s. zc_reach 2 s \<and> zq_pc s = Z_idle \<and> cq_pushed (zq_mem s) = [7 :: nat]"
proof -
  let ?i = "zq_init 2 :: nat zc_conc"
  let ?m = "zq_mem ?i" and ?r = "granted 2 0"
  let ?s1 = "?i\<lparr>zq_active := True, zq_pc := Z_flag_taken\<rparr>" and ?s2 = "?i\<lparr>zq_active := True, zq_pc := Z_head_loaded 0\<rparr>"
  let ?s3 = "?i\<lparr>zq_active := True, zq_mem := acquire_tail 0 ?m, zq_pc := Z_granted ?r\<rparr>"
  let ?s4 = "?i\<lparr>zq_active := True, zq_mem := acquire_tail 0 ?m, zq_pc := Z_idle, zq_reservation := ?r\<rparr>"
  have m: "cq_heads ?m = [(0, 0)]" "cq_tails ?m = [(0, 0)]" "cq_p_read ?m = 0" "cq_capacity ?m = 2" "zq_pc ?i = Z_idle"
      "\<not> zq_active ?i" "\<not> rv_queue (zq_reservation ?i)"
    by (simp_all add: zq_init_def spsc_init_def default_Reservation_def)
  have "zc_producer_step ?i (Some ?s1)" using reserve_take [of ?i] m by (auto intro: first_step)
  moreover have "zc_producer_step ?s1 (Some ?s2)" using reserve_head [of ?s1] m by simp
  moreover have "zc_producer_step ?s2 (Some ?s3)" using reserve_room [of ?s2 0 0] m by simp
  moreover have "zc_producer_step ?s3 (Some ?s4)" using reserve_move [of ?s3 ?r] m by (simp add: cancel_start_def)
  ultimately have "producer_runs ?i ?s4" by blast
  then have r4: "zc_reach 2 ?s4" using zc_reach_runs zc_reach_init by blast
  obtain s5 where s5: "construct_start 7 ?s4 = Some s5" "zq_pc s5 = Z_idle" "rv_queue (zq_reservation s5)"
      "rv_constructed (zq_reservation s5)" "cq_pushed (zq_mem s5) = []" "rv_ptr (zq_reservation s5) = Some 0"
      "cq_slots (zq_mem s5) = [Some 7, None]"
    by (simp add: construct_start_def reservation_build_def granted_def slot_index_def pointer_access_def zq_init_def
        spsc_init_def acquire_tail_def construct_at_def replicate_two)
  have r5: "zc_reach 2 s5"
    using zc_reach_step [OF r4] first_step [OF construct_first, of ?s4 7] s5(1) by (simp add: zc_conc_step_def granted_def)
  obtain s6 where s6: "commit_start s5 = Some s6" "zq_pc s6 = Z_published" "cq_pushed (zq_mem s6) = [7]"
    using s5 by (simp add: commit_start_def commit_publish_def slot_value_def Let_def)
  have r6: "zc_reach 2 s6" using zc_reach_step [OF r5] first_step [OF commit_first [OF s5(2)]] s6(1) by (simp add: zc_conc_step_def)
  have "zc_reach 2 (release_flag None s6)"
    using zc_reach_step [OF r6] commit_flag [OF s6(2)] by (simp add: zc_conc_step_def)
  moreover have "zq_pc (release_flag None s6) = Z_idle" "cq_pushed (zq_mem (release_flag None s6)) = [7]"
    using s6(3) by (simp_all add: release_flag_def)
  ultimately show ?thesis by blast
qed

theorem zero_copy_concurrent_witness:
  "\<exists>s. zc_reach 2 s \<and> cq_pushed (zq_mem s) = [7 :: nat] \<and> \<not> zc_conc_step s None"
proof -
  have C: "static_capacity 2" by (simp add: static_capacity_def)
  obtain s where s: "zc_reach 2 s" "cq_pushed (zq_mem s) = [7 :: nat]" using zc_reach_committed by blast
  then show ?thesis using zero_copy_concurrent [OF C s(1)] by blast
qed

theorem zero_copy_solo_sequential_witness:
  "\<exists>s s'. zc_reach 2 s \<and> cq_pushed (zq_mem s) = [7 :: nat] \<and>
     operation_call Reserve s s' \<and> sequential_call 0 Reserve s s' \<and> zq_pc s' = Z_idle \<and> leaves_consumer s s'"
proof -
  have C: "static_capacity 2" by (simp add: static_capacity_def)
  obtain s where s: "zc_reach 2 s" "zq_pc s = Z_idle" "cq_pushed (zq_mem s) = [7 :: nat]" using zc_reach_committed by blast
  then show ?thesis using zero_copy_solo_sequential [OF C s(1,2), of Reserve 0] by blast
qed

end
