(* ===== verification/Cli_Apps.thy ===== *)
theory Cli_Apps
  imports Cli_Args Persistent_Broker Latency_Histogram
begin

text \<open>
  The command line applications: the publish loop of \<open>apps/aether_pub.cpp\<close>, the local demo of
  \<open>apps/aether_sub.cpp\<close>, and the scan loops of \<open>apps/aether_replay.cpp\<close> and
  \<open>apps/aether_inspect_wal.cpp\<close>, on top of the brokers and the log reader.

  \<^item> What a program prints is returned: the records or events printed, and the values of the summary.
    The exit code is a number. Formatting of the text is left out.
  \<^item> \<open>clock i\<close> is the time stamp the append of message \<open>i\<close> reads.
  \<^item> Shown: \<open>aether_pub\<close> exits with success only when the log holds exactly the requested events,
    which is never the case for more than 65536; \<open>aether_inspect_wal\<close> and \<open>aether_replay\<close> report
    exactly what the reference decoder finds; the local demo delivers what it published.
\<close>

section \<open>Events\<close>

text \<open>The bit pattern of a positive normal binary64 number.\<close>

definition double_bits :: "rat \<Rightarrow> u64" where
  "double_bits v =
     of_int ((ilog v + 1023) * 2 ^ 52 + \<lfloor>(v / 2 powi ilog v - 1) * 2 ^ 52\<rfloor>)"

definition make_event :: "u64 \<Rightarrow> OrderEvent" where
  "make_event i =
     \<lparr>oe_id = i + 1,
      oe_price_bits = double_bits (fl (fl 100 + fl (double_of_nat (unat (i mod 100)) * fl (1 / 4)))),
      oe_quantity = 1 + ucast (i mod 1000)\<rparr>"

section \<open>aether_pub\<close>

text \<open>The loop that publishes; it ends with the first status that is not \<open>ok\<close>.\<close>

function pub_loop ::
    "'os posix \<Rightarrow> (u64 \<Rightarrow> u64) \<Rightarrow> u64 \<Rightarrow> u64 \<Rightarrow> OrderEvent PersistentBroker \<Rightarrow> 'os \<Rightarrow>
     (Status \<times> OrderEvent PersistentBroker \<times> 'os) option" where
  "pub_loop P clock messages i broker os =
     (if i < messages then
        case persistent_try_publish P os (clock i) order_event_rep broker (make_event i) 0 of
          None \<Rightarrow> None
        | Some (status, broker, os) \<Rightarrow>
            if \<not> is_ok status then Some (status, broker, os)
            else pub_loop P clock messages (i + 1) broker os
      else Some (status_ok, broker, os))"
  by pat_completeness auto
termination
proof (relation "measure (\<lambda>(P, clock, messages, i, broker, os). unat (messages - i))", goal_cases)
  case (2 P clock messages i)
  then have "messages - i \<noteq> 0" by auto
  then have "unat (messages - i - 1) < unat (messages - i)" by (simp add: unat_minus_1 unat_gt_0)
  then show ?case by (simp add: diff_diff_eq)
qed simp

declare pub_loop.simps [simp del]

text \<open>From the options to the exit code. The broker has the template capacity 65536; the creation of
  the parent directory is left out.\<close>

definition pub_wal_config :: "PubOptions \<Rightarrow> WalConfig" where
  "pub_wal_config options =
     \<lparr>wc_path = po_wal_path options, wc_file_size_bytes = po_wal_size_bytes options,
      wc_flush_on_commit = po_flush_on_commit options\<rparr>"

definition pub_main ::
    "'os posix \<Rightarrow> 'os \<Rightarrow> (u64 \<Rightarrow> u64) \<Rightarrow> string list \<Rightarrow>
     (nat \<times> OrderEvent PersistentBroker option \<times> 'os) option" where
  "pub_main P os clock args =
     (case parse_pub_args args of
        Expected_status s \<Rightarrow> Some (2, None, os)
      | Expected_value options \<Rightarrow>
          if po_help options then Some (0, None, os)
          else
            let (status, broker, os) =
              persistent_open_wal P os order_event_rep 65536 (persistent_init 65536) (pub_wal_config options) in
            if \<not> is_ok status then Some (1, Some broker, os)
            else do {
              (status, broker, os) \<leftarrow> pub_loop P clock (po_messages options) 0 broker os;
              if \<not> is_ok status then Some (1, Some broker, os)
              else
                let (status, broker, os) = persistent_flush P os broker in
                if \<not> is_ok status then Some (1, Some broker, os) else Some (0, Some broker, os) })"

text \<open>What \<open>aether_pub\<close> prints at the end.\<close>

record PubSummary =
  ps_wal_path :: path
  ps_messages_requested :: u64
  ps_records_written :: u64
  ps_metrics :: BrokerMetricsSnapshot
  ps_next_sequence :: u64
  ps_current_offset :: u64
  ps_remaining_space :: u64

definition pub_summary :: "PubOptions \<Rightarrow> OrderEvent PersistentBroker \<Rightarrow> PubSummary" where
  "pub_summary options broker =
     \<lparr>ps_wal_path = po_wal_path options, ps_messages_requested = po_messages options,
      ps_records_written = ww_records_written (pb_writer broker),
      ps_metrics = persistent_metrics_snapshot broker,
      ps_next_sequence = ww_next_sequence (pb_writer broker),
      ps_current_offset = ww_current_offset (pb_writer broker),
      ps_remaining_space = persistent_wal_remaining_space broker\<rparr>"

section \<open>aether_sub without a log file\<close>

function local_publish ::
    "u64 \<Rightarrow> u64 \<Rightarrow> OrderEvent Broker \<Rightarrow> (Status \<times> OrderEvent Broker) option" where
  "local_publish messages i broker =
     (if i < messages then
        case broker_try_publish broker (make_event i) of
          None \<Rightarrow> None
        | Some (status, broker) \<Rightarrow>
            if \<not> is_ok status then Some (status, broker) else local_publish messages (i + 1) broker
      else Some (status_ok, broker))"
  by pat_completeness auto
termination
proof (relation "measure (\<lambda>(messages, i, broker). unat (messages - i))", goal_cases)
  case (2 messages i)
  then have "messages - i \<noteq> 0" by auto
  then have "unat (messages - i - 1) < unat (messages - i)" by (simp add: unat_minus_1 unat_gt_0)
  then show ?case by (simp add: diff_diff_eq)
qed simp

declare local_publish.simps [simp del]

definition default_OrderEvent :: OrderEvent where
  "default_OrderEvent = \<lparr>oe_id = 0, oe_price_bits = 0, oe_quantity = 0\<rparr>"

function local_consume ::
    "u64 \<Rightarrow> u64 \<Rightarrow> u64 \<Rightarrow> OrderEvent Broker \<Rightarrow> OrderEvent list \<Rightarrow>
     (Status \<times> u64 \<times> OrderEvent Broker \<times> OrderEvent list) option" where
  "local_consume messages limit consumed broker printed =
     (if consumed < messages then
        case broker_try_consume broker default_OrderEvent of
          None \<Rightarrow> None
        | Some (status, event, broker) \<Rightarrow>
            if \<not> is_ok status then Some (status, consumed, broker, printed)
            else local_consume messages limit (consumed + 1) broker
                   (if consumed < limit then printed @ [event] else printed)
      else Some (status_ok, consumed, broker, printed))"
  by pat_completeness auto
termination
proof (relation "measure (\<lambda>(messages, limit, consumed, broker, printed). unat (messages - consumed))", goal_cases)
  case (2 messages limit consumed)
  then have "messages - consumed \<noteq> 0" by auto
  then have "unat (messages - consumed - 1) < unat (messages - consumed)" by (simp add: unat_minus_1 unat_gt_0)
  then show ?case by (simp add: diff_diff_eq)
qed simp

declare local_consume.simps [simp del]

text \<open>The summary that \<open>run_local\<close> prints when it returns 0, and its whole output: the events it has
  printed, then the summary or only the code of an earlier return.\<close>

record local_summary =
  ls_produced :: u64
  ls_consumed :: u64
  ls_suppressed :: u64
  ls_metrics :: BrokerMetricsSnapshot

record local_output =
  lo_printed :: "OrderEvent list"
  lo_end :: "nat + local_summary"

definition run_local :: "size_t \<Rightarrow> SubOptions \<Rightarrow> local_output option" where
  "run_local C options =
     do { (status, broker) \<leftarrow> local_publish (so_messages options) 0 (broker_init C);
          if \<not> is_ok status then Some \<lparr>lo_printed = [], lo_end = Inl 1\<rparr>
          else do {
            (status, consumed, broker, printed) \<leftarrow>
              local_consume (so_messages options) (so_limit options) 0 broker [];
            if \<not> is_ok status then Some \<lparr>lo_printed = printed, lo_end = Inl 1\<rparr>
            else Some \<lparr>lo_printed = printed, lo_end = Inr
                  \<lparr>ls_produced = so_messages options, ls_consumed = consumed,
                   ls_suppressed = (if consumed > so_limit options then consumed - so_limit options else 0),
                   ls_metrics = broker_metrics_snapshot broker\<rparr>\<rparr> } }"

definition dispatch_local :: "SubOptions \<Rightarrow> local_output option" where
  "dispatch_local options =
     (if so_capacity options = 64 then run_local 64 options
      else if so_capacity options = 256 then run_local 256 options
      else if so_capacity options = 1024 then run_local 1024 options
      else if so_capacity options = 4096 then run_local 4096 options
      else if so_capacity options = 65536 then run_local 65536 options
      else Some \<lparr>lo_printed = [], lo_end = Inl 2\<rparr>)"

section \<open>aether_replay\<close>

text \<open>\<open>std::isprint\<close> in the default locale.\<close>

definition isprint :: "byte \<Rightarrow> bool" where
  "isprint b \<longleftrightarrow> 0x20 \<le> b \<and> b \<le> 0x7E"

definition preview :: "byte list \<Rightarrow> size_t \<Rightarrow> string" where
  "preview payload limit =
     map (\<lambda>b. if isprint b then char_of (unat b) else CHR ''.'') (take (unat limit) payload)"

text \<open>The summary a scan prints at its end. A scan that meets a corrupted record prints the error instead,
  and \<open>main\<close> returns 1 at once.\<close>

record replay_summary =
  rs_records :: u64
  rs_final_offset :: u64
  rs_metrics :: BrokerMetricsSnapshot

text \<open>The output of a scan (the records it has shown, then the error or the summary), and the reader and
  the counters as \<open>main\<close> leaves them.\<close>

record replay_output =
  rp_shown :: "(WalRecordView \<times> string) list"
  rp_end :: "Status + replay_summary"
  rp_reader :: WalReader
  rp_counters :: BrokerCounters

definition replay_finish ::
    "WalReader \<Rightarrow> u64 \<Rightarrow> (WalRecordView \<times> string) list \<Rightarrow> BrokerCounters \<Rightarrow> replay_output" where
  "replay_finish reader records shown counters =
     \<lparr>rp_shown = shown,
      rp_end = Inr \<lparr>rs_records = records, rs_final_offset = wr_current_offset reader,
        rs_metrics = counters_snapshot counters\<rparr>,
      rp_reader = reader, rp_counters = counters\<rparr>"

function replay_loop ::
    "ReplayOptions \<Rightarrow> WalReader \<Rightarrow> u64 \<Rightarrow> (WalRecordView \<times> string) list \<Rightarrow> BrokerCounters \<Rightarrow>
     replay_output option" where
  "replay_loop options reader records shown counters =
     (if ro_limit options = 0 \<or> records < ro_limit options then
        case wal_reader_next reader of
          None \<Rightarrow> None
        | Some (Expected_status s, reader') \<Rightarrow>
            if st_code s = Empty then Some (replay_finish reader' records shown counters)
            else Some \<lparr>rp_shown = shown, rp_end = Inl s, rp_reader = reader',
                   rp_counters = record_recovery_failure counters\<rparr>
        | Some (Expected_value view, reader') \<Rightarrow>
            replay_loop options reader' (records + 1)
              (shown @ [(view, preview (rv_payload view) (ro_payload_preview_bytes options))])
              (record_recovered_record counters)
      else Some (replay_finish reader records shown counters))"
  by pat_completeness auto
termination
proof (relation "measure (\<lambda>(options, reader, records, shown, counters).
    unat (mf_size (wr_file reader)) - unat (wr_current_offset reader))", goal_cases)
  case (2 options reader records shown counters x e reader' view)
  then have "wal_reader_next reader = Some (Expected_value view, reader')" by simp
  from wal_reader_next_advance [OF this] show ?case by auto
qed simp

declare replay_loop.simps [simp del]

section \<open>aether_inspect_wal\<close>

record inspect_totals =
  it_count :: u64
  it_total_payload :: u64
  it_first_sequence :: u64
  it_last_sequence :: u64

definition inspect_start :: inspect_totals where
  "inspect_start = \<lparr>it_count = 0, it_total_payload = 0, it_first_sequence = - 1, it_last_sequence = 0\<rparr>"

definition inspect_record :: "WalRecordView \<Rightarrow> inspect_totals \<Rightarrow> inspect_totals" where
  "inspect_record view t =
     \<lparr>it_count = it_count t + 1,
      it_total_payload = it_total_payload t + ucast (rh_payload_size (rv_header view)),
      it_first_sequence = (if it_count t = 0 then rh_sequence (rv_header view) else it_first_sequence t),
      it_last_sequence = rh_sequence (rv_header view)\<rparr>"

text \<open>What the summary prints for the first and the last sequence number.\<close>

definition printed_first :: "inspect_totals \<Rightarrow> u64" where
  "printed_first t = (if it_count t = 0 then 0 else it_first_sequence t)"

definition printed_last :: "inspect_totals \<Rightarrow> u64" where
  "printed_last t = (if it_count t = 0 then 0 else it_last_sequence t)"

record inspect_summary =
  is_count :: u64
  is_total_payload :: u64
  is_first_sequence :: u64
  is_last_sequence :: u64
  is_final_offset :: u64
  is_metrics :: BrokerMetricsSnapshot

text \<open>The output of a scan: the records it has shown if \<open>--verbose\<close> was given, then the summary or, for
  a scan that ended with corruption, only the offset and the error.\<close>

record inspect_output =
  ip_shown :: "WalRecordView list"
  ip_end :: "u64 \<times> Status + inspect_summary"
  ip_counters :: BrokerCounters

definition inspect_finish ::
    "WalReader \<Rightarrow> inspect_totals \<Rightarrow> WalRecordView list \<Rightarrow> BrokerCounters \<Rightarrow> inspect_output" where
  "inspect_finish reader totals shown counters =
     \<lparr>ip_shown = shown,
      ip_end = Inr \<lparr>is_count = it_count totals, is_total_payload = it_total_payload totals,
        is_first_sequence = printed_first totals, is_last_sequence = printed_last totals,
        is_final_offset = wr_current_offset reader, is_metrics = counters_snapshot counters\<rparr>,
      ip_counters = counters\<rparr>"

function inspect_loop ::
    "InspectWalOptions \<Rightarrow> WalReader \<Rightarrow> inspect_totals \<Rightarrow> WalRecordView list \<Rightarrow> BrokerCounters \<Rightarrow>
     inspect_output option" where
  "inspect_loop options reader totals shown counters =
     (if io_limit options = 0 \<or> it_count totals < io_limit options then
        case wal_reader_next reader of
          None \<Rightarrow> None
        | Some (Expected_status s, reader') \<Rightarrow>
            if st_code s = Empty then Some (inspect_finish reader' totals shown counters)
            else Some \<lparr>ip_shown = shown, ip_end = Inl (wr_current_offset reader', s),
                   ip_counters = record_recovery_failure counters\<rparr>
        | Some (Expected_value view, reader') \<Rightarrow>
            inspect_loop options reader' (inspect_record view totals)
              (if io_verbose options then shown @ [view] else shown) (record_recovered_record counters)
      else Some (inspect_finish reader totals shown counters))"
  by pat_completeness auto
termination
proof (relation "measure (\<lambda>(options, reader, totals, shown, counters).
    unat (mf_size (wr_file reader)) - unat (wr_current_offset reader))", goal_cases)
  case (2 options reader totals shown counters x e reader' view)
  then have "wal_reader_next reader = Some (Expected_value view, reader')" by simp
  from wal_reader_next_advance [OF this] show ?case by auto
qed simp

declare inspect_loop.simps [simp del]

text \<open>The exit code: the scan is left with 1 in front of the summary, or ends with 0 after it.\<close>

definition scan_code :: "'e + 's \<Rightarrow> nat" where
  "scan_code e = (case e of Inl _ \<Rightarrow> 1 | Inr _ \<Rightarrow> 0)"

section \<open>The scans show what the decoder finds\<close>

lemma reader_inv_at [simp]: "reader_inv (reader_at r es) = reader_inv r"
  by (simp add: reader_inv_def reader_at_def)

lemma next_decodes_Nil:
  assumes "reader_inv r" "parse_log (reader_rest r) = ([], stop)"
  shows "wal_reader_next r = Some (Expected_status stop, r)"
proof -
  obtain t where "decode_rest (reader_rest r) = Inl t" "t = stop"
    using assms(2) by (auto simp: parse_log.simps [of "reader_rest r"] Let_def split: sum.splits prod.splits)
  then show ?thesis
    using decode_rest_Inl_not_ok [of "reader_rest r"]
    by (simp add: wal_reader_next_eq [OF assms(1)] expected_error_def)
qed

lemma next_decodes_Cons:
  assumes inv: "reader_inv r" and log: "parse_log (reader_rest r) = (e # es, stop)"
  shows "\<exists>r'. wal_reader_next r = Some (Expected_value
      \<lparr>rv_header = fst e, rv_payload = snd e, rv_offset = wr_current_offset r\<rparr>, r') \<and>
    reader_inv r' \<and> parse_log (reader_rest r') = (es, stop) \<and> r' = reader_at r [e] \<and>
    unat (wr_current_offset r') = unat (wr_current_offset r) + (40 + length (snd e))"
proof -
  have d: "decode_rest (reader_rest r) = Inr e"
    and tl: "parse_log (drop (length (entry_image e)) (reader_rest r)) = (es, stop)"
    using log by (auto simp: parse_log.simps [of "reader_rest r"] Let_def split: sum.splits prod.splits)
  let ?r = "reader_advance (40 + length (snd e)) r"
  have "reader_rest ?r = drop (length (entry_image e)) (reader_rest r)"
      "unat (wr_current_offset ?r) = unat (wr_current_offset r) + (40 + length (snd e))"
    using reader_advance_rest [OF inv, of "40 + length (snd e)"] decode_rest_sound [OF d] by auto
  then show ?thesis
    using inv tl d reader_at_Cons [of e r "[]"]
    by (intro exI [of _ ?r]) (simp add: wal_reader_next_eq [OF inv] split_beta)
qed

lemma decoded_count_small:
  assumes "reader_inv r" "parse_log (reader_rest r) = (es, stop)"
  shows "length es < 2 ^ 64"
proof -
  have "length (reader_rest r) < 2 ^ 64"
    using length_reader_rest [OF assms(1)] unat_lt2p [of "mf_size (wr_file r)"] by simp
  then show ?thesis
    using parse_log_fits [OF assms(2)] length_wal_image_ge [of es] by linarith
qed

text \<open>A scan with a limit stops at the limit or where decoding stops.\<close>

definition within_limit :: "u64 \<Rightarrow> nat \<Rightarrow> 'a list \<Rightarrow> 'a list" where
  "within_limit limit k xs = (if limit = 0 then xs else take (unat limit - k) xs)"

text \<open>Whether a scan of these records ends with the summary: at the limit, or at the end of the log.\<close>

definition scan_clean :: "u64 \<Rightarrow> nat \<Rightarrow> 'a list \<Rightarrow> Status \<Rightarrow> bool" where
  "scan_clean limit k xs stop \<longleftrightarrow> (limit \<noteq> 0 \<and> unat limit \<le> k + length xs) \<or> st_code stop = Empty"

definition scan_counters :: "u64 \<Rightarrow> nat \<Rightarrow> 'a list \<Rightarrow> Status \<Rightarrow> BrokerCounters \<Rightarrow> BrokerCounters" where
  "scan_counters limit k xs stop c =
     (let c = (record_recovered_record ^^ length (within_limit limit k xs)) c in
      if scan_clean limit k xs stop then c else record_recovery_failure c)"

lemma within_limit_Cons:
  "within_limit limit k (x # xs) =
     (if limit = 0 \<or> k < unat limit then x # within_limit limit (Suc k) xs else [])"
  by (auto simp: within_limit_def take_Cons')

lemma within_limit_Nil [simp]: "within_limit limit k [] = []"
  by (simp add: within_limit_def)

lemma scan_Cons:
  assumes "limit = 0 \<or> k < unat limit"
  shows "scan_clean limit k (x # xs) stop = scan_clean limit (Suc k) xs stop"
    "scan_counters limit k (x # xs) stop c = scan_counters limit (Suc k) xs stop (record_recovered_record c)"
  using assms by (auto simp: scan_clean_def scan_counters_def within_limit_Cons funpow_swap1 Let_def)

lemma scan_stopped:
  assumes "\<not> (limit = 0 \<or> k < unat limit)"
  shows "within_limit limit k xs = []" "scan_clean limit k xs stop" "scan_counters limit k xs stop c = c"
  using assms by (auto simp: within_limit_def scan_clean_def scan_counters_def)

lemma reader_at_append: "reader_at (reader_at r es) fs = reader_at r (es @ fs)"
  by (simp add: reader_at_def wal_image_def add_ac)

lemma count_less_iff: "unat n = k \<Longrightarrow> (limit = 0 \<or> n < limit) = (limit = 0 \<or> k < unat limit)" for n :: u64
  by (auto simp: word_less_nat_alt)

lemma inspect_loop_log:
  assumes "reader_inv r" "parse_log (reader_rest r) = (es, stop)" "unat (it_count t) = k" "k + length es < 2 ^ 64"
  shows "inspect_loop options r t shown c = Some
    (let seen = within_limit (io_limit options) k es; r' = reader_at r seen;
         vs = wal_views (unat (wr_current_offset r)) seen;
         shown' = shown @ (if io_verbose options then vs else []);
         c' = scan_counters (io_limit options) k es stop c in
     if scan_clean (io_limit options) k es stop then inspect_finish r' (fold inspect_record vs t) shown' c'
     else \<lparr>ip_shown = shown', ip_end = Inl (wr_current_offset r', stop), ip_counters = c'\<rparr>)"
  using assms
proof (induction es arbitrary: r t shown c k)
  case Nil
  then show ?case
    using next_decodes_Nil [OF Nil(1,2)] count_less_iff [OF Nil(3), of "io_limit options"]
    by (auto simp: inspect_loop.simps [of options r] scan_clean_def scan_counters_def Let_def)
next
  case (Cons e es)
  let ?limit = "io_limit options"
  show ?case
  proof (cases "?limit = 0 \<or> k < unat ?limit")
    case True
    obtain r' where r': "wal_reader_next r = Some (Expected_value
        \<lparr>rv_header = fst e, rv_payload = snd e, rv_offset = wr_current_offset r\<rparr>, r')" "reader_inv r'"
        "parse_log (reader_rest r') = (es, stop)" "r' = reader_at r [e]"
        "unat (wr_current_offset r') = unat (wr_current_offset r) + (40 + length (snd e))"
      using next_decodes_Cons [OF Cons.prems(1,2)] by blast
    let ?t = "inspect_record \<lparr>rv_header = fst e, rv_payload = snd e, rv_offset = wr_current_offset r\<rparr> t"
    have "unat (it_count ?t) = Suc k" "Suc k + length es < 2 ^ 64"
      using Cons.prems(3,4) by (simp_all add: inspect_record_def unat_word_ariths)
    note IH = Cons.IH [OF r'(2,3) this]
    then show ?thesis
      using True r' count_less_iff [OF Cons.prems(3), of ?limit]
      by (cases e) (simp add: inspect_loop.simps [of options r] scan_Cons [OF True] within_limit_Cons reader_at_append Let_def)
  next
    case False
    then show ?thesis
      using count_less_iff [OF Cons.prems(3), of ?limit]
      by (simp add: inspect_loop.simps [of options r] scan_stopped Let_def)
  qed
qed

definition shown_views :: "ReplayOptions \<Rightarrow> WalRecordView list \<Rightarrow> (WalRecordView \<times> string) list" where
  "shown_views options vs = map (\<lambda>v. (v, preview (rv_payload v) (ro_payload_preview_bytes options))) vs"

lemma shown_views_simps [simp]:
  "shown_views options [] = []"
  "shown_views options (v # vs) =
     (v, preview (rv_payload v) (ro_payload_preview_bytes options)) # shown_views options vs"
  by (simp_all add: shown_views_def)

lemma replay_loop_log:
  assumes "reader_inv r" "parse_log (reader_rest r) = (es, stop)" "unat n = k" "k + length es < 2 ^ 64"
  shows "replay_loop options r n shown c = Some
    (let seen = within_limit (ro_limit options) k es; r' = reader_at r seen;
         shown' = shown @ shown_views options (wal_views (unat (wr_current_offset r)) seen);
         c' = scan_counters (ro_limit options) k es stop c in
     if scan_clean (ro_limit options) k es stop then replay_finish r' (n + of_nat (length seen)) shown' c'
     else \<lparr>rp_shown = shown', rp_end = Inl stop, rp_reader = r', rp_counters = c'\<rparr>)"
  using assms
proof (induction es arbitrary: r n shown c k)
  case Nil
  then show ?case
    using next_decodes_Nil [OF Nil(1,2)] count_less_iff [OF Nil(3), of "ro_limit options"]
    by (auto simp: replay_loop.simps [of options r] scan_clean_def scan_counters_def Let_def)
next
  case (Cons e es)
  let ?limit = "ro_limit options"
  show ?case
  proof (cases "?limit = 0 \<or> k < unat ?limit")
    case True
    obtain r' where r': "wal_reader_next r = Some (Expected_value
        \<lparr>rv_header = fst e, rv_payload = snd e, rv_offset = wr_current_offset r\<rparr>, r')" "reader_inv r'"
        "parse_log (reader_rest r') = (es, stop)" "r' = reader_at r [e]"
        "unat (wr_current_offset r') = unat (wr_current_offset r) + (40 + length (snd e))"
      using next_decodes_Cons [OF Cons.prems(1,2)] by blast
    have "unat (n + 1) = Suc k" "Suc k + length es < 2 ^ 64"
      using Cons.prems(3,4) by (simp_all add: unat_word_ariths)
    note IH = Cons.IH [OF r'(2,3) this]
    then show ?thesis
      using True r' count_less_iff [OF Cons.prems(3), of ?limit]
      by (cases e) (simp add: replay_loop.simps [of options r] scan_Cons [OF True] within_limit_Cons
        reader_at_append add_ac Let_def)
  next
    case False
    then show ?thesis
      using count_less_iff [OF Cons.prems(3), of ?limit]
      by (simp add: replay_loop.simps [of options r] scan_stopped Let_def)
  qed
qed

lemma inspect_fold:
  "it_count (fold inspect_record vs t) = it_count t + of_nat (length vs)"
  "it_total_payload (fold inspect_record vs t) =
     it_total_payload t + (\<Sum>v\<leftarrow>vs. ucast (rh_payload_size (rv_header v)))"
  "it_last_sequence (fold inspect_record vs t) =
     (if vs = [] then it_last_sequence t else rh_sequence (rv_header (last vs)))"
proof (induction vs arbitrary: t)
  case (Cons v vs)
  { case 1 then show ?case using Cons by (simp add: inspect_record_def add_ac) }
  { case 2 then show ?case using Cons by (simp add: inspect_record_def add_ac) }
  { case 3 then show ?case using Cons by (simp add: inspect_record_def) }
qed simp_all

lemma inspect_fold_first:
  "0 < unat (it_count t) \<Longrightarrow> unat (it_count t) + length vs < 2 ^ 64 \<Longrightarrow>
   it_first_sequence (fold inspect_record vs t) = it_first_sequence t"
proof (induction vs arbitrary: t)
  case (Cons v vs)
  have "unat (it_count t + 1) = Suc (unat (it_count t))"
    using Cons.prems by (simp add: unat_word_ariths)
  moreover have "it_count t \<noteq> 0" using Cons.prems(1) by auto
  ultimately show ?case
    using Cons.IH [of "inspect_record v t"] Cons.prems by (simp add: inspect_record_def)
qed simp

lemma inspect_totals_log:
  assumes "length vs < 2 ^ 64"
  shows "unat (it_count (fold inspect_record vs inspect_start)) = length vs"
    "it_total_payload (fold inspect_record vs inspect_start) = (\<Sum>v\<leftarrow>vs. ucast (rh_payload_size (rv_header v)))"
    "printed_first (fold inspect_record vs inspect_start) = (if vs = [] then 0 else rh_sequence (rv_header (hd vs)))"
    "printed_last (fold inspect_record vs inspect_start) = (if vs = [] then 0 else rh_sequence (rv_header (last vs)))"
proof -
  show count: "unat (it_count (fold inspect_record vs inspect_start)) = length vs"
    using assms by (simp add: inspect_fold inspect_start_def unsigned_of_nat take_bit_nat_eq_self)
  then have zero: "it_count (fold inspect_record vs inspect_start) = 0 \<longleftrightarrow> vs = []"
    by (metis length_0_conv unat_eq_0)
  show "it_total_payload (fold inspect_record vs inspect_start) = (\<Sum>v\<leftarrow>vs. ucast (rh_payload_size (rv_header v)))"
    by (simp add: inspect_fold inspect_start_def)
  show "printed_last (fold inspect_record vs inspect_start) = (if vs = [] then 0 else rh_sequence (rv_header (last vs)))"
    by (simp add: printed_last_def zero) (simp add: inspect_fold)
  show "printed_first (fold inspect_record vs inspect_start) = (if vs = [] then 0 else rh_sequence (rv_header (hd vs)))"
    using zero inspect_fold_first [of "inspect_record (hd vs) inspect_start" "tl vs"] assms
    by (cases vs) (simp_all add: printed_first_def inspect_record_def inspect_start_def)
qed

lemma sum_wal_views: "(\<Sum>v\<leftarrow>wal_views off es. f (rv_header v)) = (\<Sum>e\<leftarrow>es. f (fst e))"
  by (induction off es rule: wal_views.induct) auto

lemma hd_last_wal_views:
  "es \<noteq> [] \<Longrightarrow> rv_header (hd (wal_views off es)) = fst (hd es) \<and> rv_header (last (wal_views off es)) = fst (last es)"
  using map_header_wal_views(1) [of off es] by (metis hd_map last_map length_0_conv length_wal_views)

lemma recovered_counters:
  "(record_recovered_record ^^ n) counters_init = counters_init\<lparr>ct_recovered_records := of_nat n\<rparr>"
  by (induction n) (simp_all add: counter_simps counters_init_def)



section \<open>Publishing events\<close>

definition pub_events :: "(u64 \<Rightarrow> u64) \<Rightarrow> nat \<Rightarrow> (u64 \<times> OrderEvent \<times> u32) list" where
  "pub_events clock n = map (\<lambda>k. (clock (of_nat k), make_event (of_nat k), 0)) [0..<n]"

lemma pub_events_Suc: "pub_events clock (Suc n) =
    pub_events clock n @ [(clock (of_nat n), make_event (of_nat n), 0)]"
  by (simp add: pub_events_def)

lemma broker_publish_capacity:
  "broker_try_publish b v = Some (st, b') \<Longrightarrow> broker_capacity b' = broker_capacity b"
  by (auto simp: broker_try_publish_def broker_capacity_def bind_eq_Some_conv Let_def
      dest: ring_try_push_tail split: if_splits)

lemma persistent_publish_capacity:
  "persistent_try_publish P os now R b v flags = Some (st, b', os') \<Longrightarrow>
   broker_capacity (pb_broker b') = broker_capacity (pb_broker b)"
  by (auto simp: persistent_try_publish_def bind_eq_Some_conv Let_def
      dest: broker_publish_capacity split: if_splits)

lemma persistent_log_bounded:
  assumes "persistent_state R b [] msgs"
  shows "length msgs \<le> broker_capacity (pb_broker b)"
proof -
  have "length msgs = length (broker_contents (pb_broker b))"
    using assms by (metis append_Nil length_map persistent_state_def)
  then show ?thesis using broker.fill assms by (auto simp: persistent_state_def)
qed

text \<open>What a publication that succeeds leaves alone.\<close>

definition publish_frame :: "'a PersistentBroker \<Rightarrow> u64 \<times> BrokerCounters" where
  "publish_frame b = (mf_size (ww_file (pb_writer b)),
     (pb_counters b)\<lparr>ct_published := 0, ct_wal_records_written := 0, ct_wal_bytes_written := 0\<rparr>)"

lemma append_keeps_size:
  assumes "wal_writer_append P os now w m = Some (st, w', os')"
  shows "mf_size (ww_file w') = mf_size (ww_file w)"
  using assms unfolding wal_writer_append_def Let_def
  by (simp add: append_commit_def mmap_set_bytes_def split: if_splits prod.splits bind_splits; fastforce)

lemma publish_keeps_frame:
  assumes pub: "persistent_try_publish P os now R b v flags = Some (st, b', os')" and "is_ok st" "persistent_valid b"
  shows "publish_frame b' = publish_frame b"
proof -
  obtain s w o1 where a: "append_to_wal P os now R (pb_writer b) v flags = Some (s, w, o1)"
    using pub assms(2,3)
    by (cases "append_to_wal P os now R (pb_writer b) v flags")
      (auto simp: persistent_try_publish_def Let_def split: if_splits)
  note size = append_keeps_size [OF a [unfolded append_to_wal_def]]
  show ?thesis
    using pub assms(2,3) unfolding persistent_try_publish_def a
    by (auto simp: publish_frame_def size counter_simps Let_def bind_eq_Some_conv split: if_splits)
qed

lemma pub_loop_log:
  assumes "persistent_state order_event_rep b [] (pub_events clock k)" "k \<le> unat messages"
  shows "\<exists>st b' os' n. pub_loop P clock messages (of_nat k) b os = Some (st, b', os') \<and>
    persistent_state order_event_rep b' [] (pub_events clock n) \<and> n \<le> unat messages \<and>
    broker_capacity (pb_broker b') = broker_capacity (pb_broker b) \<and> (is_ok st \<longleftrightarrow> n = unat messages) \<and>
    (is_ok st \<longrightarrow> publish_frame b' = publish_frame b)"
  using assms
proof (induction "unat messages - k" arbitrary: k b os)
  case 0
  then have k: "of_nat k = messages" "k = unat messages" by auto
  then have "pub_loop P clock messages (of_nat k) b os = Some (status_ok, b, os)"
    by (simp add: pub_loop.simps)
  then show ?case using 0 k(2) by auto
next
  case (Suc d)
  have lt: "k < unat messages" using Suc.hyps(2) by simp
  then have u: "unat (of_nat k :: u64) = k"
    using unat_lt2p [of messages] by (simp add: unsigned_of_nat take_bit_nat_eq_self)
  then have less: "(of_nat k :: u64) < messages" using lt by (simp add: word_less_nat_alt)
  obtain s b1 os1 where p: "persistent_try_publish P os (clock (of_nat k)) order_event_rep b (make_event (of_nat k)) 0 =
        Some (s, b1, os1)"
      "persistent_state order_event_rep b1 [] (if is_ok s
        then pub_events clock k @ [(clock (of_nat k), make_event (of_nat k), 0)] else pub_events clock k)"
    using persistent_publish_cases [OF Suc.prems(1), of P os "clock (of_nat k)" "make_event (of_nat k)" 0]
    by blast
  note cap = persistent_publish_capacity [OF p(1)]
  show ?case
  proof (cases "is_ok s")
    case True
    have "persistent_state order_event_rep b1 [] (pub_events clock (Suc k))"
      using p(2) True by (simp add: pub_events_Suc)
    moreover have "d = unat messages - Suc k" using Suc.hyps(2) by simp
    ultimately obtain st b' os' n where "pub_loop P clock messages (of_nat k + 1) b1 os1 = Some (st, b', os')"
        "persistent_state order_event_rep b' [] (pub_events clock n)" "n \<le> unat messages"
        "broker_capacity (pb_broker b') = broker_capacity (pb_broker b1)" "is_ok st \<longleftrightarrow> n = unat messages"
        "is_ok st \<longrightarrow> publish_frame b' = publish_frame b1"
      using Suc.hyps(1) [of "Suc k" b1 os1] lt by (auto simp: add.commute)
    then show ?thesis
      using p(1) True less cap publish_keeps_frame [OF p(1) True persistent_state_valid [OF Suc.prems(1)]]
      by (intro exI [of _ st] exI [of _ b'] exI [of _ os'] exI [of _ n])
        (simp add: pub_loop.simps [of P clock messages "of_nat k" b os])
  next
    case False
    then show ?thesis
      using p less cap lt by (auto simp: pub_loop.simps [of P clock messages "of_nat k" b os])
  qed
qed

lemma persistent_flush_keeps:
  "persistent_flush P os b = (st, b', os') \<Longrightarrow> pb_writer b' = pb_writer b \<and> pb_broker b' = pb_broker b \<and>
   ct_published (pb_counters b') = ct_published (pb_counters b) \<and>
   (is_ok st \<and> persistent_valid b \<longrightarrow> pb_counters b' = record_wal_flush (pb_counters b))"
  by (auto simp: persistent_flush_def Let_def counter_simps split: if_splits prod.splits)

lemma pub_summary_eq:
  assumes st: "persistent_state order_event_rep b [] (pub_events clock (unat messages))" "messages = po_messages options"
    and frame: "publish_frame b = (sz, counters_init)"
    and b': "pb_writer b' = pb_writer b" "pb_counters b' = record_wal_flush (pb_counters b)"
  shows "pub_summary options b' =
    \<lparr>ps_wal_path = po_wal_path options, ps_messages_requested = messages, ps_records_written = messages,
     ps_metrics = counters_snapshot (counters_init\<lparr>ct_published := messages, ct_wal_records_written := messages,
       ct_wal_bytes_written := 64 * messages, ct_wal_flushes := 1\<rparr>),
     ps_next_sequence = messages, ps_current_offset = 64 * messages, ps_remaining_space = sz - 64 * messages\<rparr>"
proof -
  let ?w = "pb_writer b" and ?es = "object_entries order_event_rep 0 (pub_events clock (unat messages))"
  have log: "writer_log ?w ?es" and len: "length (pub_events clock (unat messages)) = unat messages"
    using st by (simp_all add: persistent_state_def pub_events_def)
  have es: "length ?es = unat messages" "length (wal_image ?es) = 64 * unat messages"
    using length_wal_image_objects [OF order_event_trivially_copyable] len by (simp_all add: order_event_rep_def)
  have "of_nat (unat (ww_current_offset ?w)) = ww_current_offset ?w" "of_nat (64 * unat messages) = 64 * messages"
    by simp_all
  moreover have "unat (ww_current_offset ?w) = 64 * unat messages" using log es by (simp add: writer_log_def)
  ultimately have off: "ww_current_offset ?w = 64 * messages" by metis
  have "ww_current_offset ?w \<le> mf_size (ww_file ?w)"
    using log writer_log_bounds(1) [OF log] by (simp add: word_le_nat_alt writer_log_def)
  then have rem: "wal_writer_remaining_space ?w = sz - 64 * messages"
    using log frame off by (simp add: wal_writer_remaining_space_def wal_writer_valid_def writer_log_def publish_frame_def)
  have "pb_counters b = counters_init\<lparr>ct_published := messages, ct_wal_records_written := messages,
      ct_wal_bytes_written := 64 * messages\<rparr>"
    using st(1) frame off len
    by (cases "pb_counters b") (simp add: persistent_state_def publish_frame_def counters_init_def)
  then show ?thesis
    using log es off rem b' st(2)
    by (simp add: pub_summary_def writer_log_def persistent_metrics_snapshot_def persistent_wal_remaining_space_def
        counter_simps counters_init_def)
qed

text \<open>
  C15. \<open>aether_pub\<close> writes what was asked, or fails. For every command line it accepts (other than a
  request for help), every file system and every clock, it ends with exit code 0 or 1 and without
  undefined behaviour. With 0, the log consists of exactly the requested number of events, event
  \<open>i\<close> being \<open>make_event(i)\<close>, in order, and the summary it prints is exact: so many records written,
  messages published and the next sequence number, 64 bytes of log for each, the rest of the file
  remaining, one flush, and no failure. It never succeeds for
  more than 65536 messages: the queue of its broker has that capacity and is never consumed.
\<close>

theorem cli_pub_exact:
  assumes "posix_laws P" "parse_pub_args args = Expected_value options" "\<not> po_help options"
  shows "\<exists>code b os'. pub_main P os clock args = Some (code, Some b, os') \<and> code \<le> 1 \<and>
    (code = 0 \<longrightarrow> writer_log (pb_writer b) (object_entries order_event_rep 0 (pub_events clock (unat (po_messages options)))) \<and>
       pub_summary options b =
         \<lparr>ps_wal_path = po_wal_path options, ps_messages_requested = po_messages options,
          ps_records_written = po_messages options,
          ps_metrics = counters_snapshot (counters_init\<lparr>ct_published := po_messages options,
            ct_wal_records_written := po_messages options, ct_wal_bytes_written := 64 * po_messages options, ct_wal_flushes := 1\<rparr>),
          ps_next_sequence = po_messages options, ps_current_offset = 64 * po_messages options,
          ps_remaining_space = po_wal_size_bytes options - 64 * po_messages options\<rparr>) \<and>
    (65536 < po_messages options \<longrightarrow> code = 1)"
proof -
  have C: "static_capacity 65536" by (simp add: static_capacity_def)
  let ?R = order_event_rep and ?n = "unat (po_messages options)"
  obtain st b os1 where op: "persistent_open_wal P os ?R 65536 (persistent_init 65536) (pub_wal_config options) =
      (st, b, os1)" by (cases "persistent_open_wal P os ?R 65536 (persistent_init 65536) (pub_wal_config options)")
  show ?thesis
  proof (cases "is_ok st")
    case False
    then show ?thesis using assms(2,3) op by (simp add: pub_main_def)
  next
    case True
    have st: "persistent_state ?R b [] (pub_events clock 0)"
      using persistent_open_state [OF assms(1) C op [unfolded persistent_open_wal_def] True] by (simp add: pub_events_def)
    have cap: "broker_capacity (pb_broker b) = 65536"
      using op True broker_init_ok(3) [OF C] unfolding persistent_open_wal_def persistent_open_def Let_def
      by (auto simp: persistent_init_def split: if_splits Expected.splits prod.splits)
    obtain st2 b2 os2 n where loop: "pub_loop P clock (po_messages options) 0 b os1 = Some (st2, b2, os2)"
        "persistent_state ?R b2 [] (pub_events clock n)" "n \<le> ?n"
        "broker_capacity (pb_broker b2) = 65536" "is_ok st2 \<longleftrightarrow> n = ?n"
        "is_ok st2 \<longrightarrow> publish_frame b2 = publish_frame b"
      using pub_loop_log [OF st, of "po_messages options" P os1] cap by auto
    have bound: "n \<le> 65536" using persistent_log_bounded [OF loop(2)] loop(4) by (simp add: pub_events_def)
    obtain st3 b3 os3 where fl: "persistent_flush P os2 b2 = (st3, b3, os3)"
      by (cases "persistent_flush P os2 b2")
    note keeps = persistent_flush_keeps [OF fl]
    show ?thesis
    proof (cases "is_ok st2")
      case False
      then show ?thesis using assms(2,3) op True loop(1) by (simp add: pub_main_def)
    next
      case ok: True
      then have "n = ?n" "\<not> 65536 < po_messages options"
        using loop(5) bound by (simp_all add: word_less_nat_alt)
      moreover have "publish_frame b2 = (po_wal_size_bytes options, counters_init)"
        using loop(6) ok persistent_open_state [OF assms(1) C op [unfolded persistent_open_wal_def] True]
          persistent_open_fields(3) [OF op [unfolded persistent_open_wal_def] True]
        by (simp add: publish_frame_def pub_wal_config_def counters_init_def)
      moreover have "writer_log (pb_writer b2) (object_entries ?R 0 (pub_events clock n))"
        using loop(2) by (simp add: persistent_state_def)
      ultimately show ?thesis
        using assms(2,3) op True loop(1,2) ok fl keeps pub_summary_eq [of b2 clock "po_messages options" options _ b3]
          persistent_state_valid [OF loop(2)]
        by (simp add: pub_main_def)
    qed
  qed
qed

theorem cli_pub_exact_witness:
  "\<exists>b os'. pub_main memfs_posix memfs_empty (\<lambda>i. 0)
     [''aether_pub'', ''--wal'', ''w'', ''--messages=65537''] = Some (1, Some b, os')"
proof -
  let ?args = "[''aether_pub'', ''--wal'', ''w'', ''--messages=65537'']"
  have "parse_pub_args ?args = Expected_value (default_PubOptions\<lparr>po_wal_path := ''w'', po_messages := 65537\<rparr>)"
    by (simp add: parse_pub_args_def parse_loop.simps pub_body_def is_help_def matches_def option_text_def
        option_u64_def arg_value_def expected_bind_def parse_u64_def from_chars_u64_def
        is_digit_def decimal_value_def digit_value_def Let_def)
  from cli_pub_exact [OF memfs_laws this, of memfs_empty "\<lambda>i. 0"] show ?thesis
    by (auto simp: default_PubOptions_def)
qed

section \<open>The local demo\<close>

definition local_events :: "nat \<Rightarrow> nat \<Rightarrow> OrderEvent list" where
  "local_events k n = map (\<lambda>i. make_event (of_nat i)) [k..<n]"

lemma of_nat_less_messages:
  "k < unat messages \<Longrightarrow> (of_nat k :: u64) < messages" "unat messages \<le> k \<Longrightarrow> k \<le> unat messages \<Longrightarrow> \<not> (of_nat k :: u64) < messages"
  for messages :: u64
  using unat_lt2p [of messages] by (auto simp: word_less_nat_alt unsigned_of_nat take_bit_nat_eq_self)

lemma local_publish_events:
  assumes "broker_ok b" "broker_contents b = local_events 0 k" "k \<le> unat messages"
    and "bk_counters b = counters_init\<lparr>ct_published := of_nat k\<rparr>"
  shows "\<exists>st b'. local_publish messages (of_nat k) b = Some (st, b') \<and>
    (is_ok st \<longleftrightarrow> unat messages \<le> broker_capacity b) \<and>
    (is_ok st \<longrightarrow> broker_ok b' \<and> broker_contents b' = local_events 0 (unat messages) \<and>
       bk_counters b' = counters_init\<lparr>ct_published := messages\<rparr>)"
  using assms
proof (induction "unat messages - k" arbitrary: k b)
  case 0
  then have k: "k = unat messages" by simp
  have "length (local_events 0 k) \<le> broker_capacity b" using broker.fill [OF 0(2)] 0(3) by simp
  then have "unat messages \<le> broker_capacity b" using k by (simp add: local_events_def)
  then show ?case
    using 0 k of_nat_less_messages(2) [of messages k] by (simp add: local_publish.simps)
next
  case (Suc d)
  have lt: "k < unat messages" and d: "d = unat messages - Suc k" using Suc.hyps(2) by simp_all
  note step = local_publish.simps [of messages "of_nat k" b] of_nat_less_messages(1) [OF lt]
  have len: "length (broker_contents b) = k" using Suc.prems(2) by (simp add: local_events_def)
  show ?case
  proof (cases "k < broker_capacity b")
    case True
    then obtain b1 where b1: "broker_try_publish b (make_event (of_nat k)) = Some (status_ok, b1)" "broker_ok b1"
        "broker_contents b1 = broker_contents b @ [make_event (of_nat k)]" "broker_capacity b1 = broker_capacity b"
        "bk_counters b1 = record_published (bk_counters b)"
      using broker.publish_room [OF Suc.prems(1), of "make_event (of_nat k)"] len by auto
    have "broker_contents b1 = local_events 0 (Suc k)" using b1(3) Suc.prems(2) by (simp add: local_events_def)
    moreover have "bk_counters b1 = counters_init\<lparr>ct_published := of_nat (Suc k)\<rparr>"
      using b1(5) Suc.prems(4) by (simp add: counter_simps)
    ultimately show ?thesis
      using Suc.hyps(1) [OF d b1(2) _ Suc_leI [OF lt]] lt step b1(1,4) by (simp add: add.commute)
  next
    case False
    then have full: "length (broker_contents b) = broker_capacity b" using broker.fill [OF Suc.prems(1)] len by simp
    obtain st b1 where "broker_try_publish b (make_event (of_nat k)) = Some (st, b1)" "st_code st = Full"
      using broker.publish_full [OF Suc.prems(1) full, of "make_event (of_nat k)"] by auto
    then show ?thesis using step lt False by (simp add: is_ok_def)
  qed
qed

lemma local_consume_events:
  assumes "broker_ok b" "broker_contents b = local_events k (unat messages)" "k \<le> unat messages"
    and "bk_counters b = counters_init\<lparr>ct_published := messages, ct_consumed := of_nat k\<rparr>"
  shows "\<exists>b'. local_consume messages limit (of_nat k) b printed =
      Some (status_ok, messages, b', printed @ local_events k (min (unat limit) (unat messages))) \<and>
    bk_counters b' = counters_init\<lparr>ct_published := messages, ct_consumed := messages\<rparr>"
  using assms
proof (induction "unat messages - k" arbitrary: k b printed)
  case 0
  then have k: "k = unat messages" by simp
  then show ?case
    using 0 of_nat_less_messages(2) [of messages k] by (simp add: local_consume.simps local_events_def)
next
  case (Suc d)
  have lt: "k < unat messages" and d: "d = unat messages - Suc k" using Suc.hyps(2) by simp_all
  note step = local_consume.simps [of messages limit "of_nat k" b printed] of_nat_less_messages(1) [OF lt]
  have u: "unat (of_nat k :: u64) = k"
    using lt unat_lt2p [of messages] by (simp add: unsigned_of_nat take_bit_nat_eq_self)
  have c: "broker_contents b = make_event (of_nat k) # local_events (Suc k) (unat messages)"
    using Suc.prems(2) lt by (simp add: local_events_def upt_conv_Cons)
  obtain b1 where b1: "broker_try_consume b default_OrderEvent = Some (status_ok, make_event (of_nat k), b1)"
      "broker_ok b1" "broker_contents b1 = local_events (Suc k) (unat messages)"
      "bk_counters b1 = record_consumed (bk_counters b)"
    using broker.consume_some [OF Suc.prems(1) c, of default_OrderEvent] by auto
  have cnt: "bk_counters b1 = counters_init\<lparr>ct_published := messages, ct_consumed := of_nat (Suc k)\<rparr>"
    using b1(4) Suc.prems(4) by (simp add: counter_simps)
  let ?printed = "if of_nat k < limit then printed @ [make_event (of_nat k)] else printed"
  obtain b' where IH: "local_consume messages limit (of_nat (Suc k)) b1 ?printed =
      Some (status_ok, messages, b', ?printed @ local_events (Suc k) (min (unat limit) (unat messages)))"
      "bk_counters b' = counters_init\<lparr>ct_published := messages, ct_consumed := messages\<rparr>"
    using Suc.hyps(1) [OF d b1(2,3) Suc_leI [OF lt] cnt, of ?printed] by (elim exE conjE)
  have "?printed @ local_events (Suc k) (min (unat limit) (unat messages)) =
      printed @ local_events k (min (unat limit) (unat messages))"
    using lt u by (auto simp: local_events_def upt_conv_Cons word_less_nat_alt)
  then show ?case using IH step b1(1) by (simp add: add.commute)
qed

lemma run_local_eq:
  assumes "static_capacity C"
  shows "run_local C options = Some (if unat (so_messages options) \<le> unat C
    then \<lparr>lo_printed = local_events 0 (min (unat (so_limit options)) (unat (so_messages options))),
      lo_end = Inr \<lparr>ls_produced = so_messages options, ls_consumed = so_messages options,
        ls_suppressed = (if so_messages options > so_limit options then so_messages options - so_limit options else 0),
        ls_metrics = counters_snapshot (counters_init\<lparr>ct_published := so_messages options,
          ct_consumed := so_messages options\<rparr>)\<rparr>\<rparr>
    else \<lparr>lo_printed = [], lo_end = Inl 1\<rparr>)"
proof -
  note init = broker_init_ok [OF assms]
  let ?n = "so_messages options"
  have c0: "broker_contents (broker_init C) = local_events 0 0" using init(2) by (simp add: local_events_def)
  obtain st b where pub: "local_publish ?n 0 (broker_init C) = Some (st, b)" "is_ok st \<longleftrightarrow> unat ?n \<le> unat C"
      "is_ok st \<longrightarrow> broker_ok b \<and> broker_contents b = local_events 0 (unat ?n) \<and>
         bk_counters b = counters_init\<lparr>ct_published := ?n\<rparr>"
    using local_publish_events [OF init(1) c0, of ?n] unfolding init(3) by (auto simp: counters_init_def)
  show ?thesis
  proof (cases "is_ok st")
    case True
    then obtain b' where "local_consume ?n (so_limit options) 0 b [] =
        Some (status_ok, ?n, b', local_events 0 (min (unat (so_limit options)) (unat ?n)))"
        "bk_counters b' = counters_init\<lparr>ct_published := ?n, ct_consumed := ?n\<rparr>"
      using local_consume_events [of b 0 ?n "so_limit options" "[]"] pub(3) by (auto simp: counters_init_def)
    then show ?thesis using True pub by (simp add: run_local_def broker_metrics_snapshot_def)
  next
    case False
    then show ?thesis using pub by (simp add: run_local_def)
  qed
qed

text \<open>
  C28. The local demo of \<open>aether_sub\<close>. For every command line it accepts, the demo runs on the queue
  of the requested capacity. If the messages fit into the queue it delivers all of them, prints the
  first ones up to the limit in the order of publication, and exits with 0 after a summary that gives
  all of them as produced, consumed and counted, the rest as suppressed, and no failure; otherwise it
  exits with 1 and prints no event and no summary.
\<close>

theorem cli_sub_local:
  assumes "parse_sub_args args = Expected_value options"
  shows "dispatch_local options = Some (if unat (so_messages options) \<le> unat (so_capacity options)
    then \<lparr>lo_printed = map (\<lambda>i. make_event (of_nat i)) [0..<min (unat (so_limit options)) (unat (so_messages options))],
      lo_end = Inr \<lparr>ls_produced = so_messages options, ls_consumed = so_messages options,
        ls_suppressed = (if so_messages options > so_limit options then so_messages options - so_limit options else 0),
        ls_metrics = counters_snapshot (counters_init\<lparr>ct_published := so_messages options,
          ct_consumed := so_messages options\<rparr>)\<rparr>\<rparr>
    else \<lparr>lo_printed = [], lo_end = Inl 1\<rparr>)"
proof -
  have sup: "so_capacity options \<in> set supported_capacities" using parse_sub_args_supported [OF assms] .
  then have "static_capacity (so_capacity options)"
    using supported_capacity_static by (auto simp: static_capacity_def is_power_of_two_def)
  moreover have "dispatch_local options = run_local (so_capacity options) options"
    using sup by (auto simp: dispatch_local_def supported_capacities_def)
  ultimately show ?thesis using run_local_eq by (simp add: local_events_def)
qed

theorem cli_sub_local_witness:
  "dispatch_local default_SubOptions = Some \<lparr>lo_printed = map (\<lambda>i. make_event (of_nat i)) [0..<10],
     lo_end = Inr \<lparr>ls_produced = 10, ls_consumed = 10, ls_suppressed = 0,
       ls_metrics = counters_snapshot (counters_init\<lparr>ct_published := 10, ct_consumed := 10\<rparr>)\<rparr>\<rparr>"
proof -
  have "parse_sub_args [''aether_sub''] = Expected_value default_SubOptions"
    by (simp add: parse_sub_args_def parse_loop_done)
  from cli_sub_local [OF this] show ?thesis by (simp add: default_SubOptions_def)
qed

end
