(* ===== verification/Cli_Pipeline.thy ===== *)
theory Cli_Pipeline
  imports Cli_Apps Wal_Roundtrip
begin

text \<open>
  The applications as processes that communicate through a log file: the \<open>main\<close> functions of
  \<open>aether_sub\<close>, \<open>aether_replay\<close> and \<open>aether_inspect_wal\<close>, run on the file that \<open>aether_pub\<close> wrote.

  \<^item> A \<open>main\<close> takes the system and the command line and returns the exit code with what it printed,
    as data. What \<open>aether_sub\<close> has printed before a replay fails is not kept.
  \<^item> Between two processes the file is closed; that the close succeeds, and that the file can then be
    opened, are hypotheses on the system.
  \<^item> Shown: what the readers report is what the publisher was asked to write, for every clock and
    every file system that obeys the laws of \<open>Mmap_File\<close>.
\<close>

section \<open>The main functions\<close>

text \<open>The visitor that \<open>aether_sub\<close> hands to \<open>replay_with_metrics\<close>, over \<open>seen\<close> and the events it
  has printed.\<close>

definition sub_visit ::
    "u64 \<Rightarrow> u64 \<times> OrderEvent list \<Rightarrow> OrderEvent \<Rightarrow> WalRecordHeader \<Rightarrow> Status \<times> u64 \<times> OrderEvent list" where
  "sub_visit limit st event header =
     (case st of (seen, printed) \<Rightarrow>
        (status_ok, seen + 1, if seen < limit then printed @ [event] else printed))"

record sub_report =
  sr_exit :: nat
  sr_events :: "OrderEvent list"
  sr_replayed :: u64
  sr_printed :: u64
  sr_suppressed :: u64
  sr_metrics :: BrokerMetricsSnapshot

datatype sub_outcome = Sub_exit nat | Sub_local local_output | Sub_replayed sub_report

definition sub_replay :: "'os posix \<Rightarrow> 'os \<Rightarrow> SubOptions \<Rightarrow> (sub_outcome \<times> 'os) option" where
  "sub_replay P os options =
     do { (status, (seen, printed), counters, os) \<leftarrow>
            replay_with_metrics P os order_event_rep (so_wal_path options) (sub_visit (so_limit options))
              (0, []) counters_init;
          if \<not> is_ok status then Some (Sub_exit 1, os)
          else Some (Sub_replayed \<lparr>sr_exit = 0, sr_events = printed, sr_replayed = seen,
            sr_printed = (if seen < so_limit options then seen else so_limit options),
            sr_suppressed = (if seen > so_limit options then seen - so_limit options else 0),
            sr_metrics = counters_snapshot counters\<rparr>, os) }"

definition sub_main :: "'os posix \<Rightarrow> 'os \<Rightarrow> string list \<Rightarrow> (sub_outcome \<times> 'os) option" where
  "sub_main P os args =
     (case parse_sub_args args of
        Expected_status s \<Rightarrow> Some (Sub_exit 2, os)
      | Expected_value options \<Rightarrow>
          if so_help options then Some (Sub_exit 0, os)
          else if so_wal_path options = [] then map_option (\<lambda>s. (Sub_local s, os)) (dispatch_local options)
          else sub_replay P os options)"

definition replay_main :: "'os posix \<Rightarrow> 'os \<Rightarrow> string list \<Rightarrow> (nat \<times> replay_output option \<times> 'os) option" where
  "replay_main P os args =
     (case parse_replay_args args of
        Expected_status s \<Rightarrow> Some (2, None, os)
      | Expected_value options \<Rightarrow>
          if ro_help options then Some (0, None, os)
          else
            let (reader_result, os) = wal_reader_open P os (ro_wal_path options) in
            case reader_result of
              Expected_status s \<Rightarrow> Some (1, None, os)
            | Expected_value reader \<Rightarrow>
                do { out \<leftarrow> replay_loop options reader 0 [] counters_init;
                     Some (scan_code (rp_end out), Some out, mmap_destroy P os (wr_file (rp_reader out))) })"

definition inspect_wal_main ::
    "'os posix \<Rightarrow> 'os \<Rightarrow> string list \<Rightarrow> (nat \<times> inspect_output option \<times> 'os) option" where
  "inspect_wal_main P os args =
     (case parse_inspect_wal_args args of
        Expected_status s \<Rightarrow> Some (2, None, os)
      | Expected_value options \<Rightarrow>
          if io_help options then Some (0, None, os)
          else
            let (reader_result, os) = wal_reader_open P os (io_wal_path options) in
            case reader_result of
              Expected_status s \<Rightarrow> Some (1, None, os)
            | Expected_value reader \<Rightarrow>
                do { out \<leftarrow> inspect_loop options reader inspect_start [] counters_init;
                     Some (scan_code (ip_end out), Some out, mmap_destroy P os (wr_file reader)) })"

section \<open>The file that \<open>aether_pub\<close> leaves\<close>

lemma persistent_publish_owns:
  assumes "posix_laws P" "persistent_state R b consumed msgs" "writer_owns P os path (pb_writer b)"
    and "persistent_try_publish P os now R b v flags = Some (st, b', os')"
  shows "writer_owns P os' path (pb_writer b')"
  using persistent_call_owns [OF assms(1-3), of v "Publish now v flags"] assms(4) by auto

lemma pub_loop_file:
  assumes "posix_laws P"
  shows "pub_loop P clock messages i b os = Some (st, b', os') \<Longrightarrow> is_ok st \<Longrightarrow>
    persistent_state order_event_rep b [] msgs \<Longrightarrow> writer_clean (pb_writer b) \<Longrightarrow>
    writer_owns P os path (pb_writer b) \<Longrightarrow>
    writer_clean (pb_writer b') \<and> writer_owns P os' path (pb_writer b')"
proof (induction "unat (messages - i)" arbitrary: i b os msgs rule: less_induct)
  case less
  note step = pub_loop.simps [of P clock messages i b os]
  show ?case
  proof (cases "i < messages")
    case True
    obtain s b1 os1 where p: "persistent_try_publish P os (clock i) order_event_rep b (make_event i) 0 = Some (s, b1, os1)"
        "writer_clean (pb_writer b) \<and> st_code s \<noteq> Io_error \<longrightarrow> writer_clean (pb_writer b1)"
        "persistent_state order_event_rep b1 [] (if is_ok s then msgs @ [(clock i, make_event i, 0)] else msgs)"
      using persistent_publish_cases [OF less.prems(3), of P os "clock i" "make_event i" 0] by blast
    have s: "is_ok s" "pub_loop P clock messages (i + 1) b1 os1 = Some (st, b', os')"
      using less.prems(1,2) step True p(1) by (auto split: if_splits)
    have "messages - i \<noteq> 0" using True by auto
    then have "unat (messages - i - 1) < unat (messages - i)" by (simp add: unat_minus_1 unat_gt_0)
    then have "unat (messages - (i + 1)) < unat (messages - i)" by (simp add: diff_diff_eq)
    moreover have "writer_clean (pb_writer b1)" using p(2) less.prems(4) s(1) by (auto simp: is_ok_def)
    ultimately show ?thesis
      using less.hyps s p(3) less.prems(2) persistent_publish_owns [OF assms less.prems(3,5) p(1)] by auto
  next
    case False
    then show ?thesis using less.prems step by simp
  qed
qed

lemma persistent_flush_owns:
  assumes "posix_laws P" "persistent_flush P os b = (st, b', os')" "writer_owns P os path (pb_writer b)"
  shows "writer_owns P os' path (pb_writer b')"
proof -
  obtain s os1 where fl: "mmap_flush P os (ww_file (pb_writer b)) = (s, os1)" by fastforce
  show ?thesis
    using assms(2,3) mmap_flush_post [OF assms(1) fl] fl
    by (auto simp: persistent_flush_def wal_writer_flush_def writer_owns_def Let_def split: if_splits)
qed

text \<open>After exit code 0, once the file has been closed and opened again, it decodes to the events.\<close>

lemma pub_file_log:
  assumes laws: "posix_laws P" and args: "parse_pub_args args = Expected_value options" "\<not> po_help options"
    and pub: "pub_main P os clock args = Some (0, Some b, os1)"
    and cl: "mmap_close P os1 (ww_file (pb_writer b)) = (st, f, os2)" "is_ok st"
    and op: "wal_reader_open P os2 (po_wal_path options) = (Expected_value r, os3)"
  shows "reader_inv r \<and> wr_current_offset r = 0 \<and> parse_log (reader_rest r) =
    (object_entries order_event_rep 0 (pub_events clock (unat (po_messages options))), mk_status Empty [])"
proof -
  have C: "static_capacity 65536" by (simp add: static_capacity_def)
  let ?R = order_event_rep and ?es = "object_entries order_event_rep 0 (pub_events clock (unat (po_messages options)))"
  obtain s1 b1 o1 where o: "persistent_open_wal P os ?R 65536 (persistent_init 65536) (pub_wal_config options) =
      (s1, b1, o1)" by (cases "persistent_open_wal P os ?R 65536 (persistent_init 65536) (pub_wal_config options)")
  have ok1: "is_ok s1" using pub args o by (auto simp: pub_main_def split: if_splits)
  then obtain s2 b2 o2 s3 where loop: "pub_loop P clock (po_messages options) 0 b1 o1 = Some (s2, b2, o2)"
      "is_ok s2" and fl: "persistent_flush P o2 b2 = (s3, b, os1)"
    using pub args o by (auto simp: pub_main_def bind_eq_Some_conv Let_def split: if_splits prod.splits)
  have st: "persistent_state ?R b1 [] (pub_events clock 0)" "writer_clean (pb_writer b1)"
      "writer_owns P o1 (po_wal_path options) (pb_writer b1)"
    using persistent_open_state [OF laws C o [unfolded persistent_open_wal_def] ok1]
    by (simp_all add: pub_events_def pub_wal_config_def)
  have f2: "writer_clean (pb_writer b2) \<and> writer_owns P o2 (po_wal_path options) (pb_writer b2)"
    using pub_loop_file [OF laws loop(1,2) st] .
  have log2: "writer_log (pb_writer b2) ?es"
    using pub_loop_log [OF st(1), of "po_messages options" P o1] loop(1,2) by (auto simp: persistent_state_def)
  have b: "writer_log (pb_writer b) ?es" "writer_clean (pb_writer b)"
    using persistent_flush_keeps [OF fl] log2 f2 by simp_all
  note r = writer_close_reader_open [OF laws b(1) persistent_flush_owns [OF laws fl] cl op]
  obtain tail where "mmap_bytes (ww_file (pb_writer b)) = wal_image ?es @ tail" "is_zero_filled tail"
    using writer_log_clean_bytes [OF b] .
  then show ?thesis using r f2 b(1) by (simp add: writer_log_def parse_log_image parse_log_zero)
qed

section \<open>Reading it back\<close>

lemma visit_object_entries_ok:
  assumes "trivially_copyable R" "\<And>s v h. is_ok (fst (visitor s v h))"
  shows "visit_all (replay_record R visitor) (wal_views off (object_entries R n xs)) (s, c, f) =
    Some (status_ok, length xs, fold (\<lambda>(v, h) s. snd (visitor s v h)) (logged_records R n xs) s,
      (record_recovered_record ^^ length xs) c, f)"
  using assms(1)
proof (induction R n xs arbitrary: off s c rule: object_entries.induct)
  case (2 R n now v flags xs)
  have "length (or_bytes R v) = unat (or_sizeof R)" "or_of_bytes R (or_bytes R v) = v"
    using 2(2) by (auto simp: trivially_copyable_def)
  then show ?case
    using 2(1) [OF 2(2)] assms(2) [of s v "append_header (of_nat n) now (object_message R v flags)"]
    by (simp add: replay_record_def append_entry_def object_message_def subspan_def funpow_swap1 split_beta)
qed simp

lemma fold_sub_visit:
  "k + length vs < 2 ^ 64 \<Longrightarrow>
   fold (\<lambda>(v, h) s. snd (sub_visit limit s v h)) vs (of_nat k, printed) =
     (of_nat (k + length vs), printed @ take (unat limit - k) (map fst vs))"
proof (induction vs arbitrary: k printed)
  case (Cons v vs)
  have "unat (of_nat k :: u64) = k" using Cons.prems by (simp add: unsigned_of_nat take_bit_nat_eq_self)
  moreover have "(1 :: u64) + of_nat k = of_nat (Suc k)" by simp
  ultimately show ?case
    using Cons.IH [of "Suc k"] Cons.prems
    by (cases v) (auto simp: sub_visit_def word_less_nat_alt take_Cons' add.commute simp del: of_nat_Suc)
qed simp

lemma take_upt_min: "take k [0..<n] = [0..<min k n]"
  by (cases "k \<le> n") (simp_all add: min_def)

lemma logged_pub_events: "map fst (logged_records R 0 (pub_events clock n)) = map (\<lambda>i. make_event (of_nat i)) [0..<n]"
  by (simp add: map_fst_logged_records pub_events_def logged_value_def comp_def)

text \<open>
  C14. From \<open>aether_pub\<close> to \<open>aether_sub\<close>. When \<open>aether_pub\<close> has exited with 0, its file was closed
  without an error and can be opened, \<open>aether_sub\<close> on that file exits with 0: it prints exactly the
  first events that were published, up to its limit, in order and bit for bit; it reports the number
  of events requested from \<open>aether_pub\<close> as replayed and recovered, and no failure.
\<close>

theorem cli_pub_then_sub:
  assumes "posix_laws P" "parse_pub_args pub_args = Expected_value pub" "\<not> po_help pub"
    and "pub_main P os clock pub_args = Some (0, Some b, os1)"
    and "mmap_close P os1 (ww_file (pb_writer b)) = (st, f, os2)" "is_ok st"
    and "wal_reader_open P os2 (po_wal_path pub) = (Expected_value r, os3)"
    and "parse_sub_args sub_args = Expected_value sub" "\<not> so_help sub"
    and "so_wal_path sub = po_wal_path pub" "po_wal_path pub \<noteq> []"
  shows "\<exists>report os4. sub_main P os2 sub_args = Some (Sub_replayed report, os4) \<and> sr_exit report = 0 \<and>
    sr_events report = map (\<lambda>i. make_event (of_nat i)) [0..<min (unat (so_limit sub)) (unat (po_messages pub))] \<and>
    sr_replayed report = po_messages pub \<and>
    ms_recovered_records (sr_metrics report) = po_messages pub \<and> ms_recovery_failures (sr_metrics report) = 0"
proof -
  let ?n = "unat (po_messages pub)" and ?v = "sub_visit (so_limit sub)"
  let ?xs = "pub_events clock ?n"
  have r: "reader_inv r" "wr_current_offset r = 0"
      "parse_log (reader_rest r) = (object_entries order_event_rep 0 ?xs, mk_status Empty [])"
    using pub_file_log [OF assms(1-7)] by simp_all
  have ok: "is_ok (fst (?v s v h))" for s v h by (simp add: sub_visit_def split_beta)
  have len: "length ?xs = ?n" by (simp add: pub_events_def)
  have "fold (\<lambda>(v, h) s. snd (?v s v h)) (logged_records order_event_rep 0 ?xs) (0, []) =
      (po_messages pub, map (\<lambda>i. make_event (of_nat i)) [0..<min (unat (so_limit sub)) ?n])"
  proof -
    have "length (logged_records order_event_rep 0 ?xs) = ?n"
      using len by (metis length_map map_fst_logged_records)
    then show ?thesis
      using fold_sub_visit [of 0 "logged_records order_event_rep 0 ?xs" "so_limit sub" "[]"]
        unat_lt2p [of "po_messages pub"]
      by (simp add: logged_pub_events take_map take_upt_min)
  qed
  then have "wal_reader_replay (replay_record order_event_rep ?v) r ((0, []), counters_init, False) =
      Some (status_ok, reader_at r (object_entries order_event_rep 0 ?xs),
        (po_messages pub, map (\<lambda>i. make_event (of_nat i)) [0..<min (unat (so_limit sub)) ?n]),
        (record_recovered_record ^^ ?n) counters_init, False)"
    using wal_reader_replay_eq [OF r(1,3), of "replay_record order_event_rep ?v" "((0, []), counters_init, False)"]
      visit_object_entries_ok [OF order_event_trivially_copyable, of ?v] ok len
    by (simp add: replay_status_def)
  then show ?thesis
    using assms(7-11) by (simp add: sub_main_def sub_replay_def replay_with_metrics_def counters_snapshot_def)
qed

lemma order_event_length [simp]: "length (or_bytes order_event_rep v) = 24"
  by (simp add: order_event_rep_def)

lemma order_entries_totals:
  "(\<Sum>e\<leftarrow>object_entries order_event_rep n xs. ucast (rh_payload_size (fst e))) = (24 * of_nat (length xs) :: u64)"
  "length (wal_image (object_entries order_event_rep n xs)) = 64 * length xs"
proof (induction xs arbitrary: n)
  case (Cons x xs)
  obtain now v flags where x: "x = (now, v, flags)" by (cases x)
  { case 1 show ?case using Cons(1) by (simp add: x append_entry_def object_message_def distrib_left) }
  { case 2 show ?case using Cons(2) by (simp add: x append_entry_def object_message_def) }
qed simp_all

lemma order_entries_sequences:
  "map (rh_sequence \<circ> fst) (object_entries R n xs) = map of_nat [n..<n + length xs]"
  by (induction R n xs rule: object_entries.induct)
    (simp_all add: append_entry_def upt_conv_Cons del: upt_Suc)

text \<open>
  C16. From \<open>aether_pub\<close> to \<open>aether_inspect_wal\<close>. On the file that a successful \<open>aether_pub\<close> has
  closed, an inspection without a limit exits with 0 and its summary reports the requested number of
  records, 24 payload bytes for each, sequence numbers from 0 to one less than their number, a final
  offset of 64 bytes per record, as many recovered records, and no recovery failure.
\<close>

theorem cli_pub_then_inspect:
  assumes "posix_laws P" "parse_pub_args pub_args = Expected_value pub" "\<not> po_help pub"
    and "pub_main P os clock pub_args = Some (0, Some b, os1)"
    and "mmap_close P os1 (ww_file (pb_writer b)) = (st, f, os2)" "is_ok st"
    and "wal_reader_open P os2 (po_wal_path pub) = (Expected_value r, os3)"
    and "parse_inspect_wal_args args = Expected_value options" "\<not> io_help options"
    and "io_wal_path options = po_wal_path pub" "io_limit options = 0"
  shows "\<exists>out os4. inspect_wal_main P os2 args = Some (0, Some out, os4) \<and>
    ip_end out = Inr \<lparr>is_count = po_messages pub, is_total_payload = 24 * po_messages pub, is_first_sequence = 0,
      is_last_sequence = (if po_messages pub = 0 then 0 else po_messages pub - 1),
      is_final_offset = 64 * po_messages pub,
      is_metrics = counters_snapshot (counters_init\<lparr>ct_recovered_records := po_messages pub\<rparr>)\<rparr>"
proof -
  let ?n = "unat (po_messages pub)"
  define es where "es = object_entries order_event_rep 0 (pub_events clock ?n)"
  have r: "reader_inv r" "wr_current_offset r = 0" "parse_log (reader_rest r) = (es, mk_status Empty [])"
    using pub_file_log [OF assms(1-7)] by (simp_all add: es_def)
  have len: "length es = ?n" by (simp add: es_def pub_events_def)
  then have small: "length (wal_views 0 es) < 2 ^ 64" using unat_lt2p [of "po_messages pub"] by simp
  note totals = inspect_totals_log [OF small]
  have seqs: "map (rh_sequence \<circ> fst) es = map of_nat [0..<?n]"
    using order_entries_sequences [of order_event_rep 0 "pub_events clock ?n"] by (simp add: es_def pub_events_def)
  have ends: "rh_sequence (fst (hd es)) = 0" "rh_sequence (fst (last es)) = po_messages pub - 1" if "es \<noteq> []"
  proof -
    have "0 < ?n" using that len by (cases "?n = 0") auto
    then have "of_nat (?n - 1) = po_messages pub - 1" by (simp add: of_nat_diff)
    then show "rh_sequence (fst (hd es)) = 0" "rh_sequence (fst (last es)) = po_messages pub - 1"
      using \<open>0 < ?n\<close> that arg_cong [OF seqs, of hd] arg_cong [OF seqs, of last]
      by (simp_all add: hd_map last_map)
  qed
  have "es = [] \<longleftrightarrow> po_messages pub = 0" using len by (metis length_0_conv unsigned_eq_0_iff)
  moreover have "wal_views 0 es = [] \<longleftrightarrow> es = []" by (metis length_0_conv length_wal_views)
  moreover have "(\<Sum>v\<leftarrow>wal_views 0 es. ucast (rh_payload_size (rv_header v))) = 24 * po_messages pub"
    using sum_wal_views [of "\<lambda>h. ucast (rh_payload_size h) :: u64" 0 es]
      order_entries_totals(1) [of 0 "pub_events clock ?n"] by (simp add: es_def pub_events_def)
  moreover have "wr_current_offset (reader_at r es) = 64 * po_messages pub"
    using r(2) order_entries_totals(2) [of 0 "pub_events clock ?n"] by (simp add: reader_at_def es_def pub_events_def)
  moreover have "it_count (fold inspect_record (wal_views 0 es) inspect_start) = po_messages pub"
    using len by (simp add: inspect_fold inspect_start_def)
  ultimately show ?thesis
    using inspect_loop_log [OF r(1,3), of inspect_start 0 options "[]" counters_init] small len assms(7-11) totals
      hd_last_wal_views [of es 0] ends r(2)
    by (simp add: inspect_wal_main_def inspect_start_def inspect_finish_def within_limit_def scan_clean_def
        scan_counters_def scan_code_def recovered_counters Let_def)
qed

text \<open>\<open>aether_replay\<close> without a limit shows all records of that file, in order.\<close>

lemma pub_then_replay:
  assumes "posix_laws P" "parse_pub_args pub_args = Expected_value pub" "\<not> po_help pub"
    and "pub_main P os clock pub_args = Some (0, Some b, os1)"
    and "mmap_close P os1 (ww_file (pb_writer b)) = (st, f, os2)" "is_ok st"
    and "wal_reader_open P os2 (po_wal_path pub) = (Expected_value r, os3)"
    and "parse_replay_args args = Expected_value options" "\<not> ro_help options"
    and "ro_wal_path options = po_wal_path pub" "ro_limit options = 0"
  shows "\<exists>out os4. replay_main P os2 args = Some (0, Some out, os4) \<and>
    map fst (rp_shown out) =
      wal_views 0 (object_entries order_event_rep 0 (pub_events clock (unat (po_messages pub)))) \<and>
    rs_records (projr (rp_end out)) = po_messages pub"
proof -
  let ?es = "object_entries order_event_rep 0 (pub_events clock (unat (po_messages pub)))"
  have r: "reader_inv r" "wr_current_offset r = 0" "parse_log (reader_rest r) = (?es, mk_status Empty [])"
    using pub_file_log [OF assms(1-7)] by simp_all
  have "length ?es < 2 ^ 64" using unat_lt2p [of "po_messages pub"] by (simp add: pub_events_def)
  then show ?thesis
    using replay_loop_log [OF r(1,3), of 0 0 options "[]" counters_init] assms(7-11) r(2)
    by (simp add: replay_main_def replay_finish_def within_limit_def scan_clean_def scan_code_def shown_views_def
        comp_def pub_events_def Let_def)
qed

section \<open>A run on the file system in memory\<close>

definition one_event_args :: "string list" where
  "one_event_args = [''aether_pub'', ''--wal'', ''w'', ''--messages=1'', ''--wal-size=256'']"

definition one_event_options :: PubOptions where
  "one_event_options = \<lparr>po_help = False, po_wal_path = ''w'', po_messages = 1, po_wal_size_bytes = 256,
     po_flush_on_commit = False\<rparr>"

lemma one_event_parse: "parse_pub_args one_event_args = Expected_value one_event_options"
  by (simp add: one_event_args_def one_event_options_def default_PubOptions_def parse_pub_args_def
      parse_loop.simps pub_body_def is_help_def matches_def option_text_def option_u64_def arg_value_def
      expected_bind_def parse_u64_def from_chars_u64_def is_digit_def decimal_value_def digit_value_def Let_def)

definition one_event_bytes :: "byte list" where
  "one_event_bytes = entry_image (append_entry 0 5 (object_message order_event_rep (make_event 0) 0)) @ replicate 192 0"

lemma one_event_open:
  "\<exists>b. persistent_open_wal memfs_posix memfs_empty order_event_rep 65536 (persistent_init 65536)
       (pub_wal_config one_event_options) = (status_ok, b, memfs_opened (replicate 256 0)) \<and>
     pb_writer b = wal_writer_make (memfs_file 256 (replicate 256 0)) False \<and> pb_broker b = broker_init 65536"
proof -
  let ?w = "pub_wal_config one_event_options"
  have "static_capacity 65536" by (simp add: static_capacity_def)
  then have "is_ok (validate_queue_config_for_capacity (default_QueueConfig\<lparr>qc_capacity := 65536\<rparr>) 65536)"
    by (simp add: status_simps)
  moreover have "validate_wal_config_for_payload ?w (or_sizeof order_event_rep) = status_ok"
    by (simp add: validate_wal_config_for_payload_def status_simps pub_wal_config_def one_event_options_def
        order_event_rep_def ucast_max_payload_size wal_record_header_size_def)
  moreover have "wal_writer_create_config memfs_posix memfs_empty ?w =
      (Expected_value (wal_writer_make (memfs_file 256 (replicate 256 0)) False), memfs_opened (replicate 256 0))"
    by (simp add: wal_writer_create_config_def wal_writer_create_def status_simps pub_wal_config_def
        one_event_options_def wal_record_header_size_def memfs_create)
  ultimately show ?thesis
    by (simp add: persistent_open_wal_def persistent_open_def mmap_move_assign_def mmap_close_default
        mmap_move_def Let_def) (simp add: persistent_init_def)
qed

lemma memfs_flush_file:
  assumes "sz \<noteq> 0"
  shows "mmap_flush memfs_posix (memfs_opened bs') (memfs_file sz bs) = (status_ok, memfs_opened bs)"
  using assms
  by (simp add: mmap_flush_def mmap_data_def mmap_valid_def memfs_defs memfs_file_def memfs_opened_def Let_def)

lemma one_event_run:
  "\<exists>b. pub_main memfs_posix memfs_empty (\<lambda>i. 5) one_event_args = Some (0, Some b, memfs_opened one_event_bytes) \<and>
     ww_file (pb_writer b) = memfs_file 256 one_event_bytes"
proof -
  let ?R = order_event_rep and ?m = "object_message order_event_rep (make_event 0) 0"
  have C: "static_capacity 65536" by (simp add: static_capacity_def)
  obtain b where op: "persistent_open_wal memfs_posix memfs_empty ?R 65536 (persistent_init 65536)
       (pub_wal_config one_event_options) = (status_ok, b, memfs_opened (replicate 256 0))"
      and w: "pb_writer b = wal_writer_make (memfs_file 256 (replicate 256 0)) False"
      and bk: "pb_broker b = broker_init 65536"
    using one_event_open by blast
  have st: "persistent_state ?R b [] []"
    using persistent_open_state [OF memfs_laws C op [unfolded persistent_open_wal_def]] by simp
  then have log: "writer_log (pb_writer b) []" and ok: "broker_ok (broker_init 65536 :: OrderEvent Broker)"
    using bk by (simp_all add: persistent_state_def)
  have m: "length (mv_payload ?m) = 24" "mh_payload_size (mv_header ?m) = 24"
    by (simp_all add: object_message_def order_event_rep_def)
  let ?w = "append_commit 64 (writer_put (pb_writer b) (append_entry 0 5 ?m))"
  have app: "append_to_wal memfs_posix os 5 ?R (pb_writer b) (make_event 0) 0 = Some (status_ok, ?w, os)" for os
    using m by (simp add: append_to_wal_def wal_writer_append_eq [OF log] Let_def split_beta)
      (simp add: w wal_writer_make_def memfs_file_def wal_writer_default_def)
  have fw: "ww_file ?w = memfs_file 256 one_event_bytes"
    using memfs_written [of 256 64 False "append_entry 0 5 ?m"] m by (simp add: w append_entry_def one_event_bytes_def)
  obtain bk' where pub: "broker_try_publish (broker_init 65536) (make_event 0) = Some (status_ok, bk')"
    using broker.publish_room [OF ok, of "make_event 0"] by (auto simp: broker_init_ok [OF C])
  have "\<not> broker_full (broker_init 65536 :: OrderEvent Broker)"
    by (simp add: broker_full_def ring_full_def ring_size_approx_def broker_init_def ring_init_def)
  then obtain b' where tp: "persistent_try_publish memfs_posix (memfs_opened (replicate 256 0)) 5 ?R b (make_event 0) 0 =
        Some (status_ok, b', memfs_opened (replicate 256 0))" and w': "pb_writer b' = ?w"
      and open': "pb_open_status b' = pb_open_status b"
    using persistent_state_valid [OF st] app pub that by (simp add: persistent_try_publish_def bk Let_def)
  have loop: "pub_loop memfs_posix (\<lambda>i. 5) 1 0 b (memfs_opened (replicate 256 0)) =
      Some (status_ok, b', memfs_opened (replicate 256 0))"
    using tp by (simp add: pub_loop.simps [of _ _ 1])
  have valid: "wal_writer_valid ?w" by (simp add: wal_writer_valid_def fw mmap_valid_def) (simp add: memfs_file_def)
  then have "persistent_valid b'"
    using persistent_state_valid [OF st] open' by (simp add: persistent_valid_def w')
  then have "persistent_flush memfs_posix (memfs_opened (replicate 256 0)) b' =
      (status_ok, b'\<lparr>pb_counters := record_wal_flush (pb_counters b')\<rparr>, memfs_opened one_event_bytes)"
    using valid by (simp add: persistent_flush_def wal_writer_flush_def w' fw memfs_flush_file)
  then show ?thesis
    using one_event_parse op loop fw w' by (simp add: pub_main_def) (simp add: one_event_options_def)
qed

lemma one_event_close:
  "mmap_close memfs_posix (memfs_opened one_event_bytes) (memfs_file 256 one_event_bytes) =
     (status_ok, mmap_default, memfs_closed one_event_bytes)"
  by (simp add: memfs_close_file)

lemma one_event_reopen:
  "\<exists>r os. wal_reader_open memfs_posix (memfs_closed one_event_bytes) (po_wal_path one_event_options) = (Expected_value r, os)"
proof -
  have "one_event_bytes \<noteq> []" "length one_event_bytes < 2 ^ 63"
    by (simp_all add: one_event_bytes_def append_entry_def object_message_def order_event_rep_def)
  then show ?thesis using memfs_reopen [of one_event_bytes] by (simp add: wal_reader_open_def one_event_options_def)
qed

theorem cli_pub_then_sub_witness:
  "\<exists>report os4. sub_main memfs_posix (memfs_closed one_event_bytes) [''aether_sub'', ''--wal'', ''w'', ''--limit=7''] =
     Some (Sub_replayed report, os4) \<and> sr_events report = [make_event 0] \<and> sr_replayed report = 1"
proof -
  obtain b where pub: "pub_main memfs_posix memfs_empty (\<lambda>i. 5) one_event_args =
      Some (0, Some b, memfs_opened one_event_bytes)" and w: "ww_file (pb_writer b) = memfs_file 256 one_event_bytes"
    using one_event_run by blast
  obtain r os where op: "wal_reader_open memfs_posix (memfs_closed one_event_bytes) (po_wal_path one_event_options) =
      (Expected_value r, os)" using one_event_reopen by blast
  have args: "parse_sub_args [''aether_sub'', ''--wal'', ''w'', ''--limit=7''] =
      Expected_value (default_SubOptions\<lparr>so_wal_path := ''w'', so_limit := 7\<rparr>)"
    by (simp add: parse_sub_args_def parse_loop.simps sub_body_def is_help_def matches_def option_text_def
        option_u64_def arg_value_def expected_bind_def parse_u64_def from_chars_u64_def
        is_digit_def decimal_value_def digit_value_def Let_def)
  obtain report os4 where "sub_main memfs_posix (memfs_closed one_event_bytes) [''aether_sub'', ''--wal'', ''w'', ''--limit=7''] =
      Some (Sub_replayed report, os4)" "sr_events report = [make_event 0]" "sr_replayed report = 1"
    using cli_pub_then_sub [OF memfs_laws one_event_parse _ pub one_event_close [folded w] _ op args]
    by (auto simp: one_event_options_def default_SubOptions_def)
  then show ?thesis by blast
qed

theorem cli_pub_then_inspect_witness:
  "\<exists>out os4. inspect_wal_main memfs_posix (memfs_closed one_event_bytes) [''aether_inspect_wal'', ''--wal'', ''w''] =
     Some (0, Some out, os4) \<and> is_count (projr (ip_end out)) = 1 \<and> is_final_offset (projr (ip_end out)) = 64"
proof -
  obtain b where pub: "pub_main memfs_posix memfs_empty (\<lambda>i. 5) one_event_args =
      Some (0, Some b, memfs_opened one_event_bytes)" and w: "ww_file (pb_writer b) = memfs_file 256 one_event_bytes"
    using one_event_run by blast
  obtain r os where op: "wal_reader_open memfs_posix (memfs_closed one_event_bytes) (po_wal_path one_event_options) =
      (Expected_value r, os)" using one_event_reopen by blast
  have args: "parse_inspect_wal_args [''aether_inspect_wal'', ''--wal'', ''w''] =
      Expected_value (default_InspectWalOptions\<lparr>io_wal_path := ''w''\<rparr>)"
    by (simp add: parse_inspect_wal_args_def parse_loop.simps inspect_wal_body_def is_help_def matches_def
        option_text_def arg_value_def expected_bind_def Let_def)
  obtain out os4 where "inspect_wal_main memfs_posix (memfs_closed one_event_bytes)
      [''aether_inspect_wal'', ''--wal'', ''w''] = Some (0, Some out, os4)"
      "is_count (projr (ip_end out)) = 1" "is_final_offset (projr (ip_end out)) = 64"
    using cli_pub_then_inspect [OF memfs_laws one_event_parse _ pub one_event_close [folded w] _ op args]
    by (auto simp: one_event_options_def default_InspectWalOptions_def)
  then show ?thesis by blast
qed

end
