(* ===== verification/Examples.thy ===== *)
theory Examples
  imports Cli_Pipeline
begin

text \<open>
  The programs under \<open>examples/\<close>, from the first statement of \<open>main\<close> to the exit code. What a
  program prints is returned as data.

  \<^item> \<open>basic_spsc\<close> and \<open>broker_basic\<close> use no system: they always exit with 0.
  \<^item> \<open>mmap_smoke\<close>, \<open>wal_replay\<close> and \<open>persistent_broker\<close> run on the system of \<open>Mmap_File\<close>. The creation
    and removal of directories and files through \<open>std::filesystem\<close> is left out: the path is an
    argument. They exit with 1 only where a call of the system has failed, and with 0 they have
    printed what they are meant to demonstrate.
\<close>

section \<open>basic_spsc\<close>

text \<open>\<open>!queue.try_push(a) || !queue.try_push(b) || ...\<close>, negated.\<close>

fun push_chain :: "'a SpscRingBuffer \<Rightarrow> 'a list \<Rightarrow> (bool \<times> 'a SpscRingBuffer) option" where
  "push_chain q [] = Some (True, q)"
| "push_chain q (v # vs) =
     do { (pushed, q) \<leftarrow> ring_try_push q v; if \<not> pushed then Some (False, q) else push_chain q vs }"

text \<open>The loop over the expected values: whether it ran to its end, and what it printed.\<close>

fun pop_expected :: "int SpscRingBuffer \<Rightarrow> int list \<Rightarrow> int list \<Rightarrow> (bool \<times> int list \<times> int SpscRingBuffer) option" where
  "pop_expected q [] printed = Some (True, printed, q)"
| "pop_expected q (expected # es) printed =
     do { (popped, value, q) \<leftarrow> ring_try_pop q 0;
          if \<not> popped \<or> value \<noteq> expected then Some (False, printed, q)
          else pop_expected q es (printed @ [value]) }"

definition example_basic_spsc :: "(nat \<times> int list \<times> u64 list) option" where
  "example_basic_spsc =
     do { (pushed, queue) \<leftarrow> push_chain (ring_init 4) [1, 2, 3];
          if \<not> pushed then Some (1, [], [])
          else do {
            (ok, printed, queue) \<leftarrow> pop_expected queue [1, 2, 3] [];
            if \<not> ok then Some (1, printed, [])
            else do {
              let input_header = \<lparr>mh_sequence = 42, mh_timestamp_ns = 1000, mh_payload_size = 128, mh_flags = 1\<rparr>;
              let output_header = \<lparr>mh_sequence = 0, mh_timestamp_ns = 0, mh_payload_size = 0, mh_flags = 0\<rparr>;
              (pushed, headers) \<leftarrow> ring_try_push (ring_init 4) input_header;
              if \<not> pushed then Some (1, printed, [])
              else do {
                (popped, output_header, headers) \<leftarrow> ring_try_pop headers output_header;
                if \<not> popped \<or> mh_sequence output_header \<noteq> mh_sequence input_header then Some (1, printed, [])
                else Some (0, printed, [mh_sequence output_header]) } } } }"

section \<open>broker_basic\<close>

definition example_broker_basic :: "(nat \<times> OrderEvent list) option" where
  "example_broker_basic =
     do { (publish_status, broker) \<leftarrow>
            broker_try_publish (broker_init 64) \<lparr>oe_id = 1, oe_price_bits = double_bits (405 / 4), oe_quantity = 10\<rparr>;
          if \<not> is_ok publish_status then Some (1, [])
          else do {
            (consume_status, out, broker) \<leftarrow> broker_try_consume broker default_OrderEvent;
            if \<not> is_ok consume_status then Some (1, []) else Some (0, [out]) } }"

section \<open>mmap_smoke\<close>

datatype smoke_end = Create_failed | Flush_failed | Close_failed | Reopen_failed | Marker_lost | Smoke_succeeded

definition smoke_exit :: "smoke_end \<Rightarrow> nat" where
  "smoke_exit e = (if e = Smoke_succeeded then 0 else 1)"

definition text_bytes :: "string \<Rightarrow> byte list" where
  "text_bytes text = map of_char text"

definition smoke_marker :: "byte list" where
  "smoke_marker = text_bytes ''Aether-Stream mmap smoke record''"

definition example_mmap_smoke :: "'os posix \<Rightarrow> 'os \<Rightarrow> path \<Rightarrow> (smoke_end \<times> 'os) option" where
  "example_mmap_smoke P os file_path =
     (let (create_result, os) = mmap_create P os file_path 4096 default_MmapFileOptions in
      case create_result of
        Expected_status s \<Rightarrow> Some (Create_failed, os)
      | Expected_value f \<Rightarrow>
          do { bytes \<leftarrow> memcpy_into (mmap_bytes f) 0 smoke_marker;
               let f = mmap_set_bytes f bytes;
               let (status, os) = mmap_flush P os f;
               if \<not> is_ok status then Some (Flush_failed, mmap_destroy P os f)
               else do {
                 let (status, f, os) = mmap_close P os f;
                 if \<not> is_ok status then Some (Close_failed, mmap_destroy P os f)
                 else
                   let (reopen_result, os) = mmap_open_existing P os file_path default_MmapFileOptions in
                   case reopen_result of
                     Expected_status s \<Rightarrow> Some (Reopen_failed, mmap_destroy P os f)
                   | Expected_value reopened \<Rightarrow>
                       do { prefix \<leftarrow> subspan (mmap_bytes reopened) 0 (length smoke_marker);
                            let os = mmap_destroy P (mmap_destroy P os reopened) f;
                            Some (if prefix \<noteq> smoke_marker then Marker_lost else Smoke_succeeded, os) } } })"

section \<open>wal_replay\<close>

definition text_message :: "string \<Rightarrow> MessageView" where
  "text_message text =
     (let payload = text_bytes text in
      \<lparr>mv_header = \<lparr>mh_sequence = 0, mh_timestamp_ns = 0, mh_payload_size = of_nat (length payload), mh_flags = 0\<rparr>,
       mv_payload = payload\<rparr>)"

fun append_samples ::
    "'os posix \<Rightarrow> (nat \<Rightarrow> u64) \<Rightarrow> nat \<Rightarrow> WalWriter \<Rightarrow> 'os \<Rightarrow> string list \<Rightarrow> (Status \<times> WalWriter \<times> 'os) option" where
  "append_samples P clock n writer os [] = Some (status_ok, writer, os)"
| "append_samples P clock n writer os (sample # samples) =
     do { (status, writer, os) \<leftarrow> wal_writer_append P os (clock n) writer (text_message sample);
          if \<not> is_ok status then Some (status, writer, os)
          else append_samples P clock (Suc n) writer os samples }"

definition example_wal_replay ::
    "'os posix \<Rightarrow> 'os \<Rightarrow> (nat \<Rightarrow> u64) \<Rightarrow> path \<Rightarrow> (nat \<times> WalRecordView list \<times> 'os) option" where
  "example_wal_replay P os clock wal_path =
     (let (writer_result, os) = wal_writer_create P os wal_path (64 * 1024) False in
      case writer_result of
        Expected_status s \<Rightarrow> Some (1, [], os)
      | Expected_value writer \<Rightarrow>
          do { (status, writer, os) \<leftarrow> append_samples P clock 0 writer os [''alpha'', ''bravo'', ''charlie''];
               if \<not> is_ok status then Some (1, [], mmap_destroy P os (ww_file writer))
               else do {
                 let (flush_status, os) = wal_writer_flush P os writer;
                 let os = mmap_destroy P os (ww_file writer);
                 if \<not> is_ok flush_status then Some (1, [], os)
                 else
                   let (reader_result, os) = wal_reader_open P os wal_path in
                   case reader_result of
                     Expected_status s \<Rightarrow> Some (1, [], os)
                   | Expected_value reader \<Rightarrow>
                       do { (replay_status, reader, printed) \<leftarrow> wal_reader_replay collect reader [];
                            let os = mmap_destroy P os (wr_file reader);
                            if \<not> is_ok replay_status then Some (1, printed, os)
                            else Some (0, printed, os) } } })"

section \<open>persistent_broker\<close>

fun publish_orders ::
    "'os posix \<Rightarrow> (nat \<Rightarrow> u64) \<Rightarrow> nat \<Rightarrow> OrderEvent PersistentBroker \<Rightarrow> 'os \<Rightarrow> OrderEvent list \<Rightarrow>
     (bool \<times> OrderEvent PersistentBroker \<times> 'os) option" where
  "publish_orders P clock n broker os [] = Some (True, broker, os)"
| "publish_orders P clock n broker os (order # orders) =
     do { (status, broker, os) \<leftarrow> persistent_try_publish P os (clock n) order_event_rep broker order 0;
          if \<not> is_ok status then Some (False, broker, os)
          else publish_orders P clock (Suc n) broker os orders }"

fun consume_orders ::
    "nat \<Rightarrow> OrderEvent PersistentBroker \<Rightarrow> OrderEvent list \<Rightarrow> (bool \<times> OrderEvent list \<times> OrderEvent PersistentBroker) option" where
  "consume_orders 0 broker consumed = Some (True, consumed, broker)"
| "consume_orders (Suc i) broker consumed =
     do { (status, out, broker) \<leftarrow> persistent_try_consume broker default_OrderEvent;
          if \<not> is_ok status then Some (False, consumed, broker)
          else consume_orders i broker (consumed @ [out]) }"

definition example_orders :: "OrderEvent list" where
  "example_orders = [\<lparr>oe_id = 1, oe_price_bits = double_bits (405 / 4), oe_quantity = 10\<rparr>,
     \<lparr>oe_id = 2, oe_price_bits = double_bits (205 / 2), oe_quantity = 20\<rparr>]"

definition example_persistent_broker ::
    "'os posix \<Rightarrow> 'os \<Rightarrow> (nat \<Rightarrow> u64) \<Rightarrow> path \<Rightarrow>
     (nat \<times> OrderEvent list \<times> (OrderEvent \<times> WalRecordHeader) list \<times> 'os) option" where
  "example_persistent_broker P os clock path =
     (let wal_config = \<lparr>wc_path = path, wc_file_size_bytes = 4096, wc_flush_on_commit = False\<rparr>;
          (broker, os) = persistent_construct_wal P os order_event_rep 64 wal_config in
      if \<not> persistent_valid broker then Some (1, [], [], mmap_destroy P os (ww_file (pb_writer broker)))
      else do {
        (ok, broker, os) \<leftarrow> publish_orders P clock 0 broker os example_orders;
        if \<not> ok then Some (1, [], [], mmap_destroy P os (ww_file (pb_writer broker)))
        else do {
          (ok, consumed, broker) \<leftarrow> consume_orders 2 broker [];
          if \<not> ok then Some (1, consumed, [], mmap_destroy P os (ww_file (pb_writer broker)))
          else do {
            let (flush_status, broker, os) = persistent_flush P os broker;
            let os = mmap_destroy P os (ww_file (pb_writer broker));
            if \<not> is_ok flush_status then Some (1, consumed, [], os)
            else do {
              (replay_status, replayed, os) \<leftarrow> persistent_replay P os order_event_rep path collect_value [];
              if \<not> is_ok replay_status then Some (1, consumed, replayed, os)
              else Some (0, consumed, replayed, os) } } } })"

section \<open>Programs without a system\<close>

lemma push_chain_room:
  assumes "ring_inv q" "length (ring_contents q) + length vs \<le> unat (rb_capacity q)"
  shows "\<exists>q'. push_chain q vs = Some (True, q') \<and> ring_inv q' \<and> ring_contents q' = ring_contents q @ vs"
  using assms
proof (induction vs arbitrary: q)
  case (Cons v vs)
  obtain q1 where "ring_try_push q v = Some (True, q1)" "ring_inv q1" "ring_contents q1 = ring_contents q @ [v]"
      "unat (rb_capacity q1) = unat (rb_capacity q)"
    using ring.push_room [OF Cons.prems(1), of v] Cons.prems(2) by auto
  then show ?case using Cons.IH [of q1] Cons.prems(2) by auto
qed simp

lemma pop_expected_all:
  assumes "ring_inv q" "ring_contents q = es"
  shows "\<exists>q'. pop_expected q es printed = Some (True, printed @ es, q')"
  using assms
proof (induction es arbitrary: q printed)
  case (Cons e es)
  obtain q1 where "ring_try_pop q 0 = Some (True, e, q1)" "ring_inv q1" "ring_contents q1 = es"
    using ring.pop_some [OF Cons.prems, of 0] by auto
  then show ?case using Cons.IH [of q1 "printed @ [e]"] by auto
qed simp

lemma ring_init_4: "ring_inv (ring_init 4)" "ring_contents (ring_init 4) = []" "unat (rb_capacity (ring_init 4)) = 4"
proof -
  have C: "static_capacity 4" by (simp add: static_capacity_def)
  show "ring_inv (ring_init 4)" "ring_contents (ring_init 4) = []" using ring_init_inv [OF C] by simp_all
  show "unat (rb_capacity (ring_init 4)) = 4" by (simp add: ring_init_def)
qed

theorem example_basic_spsc_succeeds: "example_basic_spsc = Some (0, [1, 2, 3], [42])"
proof -
  note init = ring_init_4
  obtain q where q: "push_chain (ring_init 4) [1, 2, 3] = Some (True, q)" "ring_inv q" "ring_contents q = [1, 2, 3 :: int]"
    using push_chain_room [OF init(1), of "[1, 2, 3 :: int]"] by (auto simp add: init simp del: push_chain.simps)
  obtain q' where q': "pop_expected q [1, 2, 3] [] = Some (True, [1, 2, 3], q')"
    using pop_expected_all [OF q(2,3), of "[]"] by auto
  let ?h = "\<lparr>mh_sequence = 42, mh_timestamp_ns = 1000, mh_payload_size = 128, mh_flags = 1\<rparr>"
  obtain h where h: "ring_try_push (ring_init 4) ?h = Some (True, h)" "ring_inv h" "ring_contents h = [?h]"
    using ring.push_room [OF init(1), of ?h] by (auto simp: init)
  obtain h' where "ring_try_pop h \<lparr>mh_sequence = 0, mh_timestamp_ns = 0, mh_payload_size = 0, mh_flags = 0\<rparr> = Some (True, ?h, h')"
    using ring.pop_some [OF h(2,3)] by blast
  then show ?thesis
    using q(1) q' h(1) by (simp add: example_basic_spsc_def Let_def del: push_chain.simps pop_expected.simps)
qed

theorem example_broker_basic_succeeds:
  "example_broker_basic = Some (0, [\<lparr>oe_id = 1, oe_price_bits = double_bits (405 / 4), oe_quantity = 10\<rparr>])"
proof -
  have C: "static_capacity 64" by (simp add: static_capacity_def)
  let ?e = "\<lparr>oe_id = 1, oe_price_bits = double_bits (405 / 4), oe_quantity = 10\<rparr>"
  obtain b where b: "broker_try_publish (broker_init 64) ?e = Some (status_ok, b)" "broker_ok b" "broker_contents b = [?e]"
    using broker.publish_room [OF broker_init_ok(1) [OF C], of ?e] by (auto simp: broker_init_ok [OF C])
  obtain b' where "broker_try_consume b default_OrderEvent = Some (status_ok, ?e, b')"
    using broker.consume_some [OF b(2,3), of default_OrderEvent] by auto
  then show ?thesis using b(1) by (simp add: example_broker_basic_def)
qed

section \<open>The marker persists\<close>

lemma smoke_marker_length [simp]: "length smoke_marker = 31"
  by (simp add: smoke_marker_def text_bytes_def)

theorem example_mmap_smoke_marker:
  assumes laws: "posix_laws P"
  shows "\<exists>e os'. example_mmap_smoke P os path = Some (e, os') \<and> e \<noteq> Marker_lost"
proof -
  obtain e os1 where cr: "mmap_create P os path 4096 default_MmapFileOptions = (e, os1)" by fastforce
  show ?thesis
  proof (cases e)
    case (Expected_status s)
    then show ?thesis using cr by (simp add: example_mmap_smoke_def)
  next
    case (Expected_value f)
    have acq: "acquired P os path f os1" and sz: "mf_size f = 4096" and z: "mmap_bytes f = replicate 4096 0"
      using mmap_create_result [OF laws cr [unfolded Expected_value]] by auto
    let ?bs = "smoke_marker @ drop 31 (mmap_bytes f)"
    let ?f = "mmap_set_bytes f ?bs"
    have copy: "memcpy_into (mmap_bytes f) 0 smoke_marker = Some ?bs" by (simp add: memcpy_into_def z)
    obtain s1 os2 where fl: "mmap_flush P os1 ?f = (s1, os2)" by fastforce
    obtain s2 f2 os3 where cl: "mmap_close P os2 ?f = (s2, f2, os3)" by (cases "mmap_close P os2 ?f")
    obtain g os4 where op: "mmap_open_existing P os3 path default_MmapFileOptions = (g, os4)" by fastforce
    have "mmap_bytes h = ?bs" if "is_ok s2" "g = Expected_value h" for h
    proof -
      obtain a where a: "mf_data f = Some (a, mmap_bytes f)" "os_maps P os1 a = Some path" "mmap_valid f" "mmap_inv f"
        using acq by (auto simp: acquired_def)
      have "os_maps P os2 a = Some path" using mmap_flush_post [OF laws fl] a(2) by simp
      moreover have "mf_data ?f = Some (a, ?bs)" using a(1) by (simp add: mmap_set_bytes_def)
      ultimately have "os_files P os3 path = Some ?bs"
        using mmap_close_result [OF laws _ _ _ _ cl, of a ?bs path] a that(1) sz z
        by (simp add: mmap_inv_set_bytes)
      then show ?thesis using mmap_open_existing_result [OF laws op [unfolded that(2)]] by auto
    qed
    then have "subspan (mmap_bytes h) 0 (length smoke_marker) = Some smoke_marker"
      if "is_ok s2" "g = Expected_value h" for h
      using that by (simp add: subspan_def z)
    then show ?thesis
      using cr Expected_value copy fl cl op
      by (cases g; cases "is_ok s1"; cases "is_ok s2") (simp_all add: example_mmap_smoke_def Let_def)
  qed
qed

section \<open>The samples are replayed\<close>

text \<open>
  A system on which closing a file that is mapped reports no error: the programs destroy their files
  without looking at the status of \<open>close\<close>.
\<close>

definition closing_succeeds :: "'os posix \<Rightarrow> bool" where
  "closing_succeeds P \<longleftrightarrow>
     (\<forall>os f a bs path. mmap_valid f \<and> mf_data f = Some (a, bs) \<and> os_maps P os a = Some path \<longrightarrow>
        is_ok (fst (mmap_close P os f)))"

lemma memfs_closing_succeeds: "closing_succeeds memfs_posix"
  unfolding closing_succeeds_def
proof clarify
  fix os :: memfs and f a bs path
  assume "mmap_valid f" "mf_data f = Some (a, bs)"
  then show "is_ok (fst (mmap_close memfs_posix os f))"
    by (simp add: mmap_close_def mmap_flush_def mmap_data_def memfs_posix_def memfs_msync_def memfs_munmap_def
      memfs_close_def mmap_valid_def)
qed

lemma closing_succeedsD:
  assumes "closing_succeeds P" "writer_log w es" "writer_owns P os path w"
  shows "is_ok (fst (mmap_close P os (ww_file w)))"
  using assms by (auto simp: closing_succeeds_def writer_owns_def writer_log_def)

definition sample_entries :: "(nat \<Rightarrow> u64) \<Rightarrow> nat \<Rightarrow> string list \<Rightarrow> wal_entry list" where
  "sample_entries clock n samples =
     map (\<lambda>(i, sample). append_entry i (clock i) (text_message sample)) (enumerate n samples)"

lemma append_samples_log:
  assumes "posix_laws P" "writer_log w es" "writer_owns P os path w"
  shows "\<exists>st w' os'. append_samples P clock (length es) w os samples = Some (st, w', os') \<and>
    (is_ok st \<longrightarrow> writer_log w' (es @ sample_entries clock (length es) samples) \<and>
      writer_owns P os' path w' \<and> (writer_clean w \<longrightarrow> writer_clean w'))"
  using assms(2,3)
proof (induction samples arbitrary: w os es)
  case (Cons sample samples)
  let ?e = "append_entry (length es) (clock (length es)) (text_message sample)"
  obtain st w1 os1 where a: "wal_writer_append P os (clock (length es)) w (text_message sample) = Some (st, w1, os1)"
    using wal.append_defined [OF Cons.prems(1), of P os "clock (length es)" "text_message sample"] by auto
  show ?case
  proof (cases "is_ok st")
    case True
    have log: "writer_log w1 (es @ [?e])" "writer_clean w \<longrightarrow> writer_clean w1"
      using wal.append_ok [OF Cons.prems(1) a True] by simp_all
    have "writer_owns P os1 path w1" using wal_writer_append_owns [OF assms(1) Cons.prems a] .
    from Cons.IH [OF log(1) this] show ?thesis
      using a True log(2) by (auto simp: sample_entries_def)
  qed (use a in simp)
qed (simp add: sample_entries_def)

theorem example_wal_replay_prints_samples:
  assumes laws: "posix_laws P" and closing: "closing_succeeds P"
  shows "\<exists>code printed os'. example_wal_replay P os clock path = Some (code, printed, os') \<and> code \<le> 1 \<and>
    (code = 0 \<longrightarrow> map rv_payload printed = map text_bytes [''alpha'', ''bravo'', ''charlie''] \<and>
       map (rh_sequence \<circ> rv_header) printed = [0, 1, 2])"
proof -
  let ?samples = "[''alpha'', ''bravo'', ''charlie'']" and ?es = "sample_entries clock 0 [''alpha'', ''bravo'', ''charlie'']"
  obtain e os1 where cr: "wal_writer_create P os path (64 * 1024) False = (e, os1)" by fastforce
  show ?thesis
  proof (cases e)
    case (Expected_status s)
    then show ?thesis using cr by (simp add: example_wal_replay_def)
  next
    case (Expected_value w)
    have c: "writer_log w []" "writer_clean w" "writer_owns P os1 path w"
      using wal_writer_create_log [OF laws cr [unfolded Expected_value]] by simp_all
    obtain st w' os2 where ap: "append_samples P clock 0 w os1 ?samples = Some (st, w', os2)"
      and log: "is_ok st \<longrightarrow> writer_log w' ?es \<and> writer_owns P os2 path w' \<and> writer_clean w'"
      using append_samples_log [OF laws c(1,3), of clock ?samples] c(2) by (auto simp del: append_samples.simps)
    obtain fs os3 where fl: "wal_writer_flush P os2 w' = (fs, os3)" by fastforce
    obtain cs f os4 where cl: "mmap_close P os3 (ww_file w') = (cs, f, os4)" by (cases "mmap_close P os3 (ww_file w')")
    obtain r os5 where op: "wal_reader_open P os4 path = (r, os5)" by fastforce
    have replay: "wal_reader_replay collect reader [] =
        Some (status_ok, reader_at reader ?es, wal_views 0 ?es)" if "is_ok st" "r = Expected_value reader" for reader
    proof -
      have l: "writer_log w' ?es" "writer_clean w'" "writer_owns P os2 path w'" using log that(1) by auto
      have own: "writer_owns P os3 path w'"
      proof -
        obtain s1 o1 where m: "mmap_flush P os2 (ww_file w') = (s1, o1)" by fastforce
        show ?thesis
          using fl m l(3) mmap_flush_post [OF laws m] by (auto simp: wal_writer_flush_def writer_owns_def split: if_splits)
      qed
      then have "is_ok cs" using closing_succeedsD [OF closing l(1)] cl by fastforce
      then have rd: "reader_inv reader" "wr_current_offset reader = 0" "reader_rest reader = mmap_bytes (ww_file w')"
        using writer_close_reader_open [OF laws l(1) own cl _ op [unfolded that(2)]] by simp_all
      obtain tail where "mmap_bytes (ww_file w') = wal_image ?es @ tail" "is_zero_filled tail"
        using writer_log_clean_bytes [OF l(1,2)] .
      then have "parse_log (reader_rest reader) = (?es, mk_status Empty [])"
        using rd l(1) by (simp add: writer_log_def parse_log_image parse_log_zero)
      from wal_reader_replay_eq [OF rd(1) this, of collect "[]"] show ?thesis
        using rd(2) by (simp add: visit_all_collect replay_status_def)
    qed
    have shown: "map rv_payload (wal_views 0 ?es) = map text_bytes ?samples"
        "map (rh_sequence \<circ> rv_header) (wal_views 0 ?es) = [0, 1, 2]"
      by (simp_all add: sample_entries_def append_entry_def text_message_def Let_def)
    have destroy: "mmap_destroy P os3 (ww_file w') = os4" using cl by (simp add: mmap_destroy_def)
    show ?thesis
      using cr Expected_value ap fl op replay shown destroy
      by (cases r; cases "is_ok st"; cases "is_ok fs")
        (simp_all add: example_wal_replay_def Let_def del: append_samples.simps)
  qed
qed

section \<open>The orders are consumed and replayed\<close>

definition order_log :: "(nat \<Rightarrow> u64) \<Rightarrow> nat \<Rightarrow> OrderEvent list \<Rightarrow> (u64 \<times> OrderEvent \<times> u32) list" where
  "order_log clock n orders = map (\<lambda>(i, order). (clock i, order, 0)) (enumerate n orders)"

lemma publish_orders_log:
  assumes "posix_laws P" "persistent_state order_event_rep b [] msgs" "writer_owns P os path (pb_writer b)"
    "writer_clean (pb_writer b)"
  shows "\<exists>ok b' os'. publish_orders P clock n b os orders = Some (ok, b', os') \<and>
    (ok \<longrightarrow> persistent_state order_event_rep b' [] (msgs @ order_log clock n orders) \<and>
      writer_owns P os' path (pb_writer b') \<and> writer_clean (pb_writer b'))"
  using assms(2-4)
proof (induction orders arbitrary: b os msgs n)
  case (Cons v orders)
  obtain s b1 os1 where p: "persistent_try_publish P os (clock n) order_event_rep b v 0 = Some (s, b1, os1)"
      "writer_clean (pb_writer b) \<and> st_code s \<noteq> Io_error \<longrightarrow> writer_clean (pb_writer b1)"
      "persistent_state order_event_rep b1 [] (if is_ok s then msgs @ [(clock n, v, 0)] else msgs)"
    using persistent_publish_cases [OF Cons.prems(1), of P os "clock n" v 0] by blast
  show ?case
  proof (cases "is_ok s")
    case True
    then have "writer_clean (pb_writer b1)" using p(2) Cons.prems(3) by (simp add: is_ok_def)
    with Cons.IH [of b1 "msgs @ [(clock n, v, 0)]" os1 "Suc n"] show ?thesis
      using p(1,3) True persistent_publish_owns [OF assms(1) Cons.prems(1,2) p(1)] by (auto simp: order_log_def)
  qed (use p(1) in auto)
qed (auto simp: order_log_def)

lemma consume_orders_log:
  assumes "persistent_state R b c msgs"
  shows "\<exists>ok c' b'. consume_orders k b c = Some (ok, c', b') \<and> pb_writer b' = pb_writer b \<and>
    persistent_state R b' c' msgs \<and> (ok \<longrightarrow> length c' = length c + k)"
  using assms
proof (induction k arbitrary: b c)
  case (Suc k)
  obtain s x b1 where p: "persistent_try_consume b default_OrderEvent = Some (s, x, b1)" "pb_writer b1 = pb_writer b"
      "persistent_state R b1 (if is_ok s then c @ [x] else c) msgs"
    using persistent_consume_cases [OF Suc.prems, of default_OrderEvent] by blast
  show ?case
  proof (cases "is_ok s")
    case True
    then show ?thesis using Suc.IH [of b1 "c @ [x]"] p by auto
  qed (use p in auto)
qed auto

text \<open>Once the file of a broker is closed, a successful replay delivers exactly the logged messages.\<close>

lemma closed_log_replays:
  assumes laws: "posix_laws P" and st: "persistent_state R b c msgs" and tc: "trivially_copyable R"
    and own: "writer_owns P os path (pb_writer b)" "writer_clean (pb_writer b)"
    and cl: "is_ok (fst (mmap_close P os (ww_file (pb_writer b))))"
  shows "\<exists>st' rs os'. persistent_replay P (mmap_destroy P os (ww_file (pb_writer b))) R path collect_value [] =
    Some (st', rs, os') \<and> (is_ok st' \<longrightarrow> rs = logged_records R 0 msgs)"
proof -
  obtain s f os1 where m: "mmap_close P os (ww_file (pb_writer b)) = (s, f, os1)"
    by (cases "mmap_close P os (ww_file (pb_writer b))")
  then have d: "mmap_destroy P os (ww_file (pb_writer b)) = os1" and s: "is_ok s" using cl by (simp_all add: mmap_destroy_def)
  have log: "writer_log (pb_writer b) (object_entries R 0 msgs)" using st by (simp add: persistent_state_def)
  obtain e os2 where op: "wal_reader_open P os1 path = (e, os2)" by fastforce
  show ?thesis
  proof (cases e)
    case (Expected_status t)
    then show ?thesis
      using op d by (cases "is_ok t")
        (auto simp: persistent_replay_def replay_with_metrics_def wal_reader_open_def expected_error_def
          normalize_expected_error_def Let_def split: if_splits prod.splits Expected.splits)
  next
    case (Expected_value r)
    have r: "reader_inv r" "reader_rest r = mmap_bytes (ww_file (pb_writer b))"
      using writer_close_reader_open [OF laws log own(1) m s op [unfolded Expected_value]] by simp_all
    obtain tail where "mmap_bytes (ww_file (pb_writer b)) = wal_image (object_entries R 0 msgs) @ tail" "is_zero_filled tail"
      using writer_log_clean_bytes [OF log own(2)] .
    then have "parse_log (reader_rest r) = (object_entries R 0 msgs, mk_status Empty [])"
      using r log by (simp add: writer_log_def parse_log_image parse_log_zero)
    from replay_with_metrics_log [OF tc op [unfolded Expected_value] r(1) this, of counters_init] d show ?thesis
      by (auto simp: persistent_replay_def)
  qed
qed

text \<open>
  \<open>persistent_broker\<close> ends with 0 or 1; with 0 it has consumed the two orders it published, in order,
  and replayed the same two from the file, with the sequence numbers 0 and 1.
\<close>

theorem example_persistent_broker_prints_orders:
  assumes laws: "posix_laws P" and closing: "closing_succeeds P"
  shows "\<exists>code consumed replayed os'. example_persistent_broker P os clock path = Some (code, consumed, replayed, os') \<and>
    code \<le> 1 \<and> (code = 0 \<longrightarrow> consumed = example_orders \<and> map fst replayed = example_orders \<and>
      map (rh_sequence \<circ> snd) replayed = [0, 1])"
proof -
  let ?config = "\<lparr>wc_path = path, wc_file_size_bytes = 4096, wc_flush_on_commit = False\<rparr>"
  obtain b os1 where op: "persistent_construct_wal P os order_event_rep 64 ?config = (b, os1)" by fastforce
  show ?thesis
  proof (cases "persistent_valid b")
    case False
    then show ?thesis using op by (simp add: example_persistent_broker_def)
  next
    case True
    let ?log = "order_log clock 0 example_orders"
    have C: "static_capacity 64" by (simp add: static_capacity_def)
    have o: "persistent_state order_event_rep b [] []" "writer_owns P os1 path (pb_writer b)" "writer_clean (pb_writer b)"
      using persistent_construct_wal_state(1-3) [OF laws C op True] by simp_all
    obtain ok b1 os2 where pub: "publish_orders P clock 0 b os1 example_orders = Some (ok, b1, os2)"
      and log: "ok \<longrightarrow> persistent_state order_event_rep b1 [] ?log \<and>
        writer_owns P os2 path (pb_writer b1) \<and> writer_clean (pb_writer b1)"
      using publish_orders_log [OF laws o, of clock 0 example_orders] by auto
    show ?thesis
    proof (cases ok)
      case False
      then show ?thesis using op True pub by (simp add: example_persistent_broker_def)
    next
      case ok: True
      obtain ok2 c b2 where con: "consume_orders 2 b1 [] = Some (ok2, c, b2)" "pb_writer b2 = pb_writer b1"
          "persistent_state order_event_rep b2 c ?log" "ok2 \<longrightarrow> length c = 2"
        using consume_orders_log [of order_event_rep b1 "[]" ?log 2] log ok by auto
      have vals: "map logged_value ?log = example_orders" by (simp add: order_log_def example_orders_def logged_value_def)
      have "map logged_value ?log = c @ broker_contents (pb_broker b2)" using con(3) by (simp add: persistent_state_def)
      then have c: "ok2 \<longrightarrow> c = example_orders"
        using con(4) unfolding vals by (metis append_eq_conv_conj length_Cons list.size(3) numeral_2_eq_2 take_all_iff order_refl example_orders_def)
      obtain fs b3 os3 where fl: "persistent_flush P os2 b2 = (fs, b3, os3)" by (cases "persistent_flush P os2 b2")
      have b3: "writer_owns P os3 path (pb_writer b3)" "pb_writer b3 = pb_writer b2"
        using persistent_flush_owns [OF laws fl] persistent_flush_keeps [OF fl] log ok con(2) by simp_all
      have "is_ok (fst (mmap_close P os3 (ww_file (pb_writer b2))))" 
        using closing_succeedsD [OF closing _ b3(1)[unfolded b3(2)]] con(3) by (auto simp: persistent_state_def)
      then obtain st rs os4 where rep: "persistent_replay P (mmap_destroy P os3 (ww_file (pb_writer b2))) order_event_rep path
          collect_value [] = Some (st, rs, os4)" "is_ok st \<longrightarrow> rs = logged_records order_event_rep 0 ?log"
        using closed_log_replays [OF laws con(3) order_event_trivially_copyable, of os3 path] b3 log ok con(2) by auto
      have "map fst (logged_records order_event_rep 0 ?log) = example_orders"
          "map (rh_sequence \<circ> snd) (logged_records order_event_rep 0 ?log) = [0, 1]"
        using map_fst_logged_records [of order_event_rep 0 ?log] vals
        by (simp_all add: order_log_def example_orders_def)
      then show ?thesis
        using op True pub ok con(1) c fl b3(2) rep
        by (cases ok2; cases "is_ok fs"; cases "is_ok st") (simp_all add: example_persistent_broker_def Let_def)
    qed
  qed
qed

end
