(* ===== verification/Bench_Transfer.thy ===== *)
theory Bench_Transfer
  imports Spsc_Clients Latency_Histogram
begin

text \<open>
  The two-thread benchmarks: \<open>benchmarks/bench_spsc_throughput.cpp\<close>, \<open>bench_payload_sizes.cpp\<close> and
  \<open>bench_spsc_latency.cpp\<close>, as clients of the ring buffer in the sense of \<open>Spsc_Clients\<close>.

  \<^item> The transfers of the first two differ in the message they send, so they are one client with the
    message as an argument. In all three the consumer goes on after a message out of order and only
    notes it: it accepts everything.
  \<^item> The benchmark framework is not part of the project. It decides how often a loop is run; the loops
    take the results of the transfers they run, and \<open>SkipWithError\<close> is the error they return. What is
    handed to the framework for display (times, rates, items processed) is left out.
  \<^item> Shown: for every interleaving and every behaviour of the clock the transfers are free of undefined
    behaviour, can be completed, and are valid when they are, so no benchmark skips with an error; the
    percentiles of the latency benchmark stay inside the vector and are ordered.
\<close>

section \<open>Throughput and payload sizes\<close>

text \<open>A message: its sequence number and the bytes that fill it up.\<close>

record BenchMessage =
  bm_sequence :: u64
  bm_data :: "byte list"

definition throughput_message :: "u64 \<Rightarrow> BenchMessage" where
  "throughput_message sequence = \<lparr>bm_sequence = sequence, bm_data = []\<rparr>"

definition sized_message :: "nat \<Rightarrow> u64 \<Rightarrow> BenchMessage" where
  "sized_message bytes sequence = \<lparr>bm_sequence = sequence, bm_data = replicate (bytes - 8) 0\<rparr>"

record TransferStats =
  ts_checksum :: u64
  ts_producer_retries :: u64
  ts_consumer_retries :: u64
  ts_order_valid :: bool
  ts_push_spin :: ThreadSpinWait
  ts_pop_spin :: ThreadSpinWait

definition transfer_start :: TransferStats where
  "transfer_start = \<lparr>ts_checksum = 0, ts_producer_retries = 0, ts_consumer_retries = 0, ts_order_valid = True,
     ts_push_spin = thread_spin_default, ts_pop_spin = thread_spin_default\<rparr>"

text \<open>\<open>expected\<close> is the loop variable after its increment.\<close>

definition transfer_client :: "(u64 \<Rightarrow> BenchMessage) \<Rightarrow> (BenchMessage, TransferStats) spsc_client" where
  "transfer_client message =
     \<lparr>cl_payload = (\<lambda>now. message),
      cl_accept = (\<lambda>expected m. True),
      cl_pushed = (\<lambda>c. c\<lparr>ts_push_spin := thread_spin_reset (ts_push_spin c)\<rparr>),
      cl_refused = (\<lambda>c. c\<lparr>ts_producer_retries := ts_producer_retries c + 1,
                          ts_push_spin := snd (thread_spin_wait (ts_push_spin c))\<rparr>),
      cl_popped = (\<lambda>now expected m c.
        c\<lparr>ts_order_valid := (if bm_sequence m \<noteq> expected - 1 then False else ts_order_valid c),
          ts_checksum := ts_checksum c + bm_sequence m,
          ts_pop_spin := thread_spin_reset (ts_pop_spin c)\<rparr>),
      cl_starved = (\<lambda>c. c\<lparr>ts_consumer_retries := ts_consumer_retries c + 1,
                          ts_pop_spin := snd (thread_spin_wait (ts_pop_spin c))\<rparr>)\<rparr>"

definition throughput_client :: "(BenchMessage, TransferStats) spsc_client" where
  "throughput_client = transfer_client throughput_message"

definition payload_client :: "nat \<Rightarrow> (BenchMessage, TransferStats) spsc_client" where
  "payload_client bytes = transfer_client (sized_message bytes)"

text \<open>The loop of the benchmark over its transfers: the error it skips with, and the sums of the retries.\<close>

fun transfer_loop :: "string \<Rightarrow> TransferStats list \<Rightarrow> rat \<times> rat \<Rightarrow> string option \<times> rat \<times> rat" where
  "transfer_loop message [] (p, c) = (None, p, c)"
| "transfer_loop message (stats # rest) (p, c) =
     (if \<not> ts_order_valid stats then (Some message, p, c)
      else transfer_loop message rest
        (fl (p + double_of_nat (unat (ts_producer_retries stats))),
         fl (c + double_of_nat (unat (ts_consumer_retries stats)))))"

definition benchmark_throughput :: "TransferStats list \<Rightarrow> string option \<times> rat \<times> rat" where
  "benchmark_throughput runs =
     transfer_loop ''SPSC throughput benchmark observed out-of-order messages'' runs (0, 0)"

definition benchmark_payload_size :: "TransferStats list \<Rightarrow> string option \<times> rat \<times> rat" where
  "benchmark_payload_size runs =
     transfer_loop ''SPSC payload-size benchmark observed out-of-order messages'' runs (0, 0)"

section \<open>Latency\<close>

record TimestampedPayload =
  tp_sequence :: u64
  tp_timestamp_ns :: u64
  tp_padding :: "byte list"

definition timestamped_payload :: "u64 \<Rightarrow> u64 \<Rightarrow> TimestampedPayload" where
  "timestamped_payload now sequence =
     \<lparr>tp_sequence = sequence, tp_timestamp_ns = now, tp_padding = replicate 48 0\<rparr>"

record LatencyStats = TransferStats +
  lt_latencies :: "u64 list"

definition latency_start :: LatencyStats where
  "latency_start = TransferStats.extend transfer_start \<lparr>lt_latencies = []\<rparr>"

definition latency_client :: "(TimestampedPayload, LatencyStats) spsc_client" where
  "latency_client =
     \<lparr>cl_payload = timestamped_payload,
      cl_accept = (\<lambda>expected payload. True),
      cl_pushed = (\<lambda>c. c\<lparr>ts_push_spin := thread_spin_reset (ts_push_spin c)\<rparr>),
      cl_refused = (\<lambda>c. c\<lparr>ts_producer_retries := ts_producer_retries c + 1,
                          ts_push_spin := snd (thread_spin_wait (ts_push_spin c))\<rparr>),
      cl_popped = (\<lambda>now expected payload c.
        c\<lparr>ts_order_valid := (if tp_sequence payload \<noteq> expected - 1 then False else ts_order_valid c),
          lt_latencies := lt_latencies c @ [now - tp_timestamp_ns payload],
          ts_checksum := ts_checksum c + tp_sequence payload,
          ts_pop_spin := thread_spin_reset (ts_pop_spin c)\<rparr>),
      cl_starved = (\<lambda>c. c\<lparr>ts_consumer_retries := ts_consumer_retries c + 1,
                          ts_pop_spin := snd (thread_spin_wait (ts_pop_spin c))\<rparr>)\<rparr>"

definition percentile_ns :: "u64 list \<Rightarrow> rat \<Rightarrow> u64 option" where
  "percentile_ns samples percentile =
     (if samples = [] then Some 0
      else
        let index = nat \<lfloor>fl (fl (percentile / 100) * double_of_nat (length samples - 1))\<rfloor> in
        if index < length samples then Some (samples ! index) else None)"

record latency_report =
  lr_p50 :: u64
  lr_p95 :: u64
  lr_p99 :: u64
  lr_p999 :: u64
  lr_min :: u64
  lr_max :: u64

text \<open>One pass of \<open>benchmark_latency\<close> after its transfer: the error it skips with, or what it reports.\<close>

definition benchmark_latency :: "u64 \<Rightarrow> LatencyStats \<Rightarrow> (string + latency_report) option" where
  "benchmark_latency messages stats =
     (if \<not> ts_order_valid stats \<or> length (lt_latencies stats) \<noteq> unat messages
      then Some (Inl ''SPSC latency benchmark validation failed'')
      else do {
        let latencies = sort (lt_latencies stats);
        p50 \<leftarrow> percentile_ns latencies (fl 50);
        p95 \<leftarrow> percentile_ns latencies (fl 95);
        p99 \<leftarrow> percentile_ns latencies (fl 99);
        p999 \<leftarrow> percentile_ns latencies (fl (999 / 10));
        front \<leftarrow> (if latencies = [] then None else Some (hd latencies));
        back \<leftarrow> (if latencies = [] then None else Some (last latencies));
        Some (Inr \<lparr>lr_p50 = p50, lr_p95 = p95, lr_p99 = p99, lr_p999 = p999, lr_min = front, lr_max = back\<rparr>) })"

section \<open>The transfers are valid\<close>

definition transfer_counts :: "u64 \<Rightarrow> u64 \<Rightarrow> 'x TransferStats_scheme \<Rightarrow> bool" where
  "transfer_counts v e c \<longleftrightarrow> ts_order_valid c \<and> ts_checksum c = (\<Sum>i < unat e. of_nat i)"

lemma transfer_laws:
  assumes "\<And>i. bm_sequence (message i) = i"
  shows "spsc_client_laws (transfer_client message) transfer_counts transfer_start"
  by unfold_locales (simp_all add: transfer_client_def transfer_start_def transfer_counts_def assms)

lemma bm_sequence_messages [simp]: "bm_sequence (throughput_message i) = i" "bm_sequence (sized_message bytes i) = i"
  by (simp_all add: throughput_message_def sized_message_def)

interpretation throughput: spsc_client_laws throughput_client transfer_counts transfer_start
  unfolding throughput_client_def by (rule transfer_laws) simp

interpretation sized: spsc_client_laws "payload_client bytes" transfer_counts transfer_start for bytes
  unfolding payload_client_def by (rule transfer_laws) simp

interpretation latency: spsc_client_laws latency_client
  "\<lambda>v e c. transfer_counts v e c \<and> length (lt_latencies c) = unat e" latency_start
  by unfold_locales (simp_all add: latency_client_def latency_start_def transfer_start_def transfer_counts_def
      timestamped_payload_def TransferStats.defs)

definition completed_transfer ::
    "(BenchMessage, TransferStats) spsc_client \<Rightarrow> size_t \<Rightarrow> u64 \<Rightarrow> TransferStats \<Rightarrow> bool" where
  "completed_transfer client C messages stats \<longleftrightarrow>
     (\<exists>s. client_steps client messages (client_init C transfer_start) s \<and> both_done s \<and> cr_stats s = stats)"

lemma transfer_valid:
  assumes laws: "spsc_client_laws (transfer_client message) transfer_counts transfer_start"
    and C: "static_capacity C" and run: "client_steps (transfer_client message) messages (client_init C transfer_start) s"
  shows "\<not> client_step (transfer_client message) messages s None"
    "\<exists>s'. client_steps (transfer_client message) messages s s' \<and> both_done s'"
    "both_done s \<Longrightarrow> cq_popped (cr_queue s) = map (\<lambda>i. message (of_nat i)) [0..<unat messages] \<and>
       ts_order_valid (cr_stats s) \<and> ts_checksum (cr_stats s) = (\<Sum>i < unat messages. of_nat i)"
proof -
  note inv = spsc_client_laws.reachable_inv [OF laws C run]
  show "\<not> client_step (transfer_client message) messages s None"
    "\<exists>s'. client_steps (transfer_client message) messages s s' \<and> both_done s'"
    using spsc_client_laws.no_undefined [OF laws inv] spsc_client_laws.completes [OF laws inv] by blast+
  assume d: "both_done s"
  show "cq_popped (cr_queue s) = map (\<lambda>i. message (of_nat i)) [0..<unat messages] \<and>
      ts_order_valid (cr_stats s) \<and> ts_checksum (cr_stats s) = (\<Sum>i < unat messages. of_nat i)"
    using sent_values_fixed [OF spsc_client_laws.done_complete(1) [OF laws inv d], of message]
      spsc_client_laws.done_complete(3) [OF laws inv d]
    by (simp add: transfer_counts_def) (simp add: transfer_client_def)
qed

lemma transfer_loop_valid:
  "\<forall>stats \<in> set runs. ts_order_valid stats \<Longrightarrow> fst (transfer_loop message runs pc) = None"
  by (induction message runs pc rule: transfer_loop.induct) simp_all

text \<open>
  C31. The throughput and payload-size benchmarks. For every capacity the ring buffer admits, every number
  of messages and every interleaving of the two threads: no step of a transfer is undefined behaviour;
  the transfer can always be completed; and when it has ended, the consumer has received all messages
  in order and the checksum is the sum of their numbers modulo \<open>2 ^ 64\<close>. So neither benchmark ever
  skips with an error.
\<close>

theorem bench_transfer_valid:
  assumes "static_capacity C"
    and "client = throughput_client \<and> message = throughput_message \<or>
         client = payload_client bytes \<and> message = sized_message bytes"
    and "client_steps client messages (client_init C transfer_start) s"
  shows "\<not> client_step client messages s None \<and>
    (\<exists>s'. client_steps client messages s s' \<and> both_done s') \<and>
    (both_done s \<longrightarrow> cq_popped (cr_queue s) = map (\<lambda>i. message (of_nat i)) [0..<unat messages] \<and>
       ts_checksum (cr_stats s) = (\<Sum>i < unat messages. of_nat i)) \<and>
    (\<forall>runs. (\<forall>stats \<in> set runs. completed_transfer client C messages stats) \<longrightarrow>
       fst (benchmark_throughput runs) = None \<and> fst (benchmark_payload_size runs) = None)"
proof -
  have c: "client = transfer_client message" and laws: "spsc_client_laws client transfer_counts transfer_start"
    using assms(2) throughput.spsc_client_laws_axioms sized.spsc_client_laws_axioms
    by (auto simp: throughput_client_def payload_client_def)
  note valid = transfer_valid [OF laws [unfolded c] assms(1), folded c]
  have "fst (benchmark_throughput runs) = None \<and> fst (benchmark_payload_size runs) = None"
    if "\<forall>stats \<in> set runs. completed_transfer client C messages stats" for runs
  proof -
    have "\<forall>stats \<in> set runs. ts_order_valid stats" using that valid(3) unfolding completed_transfer_def by fastforce
    then show ?thesis using transfer_loop_valid by (simp add: benchmark_throughput_def benchmark_payload_size_def)
  qed
  then show ?thesis using valid [OF assms(3)] by blast
qed

theorem bench_transfer_valid_witness:
  "\<exists>s. client_steps throughput_client 4 (client_init 2 transfer_start) s \<and> both_done s \<and>
     ts_checksum (cr_stats s) = 6 \<and> fst (benchmark_throughput [cr_stats s, cr_stats s]) = None"
proof -
  have C: "static_capacity 2" by (simp add: static_capacity_def)
  have c: "throughput_client = throughput_client \<and> throughput_message = throughput_message \<or>
      throughput_client = payload_client 8 \<and> throughput_message = sized_message 8" by simp
  obtain s where s: "client_steps throughput_client 4 (client_init 2 transfer_start) s" "both_done s"
    using bench_transfer_valid [OF C c steps_refl, of 4] by blast
  have "completed_transfer throughput_client 2 4 (cr_stats s)" using s by (auto simp: completed_transfer_def)
  moreover have "(\<Sum>i < unat (4 :: u64). of_nat i) = (6 :: u64)"
  proof -
    have "{..<unat (4 :: u64)} = {0, 1, 2, 3}" by auto
    then show ?thesis by simp
  qed
  ultimately show ?thesis
    using s bench_transfer_valid [OF C c s(1)] by (intro exI [of _ s]) auto
qed

section \<open>The latencies are reported\<close>

definition percentile_ns_index :: "rat \<Rightarrow> nat \<Rightarrow> nat" where
  "percentile_ns_index p n = nat \<lfloor>fl (fl (p / 100) * double_of_nat (n - 1))\<rfloor>"

lemma percentile_ns_index_less:
  assumes "0 \<le> p" "p \<le> 100" "0 < n" "n \<le> 2 ^ 53"
  shows "percentile_ns_index p n < n"
proof -
  have n: "fl (of_nat (n - 1)) = of_nat (n - 1)" using assms(4) by (intro fl_of_nat) simp
  have "fl (p / 100) \<le> 1" using fl_mono [of "p / 100" 1] assms(1,2) fl_1 by simp
  then have "fl (p / 100) * of_nat (n - 1) \<le> of_nat (n - 1)" by (simp add: mult_left_le_one_le fl_nonneg assms(1))
  then have "fl (fl (p / 100) * of_nat (n - 1)) \<le> of_nat (n - 1)"
    using fl_mono [of "fl (p / 100) * of_nat (n - 1)" "of_nat (n - 1)"] fl_nonneg [of "p / 100"] n assms(1) by simp
  then have "\<lfloor>fl (fl (p / 100) * of_nat (n - 1))\<rfloor> \<le> int (n - 1)" by (simp add: floor_le_iff)
  then have "nat \<lfloor>fl (fl (p / 100) * of_nat (n - 1))\<rfloor> \<le> n - 1" by linarith
  then show ?thesis using assms(3) unfolding percentile_ns_index_def double_of_nat_def n by linarith
qed

lemma percentile_ns_index_mono:
  assumes "0 \<le> p" "p \<le> q"
  shows "percentile_ns_index p n \<le> percentile_ns_index q n"
proof -
  have d: "0 \<le> double_of_nat (n - 1)" by (simp add: double_of_nat_def fl_nonneg)
  have "fl (p / 100) \<le> fl (q / 100)" using assms by (intro fl_mono) (simp_all add: divide_right_mono)
  then have "fl (p / 100) * double_of_nat (n - 1) \<le> fl (q / 100) * double_of_nat (n - 1)" using d by (rule mult_right_mono)
  then have "fl (fl (p / 100) * double_of_nat (n - 1)) \<le> fl (fl (q / 100) * double_of_nat (n - 1))"
    using d assms(1) by (intro fl_mono mult_nonneg_nonneg) (simp_all add: fl_nonneg)
  then show ?thesis unfolding percentile_ns_index_def by (intro nat_mono floor_mono)
qed

lemma percentile_ns_eq:
  "samples \<noteq> [] \<Longrightarrow> length samples \<le> 2 ^ 53 \<Longrightarrow> 0 \<le> p \<Longrightarrow> p \<le> 100 \<Longrightarrow>
   percentile_ns samples p = Some (samples ! percentile_ns_index p (length samples))"
  using percentile_ns_index_less [of p "length samples"]
  by (simp add: percentile_ns_def percentile_ns_index_def Let_def)

lemma report_percentiles: "0 \<le> fl 50" "fl 50 \<le> fl 95" "fl 95 \<le> fl 99" "fl 99 \<le> fl (999 / 10)" "fl (999 / 10) \<le> 100"
  using fl_nonneg [of 50] fl_mono [of 50 95] fl_mono [of 95 99] fl_mono [of 99 "999 / 10"] fl_mono [of "999 / 10" 100]
    fl_of_nat [of 100] by simp_all

lemma benchmark_latency_ordered:
  assumes "ts_order_valid stats" "length (lt_latencies stats) = unat messages" "0 < messages" "unat messages \<le> 2 ^ 53"
  shows "\<exists>r. benchmark_latency messages stats = Some (Inr r) \<and> lr_min r \<le> lr_p50 r \<and> lr_p50 r \<le> lr_p95 r \<and>
    lr_p95 r \<le> lr_p99 r \<and> lr_p99 r \<le> lr_p999 r \<and> lr_p999 r \<le> lr_max r"
proof -
  let ?xs = "sort (lt_latencies stats)" and ?n = "unat messages"
  let ?v = "\<lambda>p. ?xs ! percentile_ns_index p ?n"
  have len: "length ?xs = ?n" "0 < ?n" using assms(2,3) by (simp_all add: unat_gt_0 word_gt_0)
  then have ne: "?xs \<noteq> []" by (metis length_greater_0_conv)
  note r = report_percentiles
  have eq: "percentile_ns ?xs p = Some (?v p)" if "0 \<le> p" "p \<le> 100" for p
    using percentile_ns_eq [OF ne _ that] len assms(4) by metis
  have mono: "?v p \<le> ?v q" if "0 \<le> p" "p \<le> q" "q \<le> 100" for p q
    using percentile_ns_index_mono [OF that(1,2)] percentile_ns_index_less [of q ?n] that len assms(4)
    by (intro sorted_nth_mono [OF sorted_sort]) simp_all
  have "hd ?xs \<le> ?v (fl 50)"
    using sorted_nth_mono [OF sorted_sort, of 0 "percentile_ns_index (fl 50) ?n" "lt_latencies stats"]
      percentile_ns_index_less [of "fl 50" ?n] r len assms(2,4) ne by (simp add: hd_conv_nth)
  moreover have "?v (fl (999 / 10)) \<le> last ?xs"
    using sorted_nth_mono [OF sorted_sort, of "percentile_ns_index (fl (999 / 10)) ?n" "?n - 1" "lt_latencies stats"]
      percentile_ns_index_less [of "fl (999 / 10)" ?n] r len assms(2,4) ne by (simp add: last_conv_nth)
  moreover have "benchmark_latency messages stats = Some (Inr \<lparr>lr_p50 = ?v (fl 50), lr_p95 = ?v (fl 95),
      lr_p99 = ?v (fl 99), lr_p999 = ?v (fl (999 / 10)), lr_min = hd ?xs, lr_max = last ?xs\<rparr>)"
    using assms(1,2) ne eq [of "fl 50"] eq [of "fl 95"] eq [of "fl 99"] eq [of "fl (999 / 10)"] r
    by (simp add: benchmark_latency_def Let_def)
  ultimately show ?thesis
    using mono [of "fl 50" "fl 95"] mono [of "fl 95" "fl 99"] mono [of "fl 99" "fl (999 / 10)"] r by simp
qed

text \<open>
  C32. The latency benchmark. For every admissible capacity, every positive number of messages (of at most
  \<open>2 ^ 53\<close>, as many as a double counts exactly), every interleaving and whatever the clock reads: no step
  is undefined behaviour; the transfer can be completed; and when it has ended the validation passes, the
  percentiles are taken inside the sorted vector, and minimum, p50, p95, p99, p99.9 and maximum are in
  this order.
\<close>

theorem bench_latency_report:
  assumes "static_capacity C" "0 < messages" "unat messages \<le> 2 ^ 53"
    and "client_steps latency_client messages (client_init C latency_start) s"
  shows "\<not> client_step latency_client messages s None \<and>
    (\<exists>s'. client_steps latency_client messages s s' \<and> both_done s') \<and>
    (both_done s \<longrightarrow> (\<exists>r. benchmark_latency messages (cr_stats s) = Some (Inr r) \<and> lr_min r \<le> lr_p50 r \<and>
       lr_p50 r \<le> lr_p95 r \<and> lr_p95 r \<le> lr_p99 r \<and> lr_p99 r \<le> lr_p999 r \<and> lr_p999 r \<le> lr_max r))"
proof -
  note inv = latency.reachable_inv [OF assms(1,4)]
  have "\<exists>r. benchmark_latency messages (cr_stats s) = Some (Inr r) \<and> lr_min r \<le> lr_p50 r \<and>
      lr_p50 r \<le> lr_p95 r \<and> lr_p95 r \<le> lr_p99 r \<and> lr_p99 r \<le> lr_p999 r \<and> lr_p999 r \<le> lr_max r" if "both_done s"
    using latency.done_complete(3) [OF inv that] assms(2,3)
    by (intro benchmark_latency_ordered) (simp_all add: transfer_counts_def)
  then show ?thesis using latency.no_undefined [OF inv] latency.completes [OF inv] by blast
qed

theorem bench_latency_report_witness:
  "\<exists>s r. client_steps latency_client 3 (client_init 2 latency_start) s \<and> both_done s \<and>
     benchmark_latency 3 (cr_stats s) = Some (Inr r) \<and> lr_min r \<le> lr_max r"
proof -
  have h: "static_capacity 2" "0 < (3 :: u64)" "unat (3 :: u64) \<le> 2 ^ 53" by (simp_all add: static_capacity_def)
  obtain s where s: "client_steps latency_client 3 (client_init 2 latency_start) s" "both_done s"
    using bench_latency_report [OF h steps_refl] by blast
  then show ?thesis using bench_latency_report [OF h s(1)] by (meson order_trans)
qed

end
