(* ===== verification/Bench_Loops.thy ===== *)
theory Bench_Loops
  imports Persistent_Broker Batch_Broker Zero_Copy_Spsc Wait_Utils
begin

text \<open>
  The single-threaded benchmarks: \<open>benchmarks/bench_zero_copy_spsc.cpp\<close>, \<open>bench_batch_publish.cpp\<close>,
  \<open>bench_broker_end_to_end.cpp\<close> and \<open>bench_spin_wait.cpp\<close>.

  \<^item> The benchmark framework is not part of the project. It decides how often the outer loop
    \<open>for (auto _ : state)\<close> runs: the number of passes is an argument. \<open>SkipWithError\<close> notes the first
    error and does not leave the loop; a \<open>break\<close> leaves the innermost loop.
  \<^item> The benchmarks never write the \<open>data\<close> of a \<open>Payload64\<close>: it is in the object representation only.
  \<^item> The paths of the log files and the effect of \<open>std::filesystem::remove\<close> on the system are arguments;
    nothing is assumed of them. A \<open>remove\<close> that throws ends the process and is left out.
  \<^item> Shown: the loops end without undefined behaviour and without an error, and what they count is the
    number of messages they meant to exchange. With a log the only possible error is that a file cannot
    be opened.
\<close>

section \<open>Payloads\<close>

record Payload64 =
  pl_sequence :: u64
  pl_timestamp_ns :: u64

definition payload64 :: "u64 \<Rightarrow> u64 \<Rightarrow> Payload64" where
  "payload64 sequence timestamp_ns = \<lparr>pl_sequence = sequence, pl_timestamp_ns = timestamp_ns\<rparr>"

definition default_Payload64 :: Payload64 where
  "default_Payload64 = payload64 0 0"

definition payload64_rep :: "Payload64 object_rep" where
  "payload64_rep = \<lparr>or_sizeof = 64,
     or_bytes = (\<lambda>v. le_bytes 8 (pl_sequence v) @ le_bytes 8 (pl_timestamp_ns v) @ replicate 48 0),
     or_of_bytes = (\<lambda>bs. payload64 (read_u64_le bs 0) (read_u64_le bs 8))\<rparr>"

text \<open>The error of the benchmark after another one has been reported.\<close>

definition skip_with_error :: "string option \<Rightarrow> string option \<Rightarrow> string option" where
  "skip_with_error first e = (case first of None \<Rightarrow> e | Some _ \<Rightarrow> first)"

section \<open>Zero-copy queue\<close>

fun spsc_emplace ::
    "nat \<Rightarrow> Payload64 SpscRingBuffer \<Rightarrow> Payload64 \<Rightarrow> u64 \<Rightarrow> (string option \<times> u64) option" where
  "spsc_emplace 0 queue out processed = Some (None, processed)"
| "spsc_emplace (Suc n) queue out processed =
     do { (emplaced, queue) \<leftarrow> ring_try_emplace queue (payload64 processed processed);
          if \<not> emplaced then Some (Some ''emplace failed'', processed)
          else do {
            (popped, out, queue) \<leftarrow> ring_try_pop queue out;
            if \<not> popped then Some (Some ''pop failed'', processed)
            else spsc_emplace n queue out (processed + 1) } }"

fun zero_copy_bench ::
    "nat \<Rightarrow> Payload64 ZeroCopySpsc \<Rightarrow> Payload64 \<Rightarrow> u64 \<Rightarrow> (string option \<times> u64) option" where
  "zero_copy_bench 0 queue out processed = Some (None, processed)"
| "zero_copy_bench (Suc n) queue out processed =
     (case zc_try_reserve queue of
        (None, queue) \<Rightarrow> Some (Some ''reserve failed'', processed)
      | (Some reservation, queue) \<Rightarrow> do {
          (reservation, queue) \<leftarrow> reservation_construct (payload64 processed processed) reservation queue;
          let (committed, reservation, queue) = reservation_commit reservation queue;
          if \<not> committed then do {
            queue \<leftarrow> reservation_destroy reservation queue;
            Some (Some ''commit failed'', processed) }
          else do {
            (consumed, out, queue) \<leftarrow> zc_try_consume queue out;
            queue \<leftarrow> reservation_destroy reservation queue;
            if \<not> consumed then Some (Some ''consume failed'', processed)
            else zero_copy_bench n queue out (processed + 1) } })"

section \<open>In-memory brokers\<close>

text \<open>The inner loop that publishes and consumes one message at a time; the texts of the errors differ
  between the benchmarks.\<close>

fun exchange_loop ::
    "(Status \<Rightarrow> string) \<Rightarrow> (Status \<Rightarrow> string) \<Rightarrow> nat \<Rightarrow> u64 \<Rightarrow> Payload64 Broker \<Rightarrow> u64 \<Rightarrow>
     (string option \<times> Payload64 Broker \<times> u64) option" where
  "exchange_loop pub_error con_error 0 i broker processed = Some (None, broker, processed)"
| "exchange_loop pub_error con_error (Suc k) i broker processed =
     do { (pub, broker) \<leftarrow> broker_try_publish broker (payload64 i i);
          if \<not> is_ok pub then Some (Some (pub_error pub), broker, processed)
          else do {
            (con, out, broker) \<leftarrow> broker_try_consume broker default_Payload64;
            if \<not> is_ok con then Some (Some (con_error con), broker, processed)
            else exchange_loop pub_error con_error k (i + 1) broker (processed + 1) } }"

fun broker_single :: "size_t \<Rightarrow> nat \<Rightarrow> string option \<Rightarrow> u64 \<Rightarrow> (string option \<times> u64) option" where
  "broker_single C 0 err processed = Some (err, processed)"
| "broker_single C (Suc n) err processed =
     do { (e, broker, processed) \<leftarrow>
            exchange_loop (\<lambda>_. ''publish failed'') (\<lambda>_. ''consume failed'') 1024 0 (broker_init C) processed;
          broker_single C n (skip_with_error err e) processed }"

definition batch_input :: "nat \<Rightarrow> u64 \<Rightarrow> Payload64 list" where
  "batch_input batch_size batch = map (\<lambda>i. payload64 (batch * of_nat batch_size + of_nat i) batch) [0..<batch_size]"

fun batch_rounds ::
    "nat \<Rightarrow> nat \<Rightarrow> u64 \<Rightarrow> Payload64 BatchBroker \<Rightarrow> Payload64 list \<Rightarrow> u64 \<Rightarrow>
     (string option \<times> Payload64 list \<times> u64) option" where
  "batch_rounds batch_size 0 batch broker out processed = Some (None, out, processed)"
| "batch_rounds batch_size (Suc k) batch broker out processed =
     do { (published, broker) \<leftarrow> try_publish_batch broker (batch_input batch_size batch);
          if published \<noteq> of_nat batch_size then Some (Some ''batch publish failed'', out, processed)
          else do {
            (consumed, out, broker) \<leftarrow> try_consume_batch broker out;
            if consumed \<noteq> of_nat batch_size then Some (Some ''batch consume failed'', out, processed)
            else batch_rounds batch_size k (batch + 1) broker out (processed + of_nat batch_size) } }"

fun batch_bench ::
    "size_t \<Rightarrow> nat \<Rightarrow> nat \<Rightarrow> Payload64 list \<Rightarrow> string option \<Rightarrow> u64 \<Rightarrow> (string option \<times> u64) option" where
  "batch_bench C batch_size 0 out err processed = Some (err, processed)"
| "batch_bench C batch_size (Suc n) out err processed =
     do { (e, out, processed) \<leftarrow> batch_rounds batch_size (1024 div batch_size) 0 (batch_init C) out processed;
          batch_bench C batch_size n out (skip_with_error err e) processed }"

fun benchmark_in_memory ::
    "size_t \<Rightarrow> nat \<Rightarrow> string option \<Rightarrow> u64 \<Rightarrow> u64 \<Rightarrow> (string option \<times> u64 \<times> u64) option" where
  "benchmark_in_memory C 0 err published consumed = Some (err, published, consumed)"
| "benchmark_in_memory C (Suc n) err published consumed =
     do { (e, broker, _) \<leftarrow>
            exchange_loop status_message status_message 1024 0 (broker_init C) 0;
          let metrics = broker_metrics_snapshot broker;
          benchmark_in_memory C n (skip_with_error err e)
            (published + ms_published metrics) (consumed + ms_consumed metrics) }"

section \<open>Persistent broker\<close>

fun wal_exchange_loop ::
    "'os posix \<Rightarrow> (nat \<Rightarrow> u64) \<Rightarrow> nat \<Rightarrow> nat \<Rightarrow> Payload64 PersistentBroker \<Rightarrow> 'os \<Rightarrow>
     (string option \<times> Payload64 PersistentBroker \<times> 'os) option" where
  "wal_exchange_loop P clock 0 i broker os = Some (None, broker, os)"
| "wal_exchange_loop P clock (Suc k) i broker os =
     do { (pub, broker, os) \<leftarrow>
            persistent_try_publish P os (clock i) payload64_rep broker (payload64 (of_nat i) (of_nat i)) 0;
          if \<not> is_ok pub then Some (Some (status_message pub), broker, os)
          else do {
            (con, out, broker) \<leftarrow> persistent_try_consume broker default_Payload64;
            if \<not> is_ok con then Some (Some (status_message con), broker, os)
            else wal_exchange_loop P clock k (Suc i) broker os } }"

record wal_totals =
  wt_published :: u64
  wt_consumed :: u64
  wt_wal_bytes :: u64
  wt_wal_records :: u64

definition add_metrics :: "BrokerMetricsSnapshot \<Rightarrow> wal_totals \<Rightarrow> wal_totals" where
  "add_metrics metrics t =
     \<lparr>wt_published = wt_published t + ms_published metrics, wt_consumed = wt_consumed t + ms_consumed metrics,
      wt_wal_bytes = wt_wal_bytes t + ms_wal_bytes_written metrics,
      wt_wal_records = wt_wal_records t + ms_wal_records_written metrics\<rparr>"

definition benchmark_config :: "path \<Rightarrow> WalConfig" where
  "benchmark_config path = \<lparr>wc_path = path, wc_file_size_bytes = 256 * 1024 * 1024, wc_flush_on_commit = False\<rparr>"

fun benchmark_wal ::
    "'os posix \<Rightarrow> ('os \<Rightarrow> path \<Rightarrow> 'os) \<Rightarrow> (nat \<Rightarrow> nat \<Rightarrow> u64) \<Rightarrow> (nat \<Rightarrow> path) \<Rightarrow> size_t \<Rightarrow> nat \<Rightarrow> nat \<Rightarrow> 'os \<Rightarrow>
     string option \<Rightarrow> wal_totals \<Rightarrow> (string option \<times> wal_totals \<times> 'os) option" where
  "benchmark_wal P remove_file clock wal_path C 0 file_index os err totals = Some (err, totals, os)"
| "benchmark_wal P remove_file clock wal_path C (Suc n) file_index os err totals =
     (let config = benchmark_config (wal_path file_index);
          (broker, os) = persistent_construct_wal P (remove_file os (wc_path config)) payload64_rep C config in
      if \<not> persistent_valid broker then
        Some (skip_with_error err (Some (status_message (pb_open_status broker))), totals,
              mmap_destroy P os (ww_file (pb_writer broker)))
      else do {
        (e, broker, os) \<leftarrow> wal_exchange_loop P (clock file_index) 1024 0 broker os;
        benchmark_wal P remove_file clock wal_path C n (Suc file_index)
          (mmap_destroy P (remove_file os (wc_path config)) (ww_file (pb_writer broker)))
          (skip_with_error err e) (add_metrics (persistent_metrics_snapshot broker) totals) })"

section \<open>Spin wait\<close>

fun spin_pauses :: "nat \<Rightarrow> SpinWait \<Rightarrow> wait_action list \<Rightarrow> wait_action list \<times> SpinWait" where
  "spin_pauses 0 wait actions = (actions, wait)"
| "spin_pauses (Suc n) wait actions = (let (action, wait) = spin_wait_pause wait in spin_pauses n wait (actions @ [action]))"

definition bm_spin_wait_pause :: "nat \<Rightarrow> wait_action list \<times> u32" where
  "bm_spin_wait_pause n = (let (actions, wait) = spin_pauses n (spin_wait_make 1024 False) [] in (actions, sw_count wait))"

definition bm_spin_wait_backoff :: "wait_action list \<times> u32" where
  "bm_spin_wait_backoff = (let (actions, wait) = spin_pauses 8 (spin_wait_make 4 True) [] in (actions, sw_count wait))"

section \<open>The queues\<close>

lemma spsc_emplace_ok:
  assumes "ring_inv q" "ring_contents q = []" "0 < unat (rb_capacity q)"
  shows "spsc_emplace n q out processed = Some (None, processed + of_nat n)"
  using assms
proof (induction n arbitrary: q out processed)
  case (Suc n)
  let ?v = "payload64 processed processed"
  obtain q1 where q1: "ring_try_emplace q ?v = Some (True, q1)" "ring_inv q1" "ring_contents q1 = [?v]"
      "unat (rb_capacity q1) = unat (rb_capacity q)"
    using ring.push_room [OF Suc.prems(1), of ?v] Suc.prems(2,3) by (auto simp: ring_try_push_def)
  obtain q2 where q2: "ring_try_pop q1 out = Some (True, ?v, q2)" "ring_inv q2" "ring_contents q2 = []"
      "unat (rb_capacity q2) = unat (rb_capacity q1)"
    using ring.pop_some [OF q1(2,3), of out] by blast
  show ?case using Suc.IH [OF q2(2,3)] Suc.prems(3) q1 q2 by (simp add: add.assoc)
qed simp

lemma committed_destroy: "reservation_commit r q = (True, r', q') \<Longrightarrow> reservation_destroy r' q'' = Some q''"
  for q q'' :: "'a ZeroCopySpsc"
  by (auto simp: reservation_commit_def reservation_destroy_def reservation_cancel_def split: if_splits)

lemma zero_copy_bench_ok:
  assumes "zc_inv q" "zc_contents q = []" "0 < unat (zc_capacity q)"
  shows "zero_copy_bench n q out processed = Some (None, processed + of_nat n)"
  using assms
proof (induction n arbitrary: q out processed)
  case (Suc n)
  let ?v = "payload64 processed processed"
  obtain q1 where q1: "zc_push q ?v = Some (True, q1)" "zc_inv q1" "zc_contents q1 = [?v]"
      "unat (zc_capacity q1) = unat (zc_capacity q)"
    using zero_copy.push_room [OF Suc.prems(1), of ?v] Suc.prems(2,3) by auto
  then obtain r qa r1 qb r2 qc where w: "zc_try_reserve q = (Some r, qa)" "reservation_construct ?v r qa = Some (r1, qb)"
      "reservation_commit r1 qb = (True, r2, qc)" "reservation_destroy r2 qc = Some q1"
    by (auto simp: zc_push_def bind_eq_Some_conv Let_def split_beta split: prod.splits option.splits)
      (metis prod.collapse)
  note d = committed_destroy [OF w(3)]
  then have "qc = q1" using w(4) by simp
  moreover obtain q2 where q2: "zc_try_consume q1 out = Some (True, ?v, q2)" "zc_inv q2" "zc_contents q2 = []"
      "unat (zc_capacity q2) = unat (zc_capacity q1)"
    using zero_copy.pop_some [OF q1(2,3), of out] by blast
  ultimately show ?case
    using Suc.IH [OF q2(2,3), of ?v "processed + 1"] Suc.prems(3) q1(4) q2(1,4) w d by (simp add: add.assoc)
qed simp

section \<open>The in-memory brokers\<close>

lemma exchange_loop_ok:
  assumes "broker_ok b" "broker_contents b = []" "0 < broker_capacity b"
  shows "\<exists>b'. exchange_loop pe ce k i b n = Some (None, b', n + of_nat k) \<and>
    ct_published (bk_counters b') = ct_published (bk_counters b) + of_nat k \<and>
    ct_consumed (bk_counters b') = ct_consumed (bk_counters b) + of_nat k"
  using assms
proof (induction k arbitrary: i b n)
  case (Suc k)
  let ?v = "payload64 i i"
  obtain b1 where b1: "broker_try_publish b ?v = Some (status_ok, b1)" "broker_ok b1" "broker_contents b1 = [?v]"
      "broker_capacity b1 = broker_capacity b" "bk_counters b1 = record_published (bk_counters b)"
    using broker.publish_room [OF Suc.prems(1), of ?v] Suc.prems(2,3) by auto
  obtain b2 where b2: "broker_try_consume b1 default_Payload64 = Some (status_ok, ?v, b2)" "broker_ok b2"
      "broker_contents b2 = []" "broker_capacity b2 = broker_capacity b1" "bk_counters b2 = record_consumed (bk_counters b1)"
    using broker.consume_some [OF b1(2,3), of default_Payload64] by blast
  have "0 < broker_capacity b2" using Suc.prems(3) b1(4) b2(4) by simp
  from Suc.IH [OF b2(2,3) this, of "i + 1" "n + 1"] show ?case
    using b1 b2 by (auto simp: counter_simps add.assoc)
qed auto

lemma capacity_positive: "static_capacity C \<Longrightarrow> 0 < unat C"
  using static_capacity_bounds(1) [of C] by simp

lemma exchange_loop_new:
  assumes "static_capacity C"
  obtains b where "exchange_loop pe ce k i (broker_init C) n = Some (None, b, n + of_nat k)"
    "ct_published (bk_counters b) = of_nat k" "ct_consumed (bk_counters b) = of_nat k"
proof -
  have "\<exists>b. exchange_loop pe ce k i (broker_init C) n = Some (None, b, n + of_nat k) \<and>
      ct_published (bk_counters b) = ct_published (bk_counters (broker_init C :: Payload64 Broker)) + of_nat k \<and>
      ct_consumed (bk_counters b) = ct_consumed (bk_counters (broker_init C :: Payload64 Broker)) + of_nat k"
    by (rule exchange_loop_ok) (simp_all add: broker_init_ok [OF assms] capacity_positive [OF assms])
  then show thesis using that by (auto simp: counters_init_def)
qed

lemma broker_single_ok:
  assumes "static_capacity C"
  shows "broker_single C n None processed = Some (None, processed + 1024 * of_nat n)"
proof (induction n arbitrary: processed)
  case (Suc n)
  obtain b where "exchange_loop (\<lambda>_. ''publish failed'') (\<lambda>_. ''consume failed'') 1024 0 (broker_init C) processed =
      Some (None, b, processed + of_nat 1024)"
    using exchange_loop_new [OF assms] by blast
  then show ?case using Suc by (simp add: skip_with_error_def algebra_simps)
qed simp

lemma benchmark_in_memory_ok:
  assumes "static_capacity C"
  shows "benchmark_in_memory C n None published consumed =
     Some (None, published + 1024 * of_nat n, consumed + 1024 * of_nat n)"
proof (induction n arbitrary: published consumed)
  case (Suc n)
  obtain b where "exchange_loop status_message status_message 1024 0 (broker_init C) 0 = Some (None, b, 0 + of_nat 1024)"
      "ct_published (bk_counters b) = of_nat 1024" "ct_consumed (bk_counters b) = of_nat 1024"
    using exchange_loop_new [OF assms] by blast
  then show ?case
    using Suc by (simp add: skip_with_error_def broker_metrics_snapshot_def counters_snapshot_def Let_def algebra_simps)
qed simp

lemma length_batch_input [simp]: "length (batch_input n batch) = n"
  by (simp add: batch_input_def)

lemma batch_rounds_ok:
  assumes "batch_ok b" "batch_contents b = []" "bs \<le> batch_capacity b" "0 < bs" "length out = bs"
  shows "\<exists>out'. batch_rounds bs k batch b out processed = Some (None, out', processed + of_nat k * of_nat bs) \<and>
    length out' = bs"
  using assms
proof (induction k arbitrary: b batch out processed)
  case (Suc k)
  let ?in = "batch_input bs batch"
  have ne: "?in \<noteq> []" "out \<noteq> []" 
    using Suc.prems(4,5) length_batch_input [of bs batch] by (metis list.size(3) less_irrefl)+
  have z: "(of_nat bs :: size_t) \<noteq> 0" using unat_of_nat_capacity [OF Suc.prems(3)] Suc.prems(4) by auto
  obtain b1 where b1: "publish_loop b ?in 0 = Some (of_nat bs, b1)" "batch_ok b1" "batch_capacity b1 = batch_capacity b"
      "batch_contents b1 = ?in"
    using publish_loop_result [OF Suc.prems(1), of ?in 0] Suc.prems(2,3) by (auto simp: min_def)
  obtain b2 where b2: "consume_loop b1 out 0 = Some (of_nat bs, ?in, b2)" "batch_ok b2"
      "batch_capacity b2 = batch_capacity b1" "batch_contents b2 = []"
    using consume_loop_result [OF b1(2), of out 0] b1(4) Suc.prems(5) by auto
  have "batch_valid b" "batch_valid b1" using Suc.prems(1) b1(2) by (simp_all add: batch_ok_def)
  then have "try_publish_batch b ?in = Some (of_nat bs, b1)" "try_consume_batch b1 out = Some (of_nat bs, ?in, b2)"
    using ne z b1(1) b2(1) by (simp_all add: try_publish_batch_def try_consume_batch_def)
  moreover have "bs \<le> batch_capacity b2" using Suc.prems(3) b1(3) b2(3) by simp
  ultimately show ?case
    using Suc.IH [OF b2(2,4) _ Suc.prems(4) length_batch_input [of bs batch], of "batch + 1" "processed + of_nat bs"]
    by (simp add: algebra_simps)
qed simp

lemma batch_bench_ok:
  assumes "static_capacity C" "0 < bs" "bs \<le> unat C" "bs dvd 1024" "length out = bs"
  shows "batch_bench C bs n out None processed = Some (None, processed + 1024 * of_nat n)"
  using assms(5)
proof (induction n arbitrary: out processed)
  case (Suc n)
  have "(of_nat (1024 div bs) * of_nat bs :: u64) = of_nat 1024" using assms(4) by (metis dvd_div_mult_self of_nat_mult)
  then obtain out' where "batch_rounds bs (1024 div bs) 0 (batch_init C) out processed = Some (None, out', processed + of_nat 1024)"
      "length out' = bs"
    using batch_rounds_ok [OF batch_init_ok(1,2) [OF assms(1)] _ assms(2) Suc.prems, of "1024 div bs" 0 processed]
      assms(3) by (auto simp: batch_init_ok(3) [OF assms(1)])
  then show ?case using Suc.IH by (simp add: skip_with_error_def algebra_simps)
qed simp


section \<open>The persistent broker\<close>

lemma payload64_trivially_copyable: "trivially_copyable payload64_rep" "unat (or_sizeof payload64_rep) = 64"
proof -
  have "read_u64_le (le_bytes 8 a @ le_bytes 8 b @ replicate 48 0) 0 = a"
      "read_u64_le (le_bytes 8 a @ le_bytes 8 b @ replicate 48 0) 8 = b" for a b :: u64
    by (rule read_u64_le_eq; simp)+
  then show "trivially_copyable payload64_rep" by (simp add: trivially_copyable_def payload64_rep_def payload64_def)
qed (simp add: payload64_rep_def)

text \<open>The broker between two messages: nothing is queued and there is room for the rest of the pass.\<close>

definition exchange_state :: "Payload64 PersistentBroker \<Rightarrow> nat \<Rightarrow> bool" where
  "exchange_state b i \<longleftrightarrow>
     (\<exists>consumed msgs. persistent_state payload64_rep b consumed msgs \<and> length consumed = i \<and> length msgs = i) \<and>
     0 < broker_capacity (pb_broker b) \<and> unat (mf_size (ww_file (pb_writer b))) = 256 * 1024 * 1024 \<and>
     \<not> ww_flush_on_append (pb_writer b)"

lemma persistent_consume_capacity:
  assumes "persistent_try_consume b out = Some (s, x, b')" "broker_ok (pb_broker b)" "persistent_valid b"
  shows "broker_capacity (pb_broker b') = broker_capacity (pb_broker b)"
proof (cases "broker_contents (pb_broker b)")
  case Nil
  then show ?thesis
    using broker.consume_empty [OF assms(2) Nil, of out] assms(1,3)
    by (auto simp: persistent_try_consume_def is_ok_def Let_def)
next
  case (Cons y ys)
  then show ?thesis
    using broker.consume_some [OF assms(2) Cons, of out] assms(1,3) by (auto simp: persistent_try_consume_def Let_def)
qed

lemma exchange_state_step:
  assumes st: "exchange_state b i" and i: "i < 1024"
  shows "\<exists>b1 x b2. persistent_try_publish P os now payload64_rep b v 0 = Some (status_ok, b1, os) \<and>
    persistent_try_consume b1 out = Some (status_ok, x, b2) \<and> exchange_state b2 (Suc i)"
proof -
  note tc = payload64_trivially_copyable
  obtain consumed msgs where s: "persistent_state payload64_rep b consumed msgs" "length consumed = i" "length msgs = i"
      and b: "0 < broker_capacity (pb_broker b)" "unat (mf_size (ww_file (pb_writer b))) = 256 * 1024 * 1024"
      "\<not> ww_flush_on_append (pb_writer b)"
    using st by (auto simp: exchange_state_def)
  have "length (map logged_value msgs) = length (consumed @ broker_contents (pb_broker b))"
    using s(1) by (simp add: persistent_state_def)
  then have empty: "broker_contents (pb_broker b) = []" using s(2,3) by simp
  have fit: "length (wal_image (object_entries payload64_rep 0 msgs)) + 40 + unat (or_sizeof payload64_rep)
      \<le> unat (mf_size (ww_file (pb_writer b)))"
    using i s(3) unfolding length_wal_image_objects [OF tc(1)] tc(2) b(2) by simp
  obtain b1 where b1: "persistent_try_publish P os now payload64_rep b v 0 = Some (status_ok, b1, os)"
      "persistent_state payload64_rep b1 consumed (msgs @ [(now, v, 0)])"
      "broker_capacity (pb_broker b1) = broker_capacity (pb_broker b)"
      "mf_size (ww_file (pb_writer b1)) = mf_size (ww_file (pb_writer b))" "\<not> ww_flush_on_append (pb_writer b1)"
    using persistent_publish_ok [OF s(1) tc(1) _ _ fit b(3), of P os now v 0] b(1) empty tc(2) by auto
  have "length (map logged_value (msgs @ [(now, v, 0)])) = length (consumed @ broker_contents (pb_broker b1))"
    using b1(2) by (simp add: persistent_state_def)
  then have "broker_contents (pb_broker b1) \<noteq> []" using s(2,3) by auto
  then obtain t x b2 where b2: "persistent_try_consume b1 out = Some (t, x, b2)" "pb_writer b2 = pb_writer b1" "is_ok t"
      "st_code t \<in> {Ok, Empty}" "persistent_state payload64_rep b2 (consumed @ [x]) (msgs @ [(now, v, 0)])"
    using persistent_consume_cases [OF b1(2), of out] by auto
  have "broker_capacity (pb_broker b2) = broker_capacity (pb_broker b1)"
    using persistent_consume_capacity [OF b2(1)] b1(2) persistent_state_valid [OF b1(2)] by (simp add: persistent_state_def)
  then have "exchange_state b2 (Suc i)"
    using b b1 b2 s(2,3) unfolding exchange_state_def by (metis length_append_singleton)
  moreover have "t = status_ok"
    using b2(1,3) b1(2) persistent_state_valid [OF b1(2)] broker.consume_some [of "pb_broker b1" _ _ out]
      \<open>broker_contents (pb_broker b1) \<noteq> []\<close>
    by (cases "broker_contents (pb_broker b1)") (auto simp: persistent_try_consume_def persistent_state_def Let_def)
  ultimately show ?thesis using b1(1) b2(1) by blast
qed

lemma wal_exchange_loop_ok:
  "exchange_state b i \<Longrightarrow> i + k \<le> 1024 \<Longrightarrow>
   \<exists>b'. wal_exchange_loop P clock k i b os = Some (None, b', os) \<and> exchange_state b' (i + k)"
proof (induction k arbitrary: i b)
  case (Suc k)
  obtain b1 x b2 where "persistent_try_publish P os (clock i) payload64_rep b (payload64 (of_nat i) (of_nat i)) 0 =
      Some (status_ok, b1, os)" "persistent_try_consume b1 default_Payload64 = Some (status_ok, x, b2)"
      "exchange_state b2 (Suc i)"
    using exchange_state_step [OF Suc.prems(1)] Suc.prems(2) by fastforce
  then show ?case using Suc.IH [of b2 "Suc i"] Suc.prems(2) by simp
qed simp

lemma exchange_state_metrics:
  assumes "exchange_state b i"
  shows "ms_published (persistent_metrics_snapshot b) = of_nat i" "ms_consumed (persistent_metrics_snapshot b) = of_nat i"
    "ms_wal_records_written (persistent_metrics_snapshot b) = of_nat i"
    "ms_wal_bytes_written (persistent_metrics_snapshot b) = 104 * of_nat i"
proof -
  obtain consumed msgs where s: "persistent_state payload64_rep b consumed msgs" "length consumed = i" "length msgs = i"
    using assms by (auto simp: exchange_state_def)
  have "unat (ww_current_offset (pb_writer b)) = 104 * i"
    using s length_wal_image_objects [OF payload64_trivially_copyable(1), of 0 msgs] payload64_trivially_copyable(2)
    by (simp add: persistent_state_def writer_log_def)
  moreover have "of_nat (unat (ww_current_offset (pb_writer b))) = ww_current_offset (pb_writer b)" by simp
  ultimately have "ww_current_offset (pb_writer b) = of_nat (104 * i)" by metis
  then show "ms_published (persistent_metrics_snapshot b) = of_nat i" "ms_consumed (persistent_metrics_snapshot b) = of_nat i"
    "ms_wal_records_written (persistent_metrics_snapshot b) = of_nat i"
    "ms_wal_bytes_written (persistent_metrics_snapshot b) = 104 * of_nat i"
    using s by (simp_all add: persistent_state_def persistent_metrics_snapshot_def counters_snapshot_def)
qed

text \<open>What \<open>k\<close> complete passes add to the totals.\<close>

definition passes_add :: "nat \<Rightarrow> wal_totals \<Rightarrow> wal_totals" where
  "passes_add k t =
     \<lparr>wt_published = wt_published t + 1024 * of_nat k, wt_consumed = wt_consumed t + 1024 * of_nat k,
      wt_wal_bytes = wt_wal_bytes t + 104 * 1024 * of_nat k, wt_wal_records = wt_wal_records t + 1024 * of_nat k\<rparr>"

lemma add_metrics_passes:
  "exchange_state b 1024 \<Longrightarrow> passes_add k (add_metrics (persistent_metrics_snapshot b) t) = passes_add (Suc k) t"
  using exchange_state_metrics [of b 1024] by (simp add: passes_add_def add_metrics_def algebra_simps)

text \<open>How a run of \<open>n\<close> passes ends that completed \<open>k\<close> of them: without an error, or because after \<open>k\<close>
  passes without an error the next file could not be opened.\<close>

definition passes_end ::
    "'os posix \<Rightarrow> ('os \<Rightarrow> path \<Rightarrow> 'os) \<Rightarrow> (nat \<Rightarrow> nat \<Rightarrow> u64) \<Rightarrow> (nat \<Rightarrow> path) \<Rightarrow> size_t \<Rightarrow> nat \<Rightarrow> 'os \<Rightarrow>
     wal_totals \<Rightarrow> nat \<Rightarrow> nat \<Rightarrow> string option \<Rightarrow> bool" where
  "passes_end P remove_file clock wal_path C j os t k n e \<longleftrightarrow>
     (if k = n then e = None
      else k < n \<and> (\<exists>os1 b os2. benchmark_wal P remove_file clock wal_path C k j os None t = Some (None, passes_add k t, os1) \<and>
             persistent_construct_wal P (remove_file os1 (wal_path (j + k))) payload64_rep C
               (benchmark_config (wal_path (j + k))) = (b, os2) \<and>
             \<not> persistent_valid b \<and> e = Some (status_message (pb_open_status b))))"

lemma benchmark_wal_Suc:
  assumes "persistent_construct_wal P (remove_file os (wal_path j)) payload64_rep C (benchmark_config (wal_path j)) = (b, os1)"
    "persistent_valid b" "wal_exchange_loop P (clock j) 1024 0 b os1 = Some (None, b', os2)"
  shows "benchmark_wal P remove_file clock wal_path C (Suc n) j os None t =
    benchmark_wal P remove_file clock wal_path C n (Suc j)
      (mmap_destroy P (remove_file os2 (wal_path j)) (ww_file (pb_writer b'))) None
      (add_metrics (persistent_metrics_snapshot b') t)"
  using assms by (simp add: skip_with_error_def benchmark_config_def)

lemma benchmark_wal_passes:
  assumes laws: "posix_laws P" and C: "static_capacity C"
  shows "\<exists>k e os'. benchmark_wal P remove_file clock wal_path C n j os None t = Some (e, passes_add k t, os') \<and>
    passes_end P remove_file clock wal_path C j os t k n e"
proof (induction n arbitrary: j os t)
  case 0
  show ?case by (intro exI [of _ 0]) (simp add: passes_add_def passes_end_def)
next
  case (Suc n)
  obtain b os1 where con: "persistent_construct_wal P (remove_file os (wal_path j)) payload64_rep C
      (benchmark_config (wal_path j)) = (b, os1)" by fastforce
  show ?case
  proof (cases "persistent_valid b")
    case False
    then have "passes_end P remove_file clock wal_path C j os t 0 (Suc n) (Some (status_message (pb_open_status b)))"
      using con by (simp add: passes_end_def passes_add_def)
    then show ?thesis
      using con False by (intro exI [of _ 0]) (simp add: passes_add_def skip_with_error_def benchmark_config_def)
  next
    case True
    note o = persistent_construct_wal_state [OF laws C con True]
    have "exchange_state b 0"
      using o(1,4,5,6) capacity_positive [OF C] unfolding exchange_state_def
      by (simp add: broker_init_ok(3) [OF C] benchmark_config_def)
    then obtain b' where b': "wal_exchange_loop P (clock j) 1024 0 b os1 = Some (None, b', os1)" "exchange_state b' 1024"
      using wal_exchange_loop_ok [of b 0 1024 P "clock j" os1] by auto
    let ?t = "add_metrics (persistent_metrics_snapshot b') t"
      and ?os = "mmap_destroy P (remove_file os1 (wal_path j)) (ww_file (pb_writer b'))"
    note step = benchmark_wal_Suc [of P remove_file os wal_path j C, OF con True, of clock, OF b'(1)] and add = add_metrics_passes [OF b'(2), of _ t]
    obtain k e os' where r: "benchmark_wal P remove_file clock wal_path C n (Suc j) ?os None ?t = Some (e, passes_add k ?t, os')"
        "passes_end P remove_file clock wal_path C (Suc j) ?os ?t k n e"
      using Suc.IH by blast
    have "passes_end P remove_file clock wal_path C j os t (Suc k) (Suc n) e"
      using r(2) unfolding passes_end_def step add by (simp split: if_splits)
    then show ?thesis using r(1) unfolding step add by blast
  qed
qed

section \<open>Spin wait\<close>

lemma spin_pauses_relax:
  "\<not> sw_yield_after_spin w \<Longrightarrow>
   spin_pauses n w actions = (actions @ replicate n Relax, w\<lparr>sw_count := sw_count w + of_nat n\<rparr>)"
  by (induction n arbitrary: w actions) (simp_all add: spin_wait_pause_def algebra_simps)

section \<open>Properties\<close>

text \<open>
  C34. The single-threaded benchmarks do the work they report. For every admissible capacity, every batch
  size that fits into it and divides 1024, and any number of passes, the loops on the ring buffer, the
  zero-copy queue, the broker and the batch broker end without undefined behaviour and without an
  error, and the number of messages they report is the number of passes times the messages of a pass.
  The pause benchmark only relaxes; the backoff benchmark relaxes four times, then yields four times.
\<close>

theorem bench_loops_exact:
  assumes "static_capacity C" "0 < batch_size" "batch_size \<le> unat C" "batch_size dvd 1024" "length out = batch_size"
  shows "spsc_emplace n (ring_init C) default_Payload64 0 = Some (None, of_nat n) \<and>
    zero_copy_bench n (zc_init C) default_Payload64 0 = Some (None, of_nat n) \<and>
    broker_single C n None 0 = Some (None, 1024 * of_nat n) \<and>
    batch_bench C batch_size n out None 0 = Some (None, 1024 * of_nat n) \<and>
    benchmark_in_memory C n None 0 0 = Some (None, 1024 * of_nat n, 1024 * of_nat n) \<and>
    bm_spin_wait_pause n = (replicate n Relax, of_nat n) \<and>
    bm_spin_wait_backoff = (replicate 4 Relax @ replicate 4 Yield, 8)"
proof (intro conjI)
  note r = ring_init_inv [OF assms(1)] capacity_positive [OF assms(1)]
  have z: "zc_ring (zc_init C :: Payload64 ZeroCopySpsc) = ring_init C"
    by (simp add: zc_ring_def zc_init_def ring_init_def)
  show "spsc_emplace n (ring_init C) default_Payload64 0 = Some (None, of_nat n)"
    using spsc_emplace_ok [of "ring_init C" n default_Payload64 0] by (simp add: r)
  show "zero_copy_bench n (zc_init C) default_Payload64 0 = Some (None, of_nat n)"
    using zero_copy_bench_ok [of "zc_init C" n default_Payload64 0]
    by (simp add: zc_inv_def zc_contents_def z r) (simp add: r zc_init_def)
  show "bm_spin_wait_backoff = (replicate 4 Relax @ replicate 4 Yield, 8)"
    by code_simp
  show "bm_spin_wait_pause n = (replicate n Relax, of_nat n)"
    by (simp add: bm_spin_wait_pause_def spin_pauses_relax spin_wait_make_def)
qed (simp_all add: broker_single_ok [OF assms(1)] batch_bench_ok [OF assms] benchmark_in_memory_ok [OF assms(1)])

theorem bench_loops_exact_witness:
  "batch_bench 1024 32 3 (replicate 32 default_Payload64) None 0 = Some (None, 3072) \<and>
   zero_copy_bench 5 (zc_init 65536) default_Payload64 0 = Some (None, 5)"
proof -
  have "static_capacity 1024" "static_capacity 65536" by (simp_all add: static_capacity_def)
  then show ?thesis
    using bench_loops_exact [of 1024 32 "replicate 32 default_Payload64" 3]
      bench_loops_exact [of 65536 32 "replicate 32 default_Payload64" 5] by simp
qed

text \<open>
  C33. The end-to-end benchmark with a log counts exactly what it exchanged. On every system that keeps the
  POSIX laws and whatever removing a file does to it, a run of \<open>n\<close> passes ends without undefined
  behaviour. It completes some \<open>k\<close> of them, all of them unless, after \<open>k\<close> passes, the next file cannot be
  opened, and then the reported error is that of the open: 1024 publishes and consumes of 64 bytes never fail in
  a file of 256 MiB. The totals are those of \<open>k\<close> passes: 1024 messages published and consumed, 1024
  records and 104 bytes of log for each of them.
\<close>

theorem bench_wal_exact:
  assumes "posix_laws P" "static_capacity C"
  shows "\<exists>k e os'. benchmark_wal P remove_file clock wal_path C n 0 os None
      \<lparr>wt_published = 0, wt_consumed = 0, wt_wal_bytes = 0, wt_wal_records = 0\<rparr> =
    Some (e, \<lparr>wt_published = 1024 * of_nat k, wt_consumed = 1024 * of_nat k,
      wt_wal_bytes = 104 * 1024 * of_nat k, wt_wal_records = 1024 * of_nat k\<rparr>, os') \<and>
    passes_end P remove_file clock wal_path C 0 os
      \<lparr>wt_published = 0, wt_consumed = 0, wt_wal_bytes = 0, wt_wal_records = 0\<rparr> k n e"
  using benchmark_wal_passes [OF assms, of remove_file clock wal_path n 0 os
      "\<lparr>wt_published = 0, wt_consumed = 0, wt_wal_bytes = 0, wt_wal_records = 0\<rparr>"]
  by (simp add: passes_add_def)

theorem bench_wal_exact_witness:
  "\<exists>k e os'. benchmark_wal memfs_posix (\<lambda>fs p. fs\<lparr>fs_files := (fs_files fs)(p := None)\<rparr>) (\<lambda>_ i. of_nat i)
      (\<lambda>j. ''w'') 1024 2 0 memfs_empty None
      \<lparr>wt_published = 0, wt_consumed = 0, wt_wal_bytes = 0, wt_wal_records = 0\<rparr> =
    Some (e, \<lparr>wt_published = 1024 * of_nat k, wt_consumed = 1024 * of_nat k,
      wt_wal_bytes = 104 * 1024 * of_nat k, wt_wal_records = 1024 * of_nat k\<rparr>, os') \<and>
    passes_end memfs_posix (\<lambda>fs p. fs\<lparr>fs_files := (fs_files fs)(p := None)\<rparr>) (\<lambda>_ i. of_nat i) (\<lambda>j. ''w'') 1024 0
      memfs_empty \<lparr>wt_published = 0, wt_consumed = 0, wt_wal_bytes = 0, wt_wal_records = 0\<rparr> k 2 e"
proof -
  have "static_capacity 1024" by (simp add: static_capacity_def)
  then show ?thesis by (rule bench_wal_exact [OF memfs_laws])
qed

end
