(* ===== verification/Spec2Isabelle.thy ===== *)
theory Spec2Isabelle
  imports
    Wal_Corruption
    Wal_Roundtrip
    Batch_Broker
    Persistent_Broker
    Spsc_Clients
    Zero_Copy_Concurrent
    Examples
    Bench_Transfer
    Bench_Loops
begin

text \<open>
  Aether-Stream: a verification development of the C++ library, its command line applications, its
  stress tool, its examples and its benchmarks.

  \<^bold>\<open>The program.\<close> A producer thread and a consumer thread exchange messages through a bounded
  lock-free ring buffer. Brokers put statuses and counters around the ring; the persistent broker
  also writes every message to a write-ahead log before it queues it. The log is a sequence of
  checksummed records in a memory-mapped file, which a reader decodes again. The applications
  publish to such a log, subscribe to it, replay it and inspect it.

  \<^bold>\<open>Reading the code.\<close> The sources are read on an LP64 POSIX platform: \<open>std::size_t\<close> is a 64-bit
  word and unsigned arithmetic wraps. A span is the list it views. Undefined behaviour (an access
  outside a span, a construction over a live object, a data race) is \<open>None\<close>, so a theorem that an
  operation gives \<open>Some\<close> is a theorem that it is defined. A status of the code is a value of the
  record \<open>Status\<close>, an \<open>Expected<T>\<close> a value of the datatype \<open>Expected\<close>; every early return is a
  branch. Classes are records, methods take the object and return the new one. Record fields carry a
  prefix (\<open>rb_head\<close> is \<open>head_\<close> of the ring buffer), operations the name of their class
  (\<open>wal_writer_append\<close> is \<open>WalWriter::append\<close>). Template capacities are arguments with the
  static assertions of the class as \<open>static_capacity\<close>. What a program prints is returned as data.

  \<^bold>\<open>Theories, bottom up.\<close>

  \<^item> \<open>Aether_Prelude\<close>: word types, spans, copies into spans, generic lemmas.
  \<^item> \<open>Core_Types\<close>: \<open>core/types.hpp\<close>, \<open>status.hpp\<close>, \<open>expected.hpp\<close>, \<open>config.hpp\<close>, \<open>message.hpp\<close>.
  \<^item> \<open>Queue_Interface\<close>: the locale \<open>bounded_fifo\<close>, the contract of a queue, with its consequences
    (FIFO order, exact capacity) proved once for all queues.
  \<^item> \<open>Spsc_Ring_Buffer\<close>: \<open>spsc_ring_buffer.hpp\<close> called from one thread, down to raw and live slots;
    interpretation \<open>ring\<close>; refinement of a list queue, also across counter wrap-around; the destructor.
  \<^item> \<open>Spsc_Concurrent\<close>: the same class under concurrency, one access to shared memory per step, with
    stale acquire loads and vector clocks for data races. No race, FIFO delivery, wait-freedom,
    agreement with the sequential model, the meaning of the observers in each thread.
  \<^item> \<open>Spsc_Clients\<close>: \<open>tools/stress_spsc.cpp\<close> and \<open>apps/aether_bench.cpp\<close> as two-thread programs on
    that model; locale \<open>spsc_client_laws\<close>, interpretations \<open>stress\<close> and \<open>bench\<close>.
  \<^item> \<open>Zero_Copy_Spsc\<close>: \<open>zero_copy_spsc.hpp\<close> with its \<open>Reservation\<close>; interpretation \<open>zero_copy\<close>;
    refinement and object lifetimes.
  \<^item> \<open>Zero_Copy_Concurrent\<close>: the zero-copy queue under concurrency, on the memory model of
    \<open>Spsc_Concurrent\<close>. The producer may reserve, construct, commit and cancel in any order; no data
    race, no construction over a live object, FIFO delivery, agreement with the sequential model.
  \<^item> \<open>Metrics_Counters\<close>, \<open>Latency_Histogram\<close>: \<open>metrics/\<close>; percentiles in binary64 arithmetic.
  \<^item> \<open>Broker_Interface\<close>: the locale \<open>message_broker\<close>, an extension of the queue contract by statuses
    and counters. \<open>Broker\<close> (\<open>broker.hpp\<close>, \<open>broker.cpp\<close>) and \<open>Batch_Broker\<close> (\<open>batch_broker.hpp\<close>)
    provide it: interpretations \<open>broker\<close> and \<open>batch\<close>.
  \<^item> \<open>Mmap_File\<close>: \<open>io/mmap_file.cpp\<close> over a record of system calls.
  \<^item> \<open>Wal_Record\<close>, \<open>Wal_Checksum\<close>: \<open>wal/record.hpp\<close>, \<open>wal/checksum.cpp\<close>; codec round trips, the
    burst detection of the CRC.
  \<^item> \<open>Wal_Log\<close>: logs as lists of entries, their byte image, and the locale \<open>append_log\<close>.
    \<open>Wal_Writer\<close> (\<open>wal_writer.cpp\<close>, interpretation \<open>wal\<close>) and \<open>Wal_Reader\<close> (\<open>wal_reader.cpp\<close>, against
    the reference decoder \<open>parse_log\<close>) implement the two directions; \<open>Wal_Roundtrip\<close> composes them
    through the file system and \<open>Wal_Corruption\<close> says what damage is noticed.
  \<^item> \<open>Persistent_Broker\<close>: \<open>persistent_broker.hpp\<close>; log before queue, recovery.
  \<^item> \<open>Cli_Args\<close>: \<open>cli/args.cpp\<close>. \<open>Cli_Apps\<close>: the loops of \<open>aether_pub\<close>, \<open>aether_sub\<close>,
    \<open>aether_replay\<close>, \<open>aether_inspect_wal\<close>. \<open>Cli_Pipeline\<close>: one application on the file that another
    one wrote. \<open>Examples\<close>: the programs under \<open>examples/\<close>.
  \<^item> \<open>Bench_Transfer\<close>, \<open>Bench_Loops\<close>: the programs under \<open>benchmarks/\<close> with two threads
    (interpretations \<open>throughput\<close>, \<open>sized\<close>, \<open>latency\<close>) and with one. They never report an error, unless
    a log file cannot be opened, and what they count is what they did.
  \<^item> \<open>Wait_Utils\<close>: \<open>utils/\<close>.

  \<^bold>\<open>Parameters and hypotheses.\<close> The operating system is a parameter of type \<open>'os posix\<close>; \<open>posix_laws\<close>
  states the documented effect of each call, any call may fail, and \<open>memfs_posix\<close> is an instance
  that satisfies the laws and on which the witnesses run. The clock is an argument. The object
  representation of a payload type is a parameter \<open>object_rep\<close> with \<open>trivially_copyable\<close> as its law,
  proved for \<open>OrderEvent\<close> and \<open>Payload64\<close>. The number of passes of a benchmark, which its framework
  chooses, is an argument. The affinity interface is a parameter with \<open>affinity_laws\<close>. Where a file
  passes from one process to the next, that closing it reported success is a hypothesis.

  \<^bold>\<open>Loops and bounds.\<close> No definition uses fuel. Every loop is a total function: structural, or with a
  termination measure (the bytes left for the reader, the messages left for a publisher, the
  arguments left for a parser, the distance of the counters for the destructor). Retry loops of
  threads are step relations; that they can always be completed is proved. A histogram is assumed to
  hold at most \<open>2 ^ 53\<close> samples, as many as a double counts exactly, and so is a latency benchmark.

  \<^bold>\<open>Not modelled.\<close>

  \<^item> The layout of printed text, help texts, measured times and rates, and the name of the result
    file of \<open>aether_bench\<close>: output only, with no effect on what the program does. The data in the
    reports of the applications is modelled.
  \<^item> \<open>std::filesystem\<close> directories and removal of files: the programs that use them take the path, and
    the benchmark with a log also the effect of a removal, as an argument.
  \<^item> The fallback for platforms without POSIX files, which refuses every call of \<open>MmapFile\<close>.
  \<^item> \<open>version.hpp\<close>, \<open>version.cpp\<close> and \<open>examples/smoke.cpp\<close> (constants), \<open>detail/cache_line.hpp\<close> and
    \<open>detail/platform.hpp\<close> (alignment and compile-time flags), the \<open>pause\<close> instructions.
  \<^item> The benchmark framework and what is handed to it for display, and the two benchmarks that repeat
    one instruction (\<open>BM_CpuRelax\<close>, \<open>BM_ThreadYield\<close>). \<open>tests/\<close>: not part of the program.
  \<^item> Deleted copy operations, declarations repeated in a header, and accessors that return one member:
    the record field is used directly.
  \<^item> Relaxed counters are exact integers with one writer each; only \<open>head_\<close> and \<open>tail_\<close> have the weak
    memory semantics.
\<close>

end
